(* ===== verification/OS01_Prelude.thy ===== *)
theory OS01_Prelude
  imports Main "HOL-Library.Word"
begin

text \<open>
  Prelude of the OS01 verification library: the machine types of the kernel, the error
  codes its functions return, the bit arrays that three of its allocators share, and the
  generic lemmas on words, lists and bit arrays that the component theories use.

  Conventions of the whole development.
  \<^item> A C integer is a word of its width; pointers into an array are the index of the element.
  \<^item> A negative errno return is the value \<^term>\<open>Inl e\<close> of a sum.
  \<^item> Behaviour that C leaves undefined, a NULL dereference and a halt are the value
    \<^term>\<open>None\<close> of an option around the result, so that no theorem speaks about such a run
    by accident.
\<close>

unbundle bit_operations_syntax

section \<open>Machine types and error codes\<close>

type_synonym u8 = "8 word"
type_synonym u16 = "16 word"
type_synonym u32 = "32 word"
type_synonym u64 = "64 word"

datatype errno =
    EPERM | ENOENT | ESRCH | EINTR | EAGAIN | ENOMEM | EFAULT | EEXIST | ENODEV
  | EINVAL | EBADF | ENOTTY | ECHILD | EOVERFLOW | EACCES | ENOTDIR | EISDIR | EPIPE | EMFILE

named_theorems os01_defs \<open>definitions of the model that proofs unfold\<close>
named_theorems unat_rules \<open>transfer of word arithmetic to natural numbers\<close>

section \<open>Words\<close>

lemma unat_plus_one [unat_rules]:
  fixes x :: "'a::len word"
  assumes "unat x < y" "y < 2 ^ LENGTH('a)"
  shows "unat (x + 1) = unat x + 1"
proof -
  from assms have "unat x + 1 < 2 ^ LENGTH('a)" by linarith
  then show ?thesis by (simp add: unat_word_ariths)
qed

lemma unat_minus_1 [unat_rules]:
  fixes x :: "'a::len word"
  assumes "x \<noteq> 0"
  shows "unat (x - 1) = unat x - 1"
  using assms by (simp add: unat_minus_one)

lemma unat_add_small [unat_rules]:
  fixes x y :: "'a::len word"
  assumes "unat x + unat y < 2 ^ LENGTH('a)"
  shows "unat (x + y) = unat x + unat y"
  using assms by (simp add: unat_add_lem [THEN iffD1])

lemma unat_sub_small [unat_rules]:
  fixes x y :: "'a::len word"
  assumes "y \<le> x"
  shows "unat (x - y) = unat x - unat y"
  using assms by (simp add: unat_sub)

lemma and_mask_zero_iff:
  fixes w :: "'a::len word"
  shows "w AND mask n = 0 \<longleftrightarrow> (\<forall>i<n. \<not> bit w i)"
proof
  assume zero: "w AND mask n = 0"
  show "\<forall>i<n. \<not> bit w i"
  proof (intro allI impI notI)
    fix i assume "i < n" and "bit w i"
    then have "bit (w AND mask n) i"
      by (auto simp: bit_and_iff bit_mask_iff dest: bit_imp_le_length)
    with zero show False by simp
  qed
next
  assume clear: "\<forall>i<n. \<not> bit w i"
  show "w AND mask n = 0"
    by (rule bit_word_eqI) (use clear in \<open>auto simp: bit_and_iff bit_mask_iff\<close>)
qed

lemma shift_mask: "push_bit n (1 :: 'a::len word) - 1 = mask n"
  by (simp add: mask_eq_decr_exp push_bit_eq_mult)

lemma unat_max: "unat (- 1 :: u64) = 2 ^ 64 - 1"
  by (simp add: unsigned_minus_1_eq_mask mask_eq_exp_minus_1)

lemma unat_less_2p64: "unat (x :: u64) < 2 ^ 64"
  using unsigned_less [of x, where ?'a = nat] by simp

lemma and_not_mask_eq:
  fixes x :: "'a::len word"
  shows "x AND NOT (mask k) = x - take_bit k x"
proof -
  have "(x AND NOT (mask k)) + take_bit k x = (x AND NOT (mask k)) OR take_bit k x"
    by (rule disjunctive_add_eq_or) (simp add: bit_eq_iff bit_simps)
  also have "\<dots> = x"
    by (rule bit_word_eqI) (auto simp: bit_simps)
  finally show ?thesis by (simp add: eq_diff_eq)
qed

lemma unat_take_bit_mod: "unat (take_bit k (x :: 'a::len word)) = unat x mod 2 ^ k"
  unfolding unsigned_take_bit_eq by (rule take_bit_eq_mod)

lemma unat_and_not_mask:
  fixes x :: "'a::len word"
  shows "unat (x AND NOT (mask k)) = unat x - unat x mod 2 ^ k"
proof -
  have t: "unat (take_bit k x) = unat x mod 2 ^ k" by (rule unat_take_bit_mod)
  then have "take_bit k x \<le> x" by (simp add: word_le_nat_alt)
  with t show ?thesis by (simp add: and_not_mask_eq unat_sub_small)
qed

lemma drop_bit_unat:
  fixes x :: "'a::len word"
  shows "unat (drop_bit k x) = unat x div 2 ^ k"
  by (metis drop_bit_eq_div unat_drop_bit_eq)

section \<open>Rounding natural numbers\<close>

lemma nat_floor_greatest:
  fixes n :: nat
  assumes "n dvd g" "g \<le> x"
  shows "g \<le> x - x mod n"
proof (cases "n = 0")
  case False
  from assms have "g div n * n = g" "g div n \<le> x div n" by (simp_all add: div_le_mono)
  then show ?thesis by (metis minus_mod_eq_div_mult mult_le_mono1)
qed (use assms in simp)

lemma nat_ceil_ge:
  fixes n :: nat
  assumes "0 < n"
  shows "x \<le> x + (n - 1) - (x + (n - 1)) mod n"
proof -
  have "(x + (n - 1)) mod n < n" using assms by (rule mod_less_divisor)
  then show ?thesis by linarith
qed

lemma nat_ceil_least:
  fixes n :: nat
  assumes "0 < n" "n dvd g" "x \<le> g"
  shows "x + (n - 1) - (x + (n - 1)) mod n \<le> g"
proof -
  from assms(2) obtain k where g: "g = k * n" by (metis dvd_def mult.commute)
  have "x + (n - 1) \<le> (n - 1) + k * n" using assms(3) g by simp
  then have "(x + (n - 1)) div n \<le> ((n - 1) + k * n) div n" by (rule div_le_mono)
  also have "\<dots> = k" using assms(1) by (subst div_mult_self1) simp_all
  finally have "(x + (n - 1)) div n * n \<le> g" unfolding g by (rule mult_le_mono1)
  then show ?thesis by (simp only: minus_mod_eq_div_mult)
qed

lemma aligned_step:
  fixes g h :: nat
  assumes "d dvd g" "d dvd h" "g < h"
  shows "g + d \<le> h"
proof -
  from assms obtain j k where jk: "g = d * j" "h = d * k" by (auto elim!: dvdE)
  with assms(3) have "Suc j \<le> k" by (auto simp: Suc_le_eq)
  then have "d * Suc j \<le> d * k" by (rule mult_le_mono2)
  with jk show ?thesis by simp
qed

end
