(* ===== verification/PMM_Boot.thy ===== *)
theory PMM_Boot
  imports OS01_Prelude
begin

text \<open>
  \<^verbatim>\<open>kernel/memory/pmm_boot.c\<close>: the overflow-checked calculator of the boot-time layout of the
  page allocator's metadata (the bit array, the page descriptors and the zone descriptors,
  one after the other above the kernel image), and the default boot reservation strategy of
  \<^verbatim>\<open>kernel/memory/pmm_arch.c\<close>.
\<close>

section \<open>Sizes\<close>

text \<open>\<open>sizeof\<close> of the LP64 layout of \<^verbatim>\<open>struct Page\<close> and \<^verbatim>\<open>struct Zone\<close>, and the constants.\<close>

definition sizeof_Page :: u64 where "sizeof_Page = 40"
definition sizeof_Zone :: u64 where "sizeof_Zone = 80"
definition sizeof_long :: u64 where "sizeof_long = 8"
definition MEMORY_RANGE_MAX :: u64 where "MEMORY_RANGE_MAX = 64"
definition PMM_BOOT_TAIL_BYTES :: u64 where "PMM_BOOT_TAIL_BYTES = 32 * sizeof_long"
definition PAGE_2M_SIZE :: u64 where "PAGE_2M_SIZE = 0x200000"

lemmas pmm_sizes = sizeof_Page_def sizeof_Zone_def sizeof_long_def MEMORY_RANGE_MAX_def
  PMM_BOOT_TAIL_BYTES_def PAGE_2M_SIZE_def

section \<open>Checked arithmetic\<close>

definition add_overflows :: "u64 \<Rightarrow> u64 \<Rightarrow> bool" where
  "add_overflows a b = (a > - 1 - b)"

definition mul_overflows :: "u64 \<Rightarrow> u64 \<Rightarrow> bool" where
  "mul_overflows a b = (b \<noteq> 0 \<and> a > (- 1) div b)"

definition align_up_checked :: "u64 \<Rightarrow> u64 \<Rightarrow> u64 option" where
  "align_up_checked x a =
     (let rem = x mod a in
      if rem = 0 then Some x
      else let pad = a - rem in
        if add_overflows x pad then None else Some (x + pad))"

section \<open>The layout\<close>

record pmm_layout =
  bits_map_off :: u64
  lay_bits_length :: u64
  pages_struct_off :: u64
  lay_pages_length :: u64
  zones_struct_off :: u64
  lay_zones_length :: u64
  end_of_struct_off :: u64
  total_bytes :: u64
  metadata_end_pa :: u64

definition zero_layout :: pmm_layout where
  "zero_layout = \<lparr>bits_map_off = 0, lay_bits_length = 0, pages_struct_off = 0,
     lay_pages_length = 0, zones_struct_off = 0, lay_zones_length = 0,
     end_of_struct_off = 0, total_bytes = 0, metadata_end_pa = 0\<rparr>"

text \<open>The body after the two argument checks; \<^term>\<open>None\<close> is each \<open>return -EOVERFLOW\<close>.\<close>

definition layout_offsets :: "u64 \<Rightarrow> u64 \<Rightarrow> pmm_layout option" where
  "layout_offsets base_va span_pages =
    (if add_overflows span_pages 63 then None else
     let bits_qwords = (span_pages + 63) AND NOT 63;
         bits_length = bits_qwords div 8 in
     if mul_overflows span_pages sizeof_Page then None else
     case align_up_checked (span_pages * sizeof_Page) sizeof_long of None \<Rightarrow> None
     | Some pages_length \<Rightarrow>
     if mul_overflows MEMORY_RANGE_MAX sizeof_Zone then None else
     case align_up_checked (MEMORY_RANGE_MAX * sizeof_Zone) sizeof_long of None \<Rightarrow> None
     | Some zones_length \<Rightarrow>
     if add_overflows 0 bits_length then None else
     case align_up_checked (0 + bits_length) 0x1000 of None \<Rightarrow> None
     | Some pages_off \<Rightarrow>
     if add_overflows pages_off pages_length then None else
     case align_up_checked (pages_off + pages_length) 0x1000 of None \<Rightarrow> None
     | Some zones_off \<Rightarrow>
     if add_overflows zones_off zones_length then None else
     if add_overflows (zones_off + zones_length) PMM_BOOT_TAIL_BYTES then None else
     let end_off = (zones_off + zones_length + PMM_BOOT_TAIL_BYTES) AND NOT (sizeof_long - 1) in
     case align_up_checked end_off 0x1000 of None \<Rightarrow> None
     | Some len \<Rightarrow>
     if add_overflows base_va len then None else
     Some \<lparr>bits_map_off = 0, lay_bits_length = bits_length, pages_struct_off = pages_off,
       lay_pages_length = pages_length, zones_struct_off = zones_off,
       lay_zones_length = zones_length, end_of_struct_off = end_off,
       total_bytes = len, metadata_end_pa = 0\<rparr>)"

text \<open>
  The function: \<^term>\<open>None\<close> for the out parameter is the NULL pointer. The result is the
  return value (\<^term>\<open>None\<close> is 0) and what the out parameter holds afterwards.
\<close>

definition pmm_layout_calculate ::
  "u64 \<Rightarrow> u64 \<Rightarrow> pmm_layout option \<Rightarrow> errno option \<times> pmm_layout option" where
  "pmm_layout_calculate base_va span_pages out =
    (case out of None \<Rightarrow> (Some EINVAL, None)
     | Some _ \<Rightarrow>
       if span_pages = 0 then (Some EINVAL, Some zero_layout)
       else case layout_offsets base_va span_pages of
         None \<Rightarrow> (Some EOVERFLOW, Some zero_layout)
       | Some l \<Rightarrow> (None, Some l))"

record phys_range =
  pr_start :: u64
  pr_end :: u64

text \<open>
  \<^verbatim>\<open>pmm_arch_boot_reservations\<close>, the weak default: the count it stores, and the range list if
  the caller has room for it. The two flags say whether \<open>out\<close> and \<open>count\<close> are not NULL.
\<close>

definition pmm_arch_boot_reservations ::
  "pmm_layout option \<Rightarrow> bool \<Rightarrow> nat \<Rightarrow> bool \<Rightarrow> errno + (nat \<times> phys_range list)" where
  "pmm_arch_boot_reservations layout out_given capacity count_given =
    (case layout of None \<Rightarrow> Inl EINVAL
     | Some l \<Rightarrow>
       if \<not> count_given then Inl EINVAL
       else if capacity = 0 then Inr (1, [])
       else if \<not> out_given then Inl EINVAL
       else Inr (1, [\<lparr>pr_start = 0,
         pr_end = (metadata_end_pa l + PAGE_2M_SIZE - 1) AND NOT (PAGE_2M_SIZE - 1)\<rparr>]))"

section \<open>What the checks decide\<close>

lemma add_overflows_iff: "add_overflows a b \<longleftrightarrow> 2 ^ 64 \<le> unat a + unat b"
proof -
  have "unat (- 1 - b) = 2 ^ 64 - 1 - unat b"
    by (subst unat_sub_small) (simp_all add: unat_max)
  then show ?thesis
    using unat_less_2p64 [of b] by (auto simp: add_overflows_def word_less_nat_alt)
qed

lemma mul_overflows_iff: "mul_overflows a b \<longleftrightarrow> 2 ^ 64 \<le> unat a * unat b"
proof (cases "b = 0")
  case True
  then show ?thesis by (simp add: mul_overflows_def)
next
  case False
  then have b: "0 < unat b" by (simp add: unat_gt_0)
  have "mul_overflows a b \<longleftrightarrow> (2 ^ 64 - 1) div unat b < unat a"
    using False by (simp add: mul_overflows_def word_less_nat_alt unat_div unat_max)
  also have "\<dots> \<longleftrightarrow> 2 ^ 64 - 1 < unat a * unat b"
    using b by (rule div_less_iff_less_mult)
  finally show ?thesis by auto
qed

lemma align_up_checked_Some:
  assumes "align_up_checked x a = Some y" "a \<noteq> 0"
  shows "unat a dvd unat y" "unat x \<le> unat y" "unat y < unat x + unat a"
proof -
  let ?x = "unat x" and ?a = "unat a"
  from assms(2) have a: "0 < ?a" by (simp add: unat_gt_0)
  have rem: "unat (x mod a) = ?x mod ?a" by (simp add: unat_mod)
  have y: "unat y = (if ?x mod ?a = 0 then ?x else ?x + (?a - ?x mod ?a))"
  proof (cases "x mod a = 0")
    case True
    with assms(1) rem show ?thesis by (simp add: align_up_checked_def)
  next
    case False
    with rem have nz: "?x mod ?a \<noteq> 0" by (metis unat_eq_0)
    have pad: "unat (a - x mod a) = ?a - ?x mod ?a"
      using a rem by (subst unat_sub_small) (simp_all add: word_le_nat_alt less_imp_le)
    from assms(1) False have no: "\<not> add_overflows x (a - x mod a)" and y: "y = x + (a - x mod a)"
      by (auto simp: align_up_checked_def Let_def split: if_splits)
    from no have "unat (x + (a - x mod a)) = ?x + unat (a - x mod a)"
      by (intro unat_add_small) (simp add: add_overflows_iff)
    with y nz pad show ?thesis by simp
  qed
  have d: "?a dvd ?x + (?a - ?x mod ?a)"
  proof -
    have "?x mod ?a < ?a" using a by simp
    then have "?x + (?a - ?x mod ?a) = (?x div ?a + 1) * ?a"
      using div_mult_mod_eq [of ?x ?a] unfolding distrib_right by linarith
    then show ?thesis by simp
  qed
  have m: "?x mod ?a < ?a" using a by simp
  show "unat a dvd unat y" using y d by (cases "?x mod ?a = 0") (simp_all add: mod_0_imp_dvd)
  show "unat x \<le> unat y" using y m by (cases "?x mod ?a = 0") simp_all
  have "unat y < ?x + ?a" if "unat y = (if r = 0 then ?x else ?x + (?a - r))" "r < ?a" for r
    using that by (auto split: if_splits)
  from this [OF y m] show "unat y < unat x + unat a" .
qed

section \<open>The layout is sound\<close>

text \<open>What a successful run of \<^const>\<open>layout_offsets\<close> computed, step by step.\<close>

lemma layout_offsets_Some:
  assumes "layout_offsets base span = Some l"
  obtains bl po pl zo zl eo where
    "unat span + 63 < 2 ^ 64" "bl = ((span + 63) AND NOT 63) div 8"
    "unat span * 40 < 2 ^ 64" "align_up_checked (span * 40) 8 = Some pl"
    "align_up_checked (64 * 80) 8 = Some zl"
    "align_up_checked bl 0x1000 = Some po"
    "unat po + unat pl < 2 ^ 64" "align_up_checked (po + pl) 0x1000 = Some zo"
    "unat zo + unat zl < 2 ^ 64" "unat (zo + zl) + 256 < 2 ^ 64"
    "eo = (zo + zl + 256) AND NOT 7"
    "align_up_checked eo 0x1000 = Some (total_bytes l)"
    "unat base + unat (total_bytes l) < 2 ^ 64"
    "bits_map_off l = 0" "lay_bits_length l = bl" "pages_struct_off l = po"
    "lay_pages_length l = pl" "zones_struct_off l = zo" "lay_zones_length l = zl"
    "end_of_struct_off l = eo" "metadata_end_pa l = 0"
  using assms unfolding layout_offsets_def pmm_sizes Let_def
  by (auto simp: add_overflows_iff mul_overflows_iff not_le split: if_splits option.splits)

lemma unat_round_bits:
  assumes "unat span + 63 < 2 ^ 64"
  shows "unat (((span + 63) AND NOT 63) div 8 :: u64) = (unat span + 63) div 64 * 8"
proof -
  have m: "(63 :: u64) = mask 6" by (simp add: mask_eq_decr_exp)
  have "unat (span + 63) = unat span + 63"
    using assms by (subst unat_add_small) simp_all
  then have "unat ((span + 63) AND NOT 63) = unat span + 63 - (unat span + 63) mod 64"
    unfolding m unat_and_not_mask by (simp flip: m)
  also have "\<dots> = (unat span + 63) div 64 * 64"
    by (rule minus_mod_eq_div_mult)
  finally show ?thesis by (simp add: unat_div)
qed

text \<open>
  C1. When the layout calculator succeeds, the regions it reports fit their contents, follow
  one another without overlapping, and neither an offset nor the end of the metadata above
  \<open>base_va\<close> wraps around: there is a bit for each frame, a descriptor for each frame and for
  each of the 64 ranges, the page and zone tables and the total are 4 KiB aligned, and the
  256-byte tail lies between the zones and the end.
\<close>

theorem pmm_layout_sound:
  assumes "pmm_layout_calculate base span (Some out0) = (None, Some l)"
  shows "unat span \<le> 8 * unat (lay_bits_length l)
    \<and> unat (bits_map_off l) + unat (lay_bits_length l) \<le> unat (pages_struct_off l)
    \<and> unat span * unat sizeof_Page \<le> unat (lay_pages_length l)
    \<and> unat (pages_struct_off l) + unat (lay_pages_length l) \<le> unat (zones_struct_off l)
    \<and> unat MEMORY_RANGE_MAX * unat sizeof_Zone \<le> unat (lay_zones_length l)
    \<and> unat (zones_struct_off l) + unat (lay_zones_length l) + unat PMM_BOOT_TAIL_BYTES
        = unat (end_of_struct_off l)
    \<and> unat (end_of_struct_off l) \<le> unat (total_bytes l)
    \<and> unat base + unat (total_bytes l) < 2 ^ 64
    \<and> 4096 dvd unat (pages_struct_off l) \<and> 4096 dvd unat (zones_struct_off l)
    \<and> 4096 dvd unat (total_bytes l) \<and> metadata_end_pa l = 0"
proof -
  from assms have "layout_offsets base span = Some l"
    by (auto simp: pmm_layout_calculate_def split: if_splits option.splits)
  then show ?thesis
  proof (cases rule: layout_offsets_Some)
    case (1 bl po pl zo zl eo)
    have zl: "unat zl = 5120"
      using 1(5) by (simp add: align_up_checked_def)
    have bl: "unat bl = (unat span + 63) div 64 * 8"
      unfolding 1(2) by (rule unat_round_bits [OF 1(1)])
    have pages: "unat (span * 40) = unat span * 40"
      using 1(3) by (simp add: unat_word_ariths)
    note po = align_up_checked_Some [OF 1(6)] and pl = align_up_checked_Some [OF 1(4)]
      and zo = align_up_checked_Some [OF 1(8)] and tb = align_up_checked_Some [OF 1(12)]
    have zo_sum: "unat (po + pl) = unat po + unat pl" and zl_sum: "unat (zo + zl) = unat zo + unat zl"
      using 1(7,9) by (simp_all add: unat_add_small)
    have seven: "(7 :: u64) = mask 3" by (simp add: mask_eq_decr_exp)
    have dvd8: "8 dvd unat zo + unat zl + 256"
      using zo(1) zl by (simp add: dvd_add_left_iff dvd_add_right_iff) (auto elim!: dvd_trans [rotated])
    have "unat (zo + zl + 256) = unat zo + unat zl + 256"
      using 1(10) zl_sum by (subst unat_add_small) simp_all
    then have eo: "unat eo = unat zo + unat zl + 256"
      unfolding 1(11) seven unat_and_not_mask using dvd8 by simp
    show ?thesis
      using po pl zo tb bl pages zo_sum zl eo 1(13-) by (simp add: pmm_sizes)
  qed
qed

theorem pmm_layout_sound_witness:
  "\<exists>l. pmm_layout_calculate 0xffff800000200000 512 (Some zero_layout) = (None, Some l)
     \<and> 512 \<le> 8 * unat (lay_bits_length l)
     \<and> unat (zones_struct_off l) + unat (lay_zones_length l) + 256 = unat (end_of_struct_off l)"
proof -
  have "fst (pmm_layout_calculate 0xffff800000200000 512 (Some zero_layout)) = None"
    and "snd (pmm_layout_calculate 0xffff800000200000 512 (Some zero_layout)) \<noteq> None"
    by code_simp+
  then obtain l where l: "pmm_layout_calculate 0xffff800000200000 512 (Some zero_layout) = (None, Some l)"
    by (metis option.exhaust prod.collapse)
  with pmm_layout_sound [OF l] show ?thesis by (simp add: pmm_sizes)
qed

section \<open>The calculator does not fail without need\<close>

lemma align_up_checked_ok:
  assumes "unat x + unat a \<le> 2 ^ 64" "a \<noteq> 0"
  obtains y where "align_up_checked x a = Some y"
proof (cases "x mod a = 0")
  case True
  with that show ?thesis by (simp add: align_up_checked_def)
next
  case False
  then have nz: "0 < unat (x mod a)" by (simp add: unat_gt_0)
  have "unat (x mod a) < unat a" using assms(2) by (simp add: unat_mod unat_gt_0)
  then have "unat (a - x mod a) < unat a"
    using nz by (subst unat_sub_small) (simp_all add: word_le_nat_alt)
  with assms(1) have "\<not> add_overflows x (a - x mod a)" by (simp add: add_overflows_iff)
  with that False show ?thesis by (simp add: align_up_checked_def Let_def)
qed

lemma layout_room:
  assumes "span \<noteq> 0" and room: "unat base + unat span * 41 + 32768 < 2 ^ 64"
  shows "\<exists>l. pmm_layout_calculate base span (Some out0) = (None, Some l)"
proof -
  define bl where "bl = ((span + 63) AND NOT 63) div 8"
  from room have s63: "unat span + 63 < 2 ^ 64" and s40: "unat span * 40 + 8 < 2 ^ 64" by simp_all
  then have bl: "unat bl = (unat span + 63) div 64 * 8"
    unfolding bl_def by (intro unat_round_bits)
  have sp: "unat (span * 40) = unat span * 40"
    using s40 by (simp add: unat_word_ariths)
  obtain pl where pl: "align_up_checked (span * 40) 8 = Some pl"
    by (rule align_up_checked_ok [of "span * 40" 8]) (use sp s40 in simp_all)
  note pl_b = align_up_checked_Some(3) [OF pl, unfolded sp]
  obtain po where po: "align_up_checked bl 0x1000 = Some po"
    by (rule align_up_checked_ok [of bl "0x1000"]) (use bl room in simp_all)
  note po_b = align_up_checked_Some(3) [OF po, unfolded bl]
  have s1: "unat po + unat pl + 8192 < 2 ^ 64" using pl_b po_b room by simp
  then have e1: "unat (po + pl) = unat po + unat pl" by (intro unat_add_small) simp
  obtain zo where zo: "align_up_checked (po + pl) 0x1000 = Some zo"
    by (rule align_up_checked_ok [of "po + pl" "0x1000"]) (use e1 s1 in simp_all)
  note zo_b = align_up_checked_Some(3) [OF zo, unfolded e1]
  have s2: "unat base + unat zo + 5120 + 256 + 4096 < 2 ^ 64"
    using zo_b pl_b po_b room by simp
  define eo where "eo = (zo + 5120 + 256) AND NOT 7"
  have e2: "unat (zo + 5376) = unat zo + 5376" using s2 by (subst unat_add_small) simp_all
  have "eo = (zo + 5376) AND NOT (mask 3)" by (simp add: eo_def mask_eq_decr_exp add.commute)
  then have eo: "unat eo \<le> unat zo + 5376" by (simp add: unat_and_not_mask e2)
  obtain tb where tb: "align_up_checked eo 0x1000 = Some tb"
    by (rule align_up_checked_ok [of eo "0x1000"]) (use eo s2 in simp_all)
  have "unat base + unat tb < 2 ^ 64"
    using align_up_checked_Some(3) [OF tb] eo s2 by simp
  then show ?thesis
    using assms(1) s63 s40 s1 s2 pl po zo tb unat_less_2p64 [of bl]
    by (simp add: pmm_layout_calculate_def layout_offsets_def pmm_sizes add_overflows_iff
      mul_overflows_iff Let_def align_up_checked_def [of 5120] bl_def eo_def unat_add_small)
qed

text \<open>
  C2. The calculator answers with a layout whenever the machine is not absurdly large: for any
  positive number of frames whose descriptors (41 bytes per frame cover a descriptor and the
  frame's share of the bit array) and 32 KiB of slack fit above \<open>base_va\<close>.
\<close>

theorem pmm_layout_succeeds:
  assumes "span \<noteq> 0" and "unat base + unat span * 41 + 32768 < 2 ^ 64"
  shows "\<exists>l. pmm_layout_calculate base span (Some out0) = (None, Some l)"
  using assms by (rule layout_room)

theorem pmm_layout_succeeds_witness:
  "\<exists>l. pmm_layout_calculate 0 0x4000000000 (Some zero_layout) = (None, Some l)"
  by (rule pmm_layout_succeeds) simp_all

end
