(* ===== verification/Bitmap.thy ===== *)
theory Bitmap
  imports OS01_Prelude
begin

text \<open>
  Bit arrays over 64-bit words. The page allocator (\<open>PMMngr.bits_map\<close>), the 4 KiB subpage
  pools (\<open>subpage_pool.bitmap\<close>) and the slab allocator (\<open>Slab.color_map\<close>) all test, set and
  clear bit \<open>i\<close> as bit \<open>i mod 64\<close> of word \<open>i div 64\<close>. A bit array is the memory behind the
  pointer: a function from the word index to the word, so a read past the end of the array
  reads whatever word is there, as the C code does.

  The locale \<open>bit_array\<close> is the contract the allocators rely on; it is interpreted on the
  word operations, and the counting lemmas the allocators' invariants need are proved in it.
\<close>

section \<open>The word operations\<close>

definition bm_test :: "(nat \<Rightarrow> u64) \<Rightarrow> nat \<Rightarrow> bool" where
  "bm_test m i = (m (i div 64) AND push_bit (i mod 64) 1 \<noteq> 0)"

definition bm_set :: "(nat \<Rightarrow> u64) \<Rightarrow> nat \<Rightarrow> (nat \<Rightarrow> u64)" where
  "bm_set m i = m(i div 64 := m (i div 64) OR push_bit (i mod 64) 1)"

definition bm_clear :: "(nat \<Rightarrow> u64) \<Rightarrow> nat \<Rightarrow> (nat \<Rightarrow> u64)" where
  "bm_clear m i = m(i div 64 := m (i div 64) AND NOT (push_bit (i mod 64) 1))"

definition bm_flip :: "(nat \<Rightarrow> u64) \<Rightarrow> nat \<Rightarrow> (nat \<Rightarrow> u64)" where
  "bm_flip m i = m(i div 64 := m (i div 64) XOR push_bit (i mod 64) 1)"

definition count_clear :: "(nat \<Rightarrow> bool) \<Rightarrow> nat \<Rightarrow> nat \<Rightarrow> nat" where
  "count_clear P lo hi = length (filter (\<lambda>i. \<not> P i) [lo..<hi])"

section \<open>Reading a bit\<close>

lemma and_single_bit: "(w :: u64) AND push_bit k 1 \<noteq> 0 \<longleftrightarrow> bit w k"
proof
  assume "w AND push_bit k 1 \<noteq> 0"
  then obtain i where "bit (w AND push_bit k 1) i"
    by (metis bit_eq_iff bit_0_eq bot_apply bot_bool_def)
  then show "bit w k" by (auto simp: bit_simps)
next
  assume "bit w k"
  then have "bit (w AND push_bit k 1) k"
    by (auto simp: bit_simps dest: bit_imp_le_length)
  then show "w AND push_bit k 1 \<noteq> 0" by force
qed

lemma bm_test_bit: "bm_test m i \<longleftrightarrow> bit (m (i div 64)) (i mod 64)"
  unfolding bm_test_def by (rule and_single_bit)

lemma index_eq_iff: "i = j \<longleftrightarrow> i div 64 = j div 64 \<and> i mod 64 = (j mod 64 :: nat)"
  by (metis div_mult_mod_eq)

lemma bm_test_set: "bm_test (bm_set m i) = (bm_test m)(i := True)"
  by (rule ext) (auto simp: bm_test_bit bm_set_def bit_simps index_eq_iff [of _ i])

lemma bm_test_clear: "bm_test (bm_clear m i) = (bm_test m)(i := False)"
  by (rule ext) (auto simp: bm_test_bit bm_clear_def bit_simps index_eq_iff [of _ i])

lemma bm_test_flip: "bm_test (bm_flip m i) = (bm_test m)(i := \<not> bm_test m i)"
  by (rule ext) (auto simp: bm_test_bit bm_flip_def bit_simps index_eq_iff [of _ i])

section \<open>Counting clear bits\<close>

lemma count_clear_card: "count_clear P lo hi = card {i \<in> {lo..<hi}. \<not> P i}"
proof -
  have "count_clear P lo hi = card (set (filter (\<lambda>i. \<not> P i) [lo..<hi]))"
    unfolding count_clear_def by (rule distinct_card [symmetric]) simp
  then show ?thesis by (simp add: Int_def conj_commute)
qed

lemma count_clear_cong:
  "(\<And>i. lo \<le> i \<Longrightarrow> i < hi \<Longrightarrow> P i = Q i) \<Longrightarrow> count_clear P lo hi = count_clear Q lo hi"
  unfolding count_clear_def
  by (rule arg_cong [where f = length]) (rule filter_cong, simp_all)

lemma count_clear_le: "count_clear P lo hi \<le> hi - lo"
  unfolding count_clear_def using length_filter_le [of _ "[lo..<hi]"] by (metis length_upt)

lemma count_clear_pos: "0 < count_clear P lo hi \<longleftrightarrow> (\<exists>i. lo \<le> i \<and> i < hi \<and> \<not> P i)"
  by (auto simp: count_clear_card card_gt_0_iff)

lemma count_clear_mark:
  assumes "lo \<le> i" "i < hi" "\<not> P i"
  shows "Suc (count_clear (P(i := True)) lo hi) = count_clear P lo hi"
proof -
  let ?A = "{k \<in> {lo..<hi}. \<not> P k}"
  have "{k \<in> {lo..<hi}. \<not> (P(i := True)) k} = ?A - {i}" by auto
  moreover from assms have "i \<in> ?A" by simp
  ultimately show ?thesis
    unfolding count_clear_card by (metis card_Suc_Diff1 finite_Collect_conjI finite_atLeastLessThan finite_subset mem_Collect_eq subsetI)
qed

lemma count_clear_unmark:
  assumes "lo \<le> i" "i < hi" "P i"
  shows "count_clear (P(i := False)) lo hi = Suc (count_clear P lo hi)"
proof -
  from assms have "Suc (count_clear ((P(i := False))(i := True)) lo hi) = count_clear (P(i := False)) lo hi"
    by (intro count_clear_mark) auto
  with assms show ?thesis by (simp add: fun_upd_idem)
qed

lemma count_clear_outside [simp]:
  "\<not> (lo \<le> i \<and> i < hi) \<Longrightarrow> count_clear (P(i := b)) lo hi = count_clear P lo hi"
  by (rule count_clear_cong) auto

section \<open>The contract of a bit array\<close>

locale bit_array =
  fixes test :: "'m \<Rightarrow> nat \<Rightarrow> bool"
    and mark :: "'m \<Rightarrow> nat \<Rightarrow> 'm"
    and unmark :: "'m \<Rightarrow> nat \<Rightarrow> 'm"
  assumes test_mark: "test (mark m i) = (test m)(i := True)"
    and test_unmark: "test (unmark m i) = (test m)(i := False)"
begin

lemma mark_many:
  "test (fold (\<lambda>i m. mark m i) is m) j \<longleftrightarrow> test m j \<or> j \<in> set is"
  by (induction "is" arbitrary: m) (auto simp: test_mark)

lemma count_mark:
  "lo \<le> i \<Longrightarrow> i < hi \<Longrightarrow> \<not> test m i \<Longrightarrow>
     Suc (count_clear (test (mark m i)) lo hi) = count_clear (test m) lo hi"
  by (simp add: test_mark count_clear_mark)

lemma count_unmark:
  "lo \<le> i \<Longrightarrow> i < hi \<Longrightarrow> test m i \<Longrightarrow>
     count_clear (test (unmark m i)) lo hi = Suc (count_clear (test m) lo hi)"
  by (simp add: test_unmark count_clear_unmark)

lemma count_mark_outside:
  "\<not> (lo \<le> i \<and> i < hi) \<Longrightarrow> count_clear (test (mark m i)) lo hi = count_clear (test m) lo hi"
  by (simp add: test_mark)

lemma count_unmark_outside:
  "\<not> (lo \<le> i \<and> i < hi) \<Longrightarrow> count_clear (test (unmark m i)) lo hi = count_clear (test m) lo hi"
  by (simp add: test_unmark)

lemma unmark_mark:
  "\<not> test m i \<Longrightarrow> test (unmark (mark m i) i) = test m"
  by (simp add: test_mark test_unmark fun_upd_idem)

end

interpretation bm: bit_array bm_test bm_set bm_clear
  by unfold_locales (simp_all add: bm_test_set bm_test_clear)

lemmas bm_simps = bm_test_set bm_test_clear bm_test_flip

section \<open>Extensionality and masks of whole words\<close>

lemma bm_eqI:
  assumes "\<And>i. bm_test m i = bm_test m' i"
  shows "m = m'"
proof
  fix w
  show "m w = m' w"
  proof (rule bit_word_eqI)
    fix n assume "n < LENGTH(64)"
    then show "bit (m w) n = bit (m' w) n"
      using assms [of "w * 64 + n"] by (simp add: bm_test_bit)
  qed
qed

lemma bm_clear_set: "\<not> bm_test m i \<Longrightarrow> bm_clear (bm_set m i) i = m"
  by (rule bm_eqI) (simp add: bm.unmark_mark)

lemma word_full_iff: "(w :: u64) = - 1 \<longleftrightarrow> (\<forall>k<64. bit w k)"
  by (auto simp: bit_eq_iff bit_simps possible_bit_def dest: bit_imp_le_length)

end
