(* ===== verification/PMM.thy ===== *)
theory PMM
  imports PMM_Boot Bitmap
begin

text \<open>
  \<^verbatim>\<open>kernel/memory/pmm.c\<close>, the physical frame allocator: page and zone descriptors, the bit
  array of 2 MiB frames (bit set = in use), boot-time construction of the zones,
  \<open>alloc_pages\<close>, \<open>free_pages\<close>, the boot reservations and the single-frame claim.

  A \<open>struct Page *\<close> into \<open>pages_struct\<close> is the index of the frame, a \<open>struct Zone *\<close> into
  \<open>zones_struct\<close> the index of the zone; \<open>zone_struct = NULL\<close> (a hole) is \<^term>\<open>None\<close>. The
  three metadata arrays are separate components of the state: \<^verbatim>\<open>pmm_layout_calculate\<close> keeps
  them disjoint. Every operation runs under \<open>pmm_lock\<close> from its first to its last access, so
  it is one atomic step; the lock is not part of the state.
\<close>

section \<open>State\<close>

record page =
  zone_struct :: "nat option"
  phy_address :: u64
  pg_attribute :: u64
  reference_count :: u64
  age :: u64

record zone =
  pages_group :: nat
  z_pages_length :: u64
  zone_start_address :: u64
  zone_end_address :: u64
  zone_length :: u64
  z_attribute :: u64
  page_using_count :: u64
  page_free_count :: u64
  total_pages_link :: u64

record pmm =
  bits_map :: "nat \<Rightarrow> u64"
  bits_size :: u64
  bits_length :: u64
  pages_struct :: "nat \<Rightarrow> page"
  pages_size :: u64
  pages_length :: u64
  zones_struct :: "nat \<Rightarrow> zone"
  zones_size :: u64
  zones_length :: u64
  start_brk :: u64
  end_of_struct :: u64
  ZONE_DMA_INDEX :: u32
  ZONE_NORMAL_INDEX :: u32
  ZONE_UNMAPPED_INDEX :: u32

definition PG_PTable_Mapped :: u64 where "PG_PTable_Mapped = 1"
definition PG_Kernel_Init :: u64 where "PG_Kernel_Init = 2"
definition PG_Kernel :: u64 where "PG_Kernel = 8"
definition PG_Shared :: u64 where "PG_Shared = 16"
definition ZONE_DMA :: int where "ZONE_DMA = 1"
definition ZONE_NORMAL :: int where "ZONE_NORMAL = 2"
definition ZONE_UNMAPPED :: int where "ZONE_UNMAPPED = 4"
definition MAX_NR_ZONES :: u64 where "MAX_NR_ZONES = 10"

lemmas pmm_consts = PG_PTable_Mapped_def PG_Kernel_Init_def PG_Kernel_def PG_Shared_def
  ZONE_DMA_def ZONE_NORMAL_def ZONE_UNMAPPED_def MAX_NR_ZONES_def

definition upd_page :: "nat \<Rightarrow> (page \<Rightarrow> page) \<Rightarrow> pmm \<Rightarrow> pmm" where
  "upd_page i f s = s\<lparr>pages_struct := (pages_struct s)(i := f (pages_struct s i))\<rparr>"

definition upd_zone :: "nat \<Rightarrow> (zone \<Rightarrow> zone) \<Rightarrow> pmm \<Rightarrow> pmm" where
  "upd_zone z f s = s\<lparr>zones_struct := (zones_struct s)(z := f (zones_struct s z))\<rparr>"

section \<open>Page descriptors\<close>

text \<open>\<^term>\<open>None\<close> is the dereference of a NULL \<open>zone_struct\<close>.\<close>

definition page_init :: "nat \<Rightarrow> u64 \<Rightarrow> pmm \<Rightarrow> pmm option" where
  "page_init i flags s =
    (let s1 = upd_page i (\<lambda>p. p\<lparr>pg_attribute := pg_attribute p OR flags\<rparr>) s;
         p = pages_struct s1 i in
     if reference_count p = 0 \<or> pg_attribute p AND PG_Shared \<noteq> 0
     then let s2 = upd_page i (\<lambda>p. p\<lparr>reference_count := reference_count p + 1\<rparr>) s1 in
       map_option (\<lambda>z. upd_zone z (\<lambda>z. z\<lparr>total_pages_link := total_pages_link z + 1\<rparr>) s2)
         (zone_struct p)
     else Some s1)"

definition page_clean :: "nat \<Rightarrow> pmm \<Rightarrow> pmm option" where
  "page_clean i s =
    (let s1 = upd_page i (\<lambda>p. p\<lparr>reference_count := reference_count p - 1\<rparr>) s in
     case zone_struct (pages_struct s1 i) of None \<Rightarrow> None
     | Some z \<Rightarrow>
       let s2 = upd_zone z (\<lambda>z. z\<lparr>total_pages_link := total_pages_link z - 1\<rparr>) s1 in
       Some (if reference_count (pages_struct s2 i) = 0
             then upd_page i (\<lambda>p. p\<lparr>pg_attribute := pg_attribute p AND PG_PTable_Mapped\<rparr>) s2
             else s2))"

definition get_page_attribute :: "nat option \<Rightarrow> pmm \<Rightarrow> u64" where
  "get_page_attribute page s =
    (case page of None \<Rightarrow> 0 | Some i \<Rightarrow> pg_attribute (pages_struct s i))"

definition set_page_attribute :: "nat option \<Rightarrow> u64 \<Rightarrow> pmm \<Rightarrow> u64 \<times> pmm" where
  "set_page_attribute page flags s =
    (case page of None \<Rightarrow> (0, s)
     | Some i \<Rightarrow> (1, upd_page i (\<lambda>p. p\<lparr>pg_attribute := flags\<rparr>) s))"

section \<open>Allocation\<close>

text \<open>The 64 bits from bit \<open>k\<close> of word \<open>w\<close> on, as the scan reads them.\<close>

definition window :: "(nat \<Rightarrow> u64) \<Rightarrow> nat \<Rightarrow> nat \<Rightarrow> u64" where
  "window m w k = (if k \<noteq> 0 then drop_bit k (m w) OR push_bit (64 - k) (m (w + 1)) else m w)"

text \<open>The loop over \<open>k\<close>: the first position in the word of \<open>j\<close>, from \<open>j\<close> on, that starts a run.\<close>

definition find_in_word :: "(nat \<Rightarrow> u64) \<Rightarrow> nat \<Rightarrow> nat \<Rightarrow> nat option" where
  "find_in_word m n j =
    (let num = push_bit n 1 - 1; shift = j mod 64 in
     map_option (\<lambda>k. j + k - shift)
       (List.find (\<lambda>k. window m (j div 64) k AND num = 0) [shift..<64]))"

text \<open>The loop over \<open>j\<close>, with \<open>tmp = 64 - start mod 64\<close>.\<close>

function scan_zone :: "(nat \<Rightarrow> u64) \<Rightarrow> nat \<Rightarrow> nat \<Rightarrow> nat \<Rightarrow> nat \<Rightarrow> nat option" where
  "scan_zone m n start stop j =
    (if j < stop then
       case find_in_word m n j of
         Some page \<Rightarrow> Some page
       | None \<Rightarrow> scan_zone m n start stop (j + (if j mod 64 \<noteq> 0 then 64 - start mod 64 else 64))
     else None)"
  by pat_completeness auto
termination
  by (relation "measure (\<lambda>(m, n, start, stop, j). stop - j)") (auto simp: less_diff_conv)

declare scan_zone.simps [simp del]

text \<open>Marking one frame of the run; the counters are those of the zone being scanned.\<close>

definition take_frame :: "nat \<Rightarrow> u64 \<Rightarrow> nat \<Rightarrow> pmm \<Rightarrow> pmm" where
  "take_frame z attribute i s =
    upd_page i (\<lambda>p. p\<lparr>pg_attribute := attribute\<rparr>)
      (upd_zone z (\<lambda>z. z\<lparr>page_using_count := page_using_count z + 1,
                        page_free_count := page_free_count z - 1\<rparr>)
        (s\<lparr>bits_map := bm_set (bits_map s) i\<rparr>))"

definition take_run :: "nat \<Rightarrow> u64 \<Rightarrow> nat \<Rightarrow> nat \<Rightarrow> pmm \<Rightarrow> pmm" where
  "take_run z attribute page n s = fold (take_frame z attribute) [page..<page + n] s"

definition zone_stop :: "zone \<Rightarrow> nat" where
  "zone_stop z = unat (of_nat (pages_group z) + drop_bit 21 (zone_end_address z)
     - drop_bit 21 (zone_start_address z))"

text \<open>
  The loop over the zones; \<^term>\<open>None\<close> is undefined behaviour: an index below the array, or
  the shift \<open>1UL << 64\<close>, which the body of the scan evaluates when \<open>number = 64\<close>.
\<close>

fun alloc_zones :: "u64 \<Rightarrow> u64 \<Rightarrow> int list \<Rightarrow> pmm \<Rightarrow> (nat option \<times> pmm) option" where
  "alloc_zones number attribute [] s = Some (None, s)"
| "alloc_zones number attribute (i # is) s =
    (if i < 0 then None else
     let z = zones_struct s (nat i); start = pages_group z; stop = zone_stop z in
     if page_free_count z < number then alloc_zones number attribute is s
     else if start < stop \<and> number = 64 then None
     else case scan_zone (bits_map s) (unat number) start stop start of
       None \<Rightarrow> alloc_zones number attribute is s
     | Some page \<Rightarrow> Some (Some page, take_run (nat i) attribute page (unat number) s))"

text \<open>The \<open>switch\<close>: first and last zone (as \<open>int32_t\<close>) and the attribute.\<close>

definition alloc_zone_bounds :: "int \<Rightarrow> pmm \<Rightarrow> (int \<times> int \<times> u64) option" where
  "alloc_zone_bounds zone_select s =
    (if zone_select = ZONE_DMA then Some (0, sint (ZONE_DMA_INDEX s), PG_PTable_Mapped)
     else if zone_select = ZONE_NORMAL
       then Some (sint (ZONE_DMA_INDEX s), sint (ZONE_NORMAL_INDEX s), PG_PTable_Mapped)
     else if zone_select = ZONE_UNMAPPED
       then Some (sint (ZONE_UNMAPPED_INDEX s), sint (ucast (zones_size s - 1) :: u32), 0)
     else None)"

definition alloc_pages :: "int \<Rightarrow> u64 \<Rightarrow> pmm \<Rightarrow> (nat option \<times> pmm) option" where
  "alloc_pages zone_select number s =
    (if number > 64 then Some (None, s)
     else case alloc_zone_bounds zone_select s of
       None \<Rightarrow> Some (None, s)
     | Some (zone_start, zone_end, attribute) \<Rightarrow>
         alloc_zones number attribute [zone_start..zone_end] s)"

section \<open>Release\<close>

definition free_frame :: "nat \<Rightarrow> pmm \<Rightarrow> pmm option" where
  "free_frame i s =
    (let s1 = s\<lparr>bits_map := bm_clear (bits_map s) i\<rparr> in
     case zone_struct (pages_struct s1 i) of None \<Rightarrow> None
     | Some z \<Rightarrow> Some (upd_page i (\<lambda>p. p\<lparr>pg_attribute := 0\<rparr>)
         (upd_zone z (\<lambda>z. z\<lparr>page_using_count := page_using_count z - 1,
                            page_free_count := page_free_count z + 1\<rparr>) s1)))"

fun free_run :: "nat \<Rightarrow> nat \<Rightarrow> pmm \<Rightarrow> pmm option" where
  "free_run page 0 s = Some s"
| "free_run page (Suc n) s = Option.bind (free_frame page s) (free_run (Suc page) n)"

definition free_pages :: "nat option \<Rightarrow> int \<Rightarrow> pmm \<Rightarrow> pmm option" where
  "free_pages page number s =
    (case page of None \<Rightarrow> Some s
     | Some i \<Rightarrow> if number \<ge> 64 \<or> number \<le> 0 then Some s else free_run i (nat number) s)"

section \<open>Usage snapshot\<close>

record pmm_stats =
  managed_bytes :: u64
  reserved_bytes :: u64
  free_bytes :: u64

definition pmm_get_stats :: "pmm \<Rightarrow> pmm_stats" where
  "pmm_get_stats s = fold (\<lambda>i acc. let z = zones_struct s i in
      \<lparr>managed_bytes = managed_bytes acc + z_pages_length z * PAGE_2M_SIZE,
       reserved_bytes = reserved_bytes acc + page_using_count z * PAGE_2M_SIZE,
       free_bytes = free_bytes acc + page_free_count z * PAGE_2M_SIZE\<rparr>)
    [0..<unat (zones_size s)] \<lparr>managed_bytes = 0, reserved_bytes = 0, free_bytes = 0\<rparr>"

section \<open>Boot reservations and the single-frame claim\<close>

definition pa_in_ranges :: "u64 \<Rightarrow> phys_range list \<Rightarrow> bool" where
  "pa_in_ranges pa ranges = list_ex (\<lambda>r. pa \<ge> pr_start r \<and> pa < pr_end r) ranges"

definition range_ok :: "phys_range \<Rightarrow> bool" where
  "range_ok r = (\<not> pr_end r \<le> pr_start r \<and> pr_start r AND (PAGE_2M_SIZE - 1) = 0
     \<and> pr_end r AND (PAGE_2M_SIZE - 1) = 0)"

definition reserve_frame :: "phys_range list \<Rightarrow> nat \<Rightarrow> pmm \<Rightarrow> pmm option" where
  "reserve_frame ranges i s =
    (case zone_struct (pages_struct s i) of None \<Rightarrow> Some s
     | Some z \<Rightarrow>
       if \<not> pa_in_ranges (phy_address (pages_struct s i)) ranges then Some s
       else if bm_test (bits_map s) i then Some s
       else map_option (\<lambda>s1. upd_zone z (\<lambda>z. z\<lparr>page_using_count := page_using_count z + 1,
                page_free_count := page_free_count z - 1\<rparr>) (s1\<lparr>bits_map := bm_set (bits_map s1) i\<rparr>))
              (page_init i (PG_PTable_Mapped OR PG_Kernel_Init OR PG_Kernel) s))"

fun reserve_walk :: "phys_range list \<Rightarrow> nat list \<Rightarrow> pmm \<Rightarrow> pmm option" where
  "reserve_walk ranges [] s = Some s"
| "reserve_walk ranges (i # is) s = Option.bind (reserve_frame ranges i s) (reserve_walk ranges is)"

text \<open>
  \<open>pm\<close> and \<open>ranges\<close> are not NULL: the callers pass the address of the manager and of a local
  array. The result is the errno or \<^term>\<open>Inr ()\<close> for 0, with the state.
\<close>

definition pmm_reserve_boot_ranges :: "phys_range list \<Rightarrow> pmm \<Rightarrow> ((errno + unit) \<times> pmm) option" where
  "pmm_reserve_boot_ranges ranges s =
    (if ranges = [] then Some (Inr (), s)
     else if \<not> list_all range_ok ranges then Some (Inl EINVAL, s)
     else map_option (\<lambda>s'. (Inr (), s')) (reserve_walk ranges [0..<unat (pages_size s)] s))"

definition claimable :: "u64 \<Rightarrow> u64 \<Rightarrow> pmm \<Rightarrow> nat \<Rightarrow> bool" where
  "claimable start_pa end_pa s i =
    (let p = pages_struct s i in
     zone_struct p \<noteq> None \<and> \<not> (phy_address p < start_pa \<or> phy_address p \<ge> end_pa)
       \<and> \<not> bm_test (bits_map s) i)"

definition pmm_claim_free_frame :: "u64 \<Rightarrow> u64 \<Rightarrow> bool \<Rightarrow> pmm \<Rightarrow> nat option \<times> pmm" where
  "pmm_claim_free_frame start_pa end_pa from_end s =
    (if end_pa \<le> start_pa then (None, s)
     else let order = (if from_end then rev [0..<unat (pages_size s)] else [0..<unat (pages_size s)]) in
       case List.find (claimable start_pa end_pa s) order of
         None \<Rightarrow> (None, s)
       | Some i \<Rightarrow> (Some i, take_frame (the (zone_struct (pages_struct s i))) PG_PTable_Mapped i s))"

section \<open>The scan against a reference definition\<close>

text \<open>The reference: frames \<open>p\<close>, \dots, \<open>p + n - 1\<close> are all clear in the bit array.\<close>

definition run_free :: "(nat \<Rightarrow> u64) \<Rightarrow> nat \<Rightarrow> nat \<Rightarrow> bool" where
  "run_free m n p = list_all (\<lambda>i. \<not> bm_test m i) [p..<p + n]"

lemma run_free_iff: "run_free m n p \<longleftrightarrow> (\<forall>l<n. \<not> bm_test m (p + l))"
  unfolding run_free_def list_all_iff
  by (auto simp: le_iff_add)

lemma bit_window:
  assumes "k < 64" "l < 64"
  shows "bit (window m w k) l \<longleftrightarrow> bm_test m (w * 64 + k + l)"
proof (cases "k + l < 64")
  case True
  then have "(w * 64 + k + l) div 64 = w" "(w * 64 + k + l) mod 64 = k + l"
    unfolding add.assoc by simp_all
  with True show ?thesis
    by (auto simp: window_def bm_test_bit bit_simps)
next
  case False
  then have eq: "w * 64 + k + l = (k + l - 64) + (w + 1) * 64" by simp
  have "((k + l - 64) + (w + 1) * 64) div 64 = w + 1"
    "((k + l - 64) + (w + 1) * 64) mod 64 = k + l - 64"
    using assms by (simp_all only: div_mult_self1 mod_mult_self1) simp_all
  then have "(w * 64 + k + l) div 64 = w + 1" "(w * 64 + k + l) mod 64 = k + l - 64" "k \<noteq> 0"
    unfolding eq using assms False by simp_all
  moreover have "\<not> bit (m w) (k + l)" using False by (auto dest: bit_imp_le_length)
  ultimately show ?thesis
    using False assms by (auto simp: window_def bm_test_bit bit_simps add.commute [of l k])
qed

lemma window_free:
  assumes "n < 64" "k < 64"
  shows "window m w k AND (push_bit n 1 - 1) = 0 \<longleftrightarrow> run_free m n (w * 64 + k)"
  using assms unfolding shift_mask and_mask_zero_iff by (auto simp: bit_window run_free_iff)

lemma find_map_option:
  "(\<And>x. x \<in> set xs \<Longrightarrow> P x = Q (f x)) \<Longrightarrow> map_option f (List.find P xs) = List.find Q (map f xs)"
  by (induction xs) auto

lemma find_append: "List.find P (xs @ ys) =
    (case List.find P xs of None \<Rightarrow> List.find P ys | Some x \<Rightarrow> Some x)"
  by (induction xs) auto

lemma find_upt_Some:
  assumes "List.find P [a..<b] = Some i"
  shows "a \<le> i" "i < b" "P i" "\<And>k. a \<le> k \<Longrightarrow> k < i \<Longrightarrow> \<not> P k"
proof -
  from assms obtain n where n: "n < b - a" "P (a + n)" "i = a + n" "\<forall>j<n. \<not> P ([a..<b] ! j)"
    by (auto simp: find_Some_iff)
  then show "a \<le> i" "i < b" "P i" by auto
  fix k assume k: "a \<le> k" "k < i"
  with n(3) have "k - a < n" by linarith
  with n(4) have "\<not> P ([a..<b] ! (k - a))" by blast
  with n k show "\<not> P k" by simp
qed

lemma next_word: "(j div 64 + 1) * 64 = j + (64 - j mod 64)" for j :: nat
  by presburger

lemma find_in_word_eq:
  assumes "n < 64"
  shows "find_in_word m n j = List.find (run_free m n) [j..<(j div 64 + 1) * 64]"
proof -
  have "map (\<lambda>k. j + k - j mod 64) [j mod 64..<64] = [j..<(j div 64 + 1) * 64]"
    unfolding next_word by (rule nth_equalityI) auto
  moreover have "window m (j div 64) k AND (push_bit n 1 - 1) = 0 \<longleftrightarrow> run_free m n (j + k - j mod 64)"
    if "k \<in> set [j mod 64..<64]" for k
  proof -
    have "j div 64 * 64 + k = j + k - j mod 64"
      using div_mult_mod_eq [of j 64] by linarith
    then show ?thesis using window_free [OF assms, of k m "j div 64"] that by simp
  qed
  ultimately show ?thesis
    unfolding find_in_word_def Let_def by (subst find_map_option) auto
qed

lemma scan_zone_eq:
  assumes "n < 64" "j mod 64 \<noteq> 0 \<longrightarrow> j = start"
  shows "scan_zone m n start stop j =
    (if j < stop then List.find (run_free m n) [j..<(stop + 63) div 64 * 64] else None)"
  using assms
proof (induction m n start stop j rule: scan_zone.induct)
  case (1 m n start stop j)
  let ?E = "(stop + 63) div 64 * 64" and ?e = "(j div 64 + 1) * 64"
  have step: "j + (if j mod 64 \<noteq> 0 then 64 - start mod 64 else 64) = ?e"
    unfolding next_word using 1(3) by auto
  show ?case
  proof (cases "j < stop")
    case True
    have "(j + 64) div 64 \<le> (stop + 63) div 64" using True by (intro div_le_mono) simp
    then have e: "?e \<le> ?E" "j \<le> ?e"
      unfolding div_add_self2 [of 64 j, simplified] by (simp, unfold next_word, simp)
    then have split: "[j..<?E] = [j..<?e] @ [?e..<?E]" using upt_add_eq_append [of j ?e "?E - ?e"] by simp
    have empty: "[?e..<?E] = []" if "\<not> ?e < stop"
    proof -
      from that have "(stop + 63) div 64 \<le> (?e + 63) div 64" by (intro div_le_mono) simp
      then show ?thesis by simp
    qed
    have "scan_zone m n start stop ?e = List.find (run_free m n) [?e..<?E]"
      if "find_in_word m n j = None"
    proof -
      have "scan_zone m n start stop ?e =
        (if ?e < stop then List.find (run_free m n) [?e..<?E] else None)"
        using 1(1) [OF True that] 1(2) unfolding step by simp
      then show ?thesis using empty by (metis find.simps(1))
    qed
    moreover have "scan_zone m n start stop j =
        (case find_in_word m n j of Some p \<Rightarrow> Some p | None \<Rightarrow> scan_zone m n start stop ?e)"
      by (subst scan_zone.simps) (simp only: True if_True step)
    ultimately show ?thesis
      unfolding split find_append find_in_word_eq [OF 1(2)]
      using True by (auto split: option.splits)
  qed (simp add: scan_zone.simps)
qed

section \<open>What marking a run changes\<close>

lemma take_frame_sel [simp]:
  "bits_map (take_frame z a i s) = bm_set (bits_map s) i"
  "zone_struct (pages_struct (take_frame z a i s) k) = zone_struct (pages_struct s k)"
  "phy_address (pages_struct (take_frame z a i s) k) = phy_address (pages_struct s k)"
  "pages_size (take_frame z a i s) = pages_size s"
  "zones_size (take_frame z a i s) = zones_size s"
  "ZONE_DMA_INDEX (take_frame z a i s) = ZONE_DMA_INDEX s"
  "ZONE_NORMAL_INDEX (take_frame z a i s) = ZONE_NORMAL_INDEX s"
  "ZONE_UNMAPPED_INDEX (take_frame z a i s) = ZONE_UNMAPPED_INDEX s"
  by (simp_all add: take_frame_def upd_page_def upd_zone_def)

lemma take_frame_page:
  "pages_struct (take_frame z a i s) k =
     (if k = i then (pages_struct s k)\<lparr>pg_attribute := a\<rparr> else pages_struct s k)"
  by (simp add: take_frame_def upd_page_def upd_zone_def)

lemma take_frame_zone:
  "zones_struct (take_frame z a i s) = (zones_struct s)(z := (zones_struct s z)
     \<lparr>page_using_count := page_using_count (zones_struct s z) + 1,
      page_free_count := page_free_count (zones_struct s z) - 1\<rparr>)"
  by (simp add: take_frame_def upd_page_def upd_zone_def)

lemma take_run_0 [simp]: "take_run z a page 0 s = s"
  by (simp add: take_run_def)

lemma take_run_Suc: "take_run z a page (Suc n) s = take_frame z a (page + n) (take_run z a page n s)"
  by (simp add: take_run_def)

lemma take_run_bits:
  "bm_test (bits_map (take_run z a page n s)) i \<longleftrightarrow>
     bm_test (bits_map s) i \<or> (page \<le> i \<and> i < page + n)"
  by (induction n) (auto simp: take_run_Suc bm_simps)

lemma take_run_page:
  "pages_struct (take_run z a page n s) i =
     (if page \<le> i \<and> i < page + n then (pages_struct s i)\<lparr>pg_attribute := a\<rparr> else pages_struct s i)"
  by (induction n) (auto simp: take_run_Suc take_frame_page)

lemma take_run_zone:
  "zones_struct (take_run z a page n s) = (zones_struct s)(z := (zones_struct s z)
     \<lparr>page_using_count := page_using_count (zones_struct s z) + of_nat n,
      page_free_count := page_free_count (zones_struct s z) - of_nat n\<rparr>)"
  by (induction n) (auto simp: take_run_Suc take_frame_zone algebra_simps)

text \<open>What a successful allocation did: some zone of the selection was scanned and marked.\<close>

lemma alloc_zones_Some:
  assumes "alloc_zones number a is s = Some (Some page, s')" "number < 64"
  obtains i where "i \<in> set is" "0 \<le> i"
    "number \<le> page_free_count (zones_struct s (nat i))"
    "pages_group (zones_struct s (nat i)) < zone_stop (zones_struct s (nat i))"
    "List.find (run_free (bits_map s) (unat number))
       [pages_group (zones_struct s (nat i))..<(zone_stop (zones_struct s (nat i)) + 63) div 64 * 64]
     = Some page"
    "s' = take_run (nat i) a page (unat number) s"
proof -
  have n: "unat number < 64" using assms(2) by (simp add: word_less_nat_alt)
  have "\<exists>i \<in> set is. 0 \<le> i \<and> number \<le> page_free_count (zones_struct s (nat i)) \<and>
    scan_zone (bits_map s) (unat number) (pages_group (zones_struct s (nat i)))
      (zone_stop (zones_struct s (nat i))) (pages_group (zones_struct s (nat i))) = Some page \<and>
    s' = take_run (nat i) a page (unat number) s"
    using assms(1)
    by (induction "is") (auto simp: Let_def not_less split: if_splits option.splits)
  then show ?thesis using that n by (auto simp: scan_zone_eq split: if_splits)
qed

lemma alloc_pages_Some:
  assumes "alloc_pages sel number s = Some (Some page, s')"
  obtains zs ze a where "number \<le> 64" "alloc_zone_bounds sel s = Some (zs, ze, a)"
    "alloc_zones number a [zs..ze] s = Some (Some page, s')"
  using assms by (auto simp: alloc_pages_def not_less split: if_splits option.splits)

text \<open>
  C3. A run that \<open>alloc_pages\<close> returns was free before the call; after it exactly those frames
  are newly marked in use, their descriptors differ only in the attribute, and the frames
  outside the run are untouched.
\<close>

theorem alloc_pages_run:
  assumes "alloc_pages sel number s = Some (Some page, s')" "number < 64"
  shows "run_free (bits_map s) (unat number) page
    \<and> (\<forall>i. bm_test (bits_map s') i =
          (bm_test (bits_map s) i \<or> (page \<le> i \<and> i < page + unat number)))
    \<and> (\<forall>i. zone_struct (pages_struct s' i) = zone_struct (pages_struct s i)
          \<and> phy_address (pages_struct s' i) = phy_address (pages_struct s i))
    \<and> (\<forall>i. i < page \<or> page + unat number \<le> i \<longrightarrow> pages_struct s' i = pages_struct s i)"
proof -
  from assms(1) obtain zs ze a where "alloc_zones number a [zs..ze] s = Some (Some page, s')"
    by (rule alloc_pages_Some)
  from this assms(2) show ?thesis
    by (rule alloc_zones_Some) (auto simp: take_run_bits take_run_page dest: find_upt_Some(3))
qed

section \<open>The invariant\<close>

definition zone_hi :: "zone \<Rightarrow> nat" where
  "zone_hi z = pages_group z + unat (z_pages_length z)"

text \<open>
  A zone describes the frames from \<open>pages_group\<close> on: they belong to it, their addresses follow
  one another in steps of 2 MiB, and its counters agree with the bit array.
\<close>

definition zone_ok :: "pmm \<Rightarrow> nat \<Rightarrow> bool" where
  "zone_ok s zi = (let z = zones_struct s zi in
     zone_hi z \<le> unat (pages_size s) \<and> zone_stop z = zone_hi z
     \<and> unat (page_free_count z) = count_clear (bm_test (bits_map s)) (pages_group z) (zone_hi z)
     \<and> unat (page_using_count z) + unat (page_free_count z) = unat (z_pages_length z)
     \<and> list_all (\<lambda>i. zone_struct (pages_struct s i) = Some zi
          \<and> phy_address (pages_struct s i)
              = zone_start_address z + of_nat (i - pages_group z) * PAGE_2M_SIZE)
        [pages_group z..<zone_hi z])"

text \<open>A descriptor is a hole, whose bit is set for ever, or a frame of a zone.\<close>

definition page_ok :: "pmm \<Rightarrow> nat \<Rightarrow> bool" where
  "page_ok s i = (case zone_struct (pages_struct s i) of
     None \<Rightarrow> bm_test (bits_map s) i
   | Some zi \<Rightarrow> zi < unat (zones_size s) \<and> pages_group (zones_struct s zi) \<le> i
       \<and> i < zone_hi (zones_struct s zi))"

definition pmm_wf :: "pmm \<Rightarrow> bool" where
  "pmm_wf s = (0 < unat (zones_size s) \<and> unat (zones_size s) \<le> 10
     \<and> list_all (zone_ok s) [0..<unat (zones_size s)]
     \<and> list_all (page_ok s) [0..<unat (pages_size s)]
     \<and> unat (ZONE_DMA_INDEX s) < unat (zones_size s)
     \<and> unat (ZONE_NORMAL_INDEX s) < unat (zones_size s)
     \<and> unat (ZONE_UNMAPPED_INDEX s) < unat (zones_size s))"

definition zone_geom :: "zone \<Rightarrow> nat \<times> u64 \<times> u64 \<times> u64" where
  "zone_geom z = (pages_group z, z_pages_length z, zone_start_address z, zone_end_address z)"

definition page_geom :: "page \<Rightarrow> nat option \<times> u64" where
  "page_geom p = (zone_struct p, phy_address p)"

text \<open>The two states have the same zones and frames: they differ in counters, bits and attributes.\<close>

definition same_geom :: "pmm \<Rightarrow> pmm \<Rightarrow> bool" where
  "same_geom s s' \<longleftrightarrow> (\<forall>z. zone_geom (zones_struct s' z) = zone_geom (zones_struct s z))
     \<and> (\<forall>i. page_geom (pages_struct s' i) = page_geom (pages_struct s i))
     \<and> pages_size s' = pages_size s \<and> zones_size s' = zones_size s
     \<and> ZONE_DMA_INDEX s' = ZONE_DMA_INDEX s \<and> ZONE_NORMAL_INDEX s' = ZONE_NORMAL_INDEX s
     \<and> ZONE_UNMAPPED_INDEX s' = ZONE_UNMAPPED_INDEX s"

lemma same_geom_refl [simp]: "same_geom s s"
  by (simp add: same_geom_def)

lemma same_geom_trans [trans]: "same_geom s t \<Longrightarrow> same_geom t u \<Longrightarrow> same_geom s u"
  by (simp add: same_geom_def)

lemma same_geomD:
  assumes "same_geom s s'"
  shows "pages_group (zones_struct s' z) = pages_group (zones_struct s z)"
    "z_pages_length (zones_struct s' z) = z_pages_length (zones_struct s z)"
    "zone_start_address (zones_struct s' z) = zone_start_address (zones_struct s z)"
    "zone_hi (zones_struct s' z) = zone_hi (zones_struct s z)"
    "zone_stop (zones_struct s' z) = zone_stop (zones_struct s z)"
    "zone_struct (pages_struct s' i) = zone_struct (pages_struct s i)"
    "phy_address (pages_struct s' i) = phy_address (pages_struct s i)"
    "pages_size s' = pages_size s" "zones_size s' = zones_size s"
    "ZONE_DMA_INDEX s' = ZONE_DMA_INDEX s" "ZONE_NORMAL_INDEX s' = ZONE_NORMAL_INDEX s"
    "ZONE_UNMAPPED_INDEX s' = ZONE_UNMAPPED_INDEX s"
  using assms unfolding same_geom_def zone_geom_def page_geom_def zone_hi_def zone_stop_def
  by simp_all

text \<open>Frame \<open>i\<close> lies \<open>i\<close> frames above \<open>lowest\<close>, and the numbering does not wrap around.\<close>

definition linear_frames :: "u64 \<Rightarrow> pmm \<Rightarrow> bool" where
  "linear_frames lowest s = (unat lowest + unat (pages_size s) * 2 ^ 21 < 2 ^ 64
     \<and> list_all (\<lambda>i. zone_struct (pages_struct s i) = None
          \<or> phy_address (pages_struct s i) = lowest + of_nat i * PAGE_2M_SIZE)
        [0..<unat (pages_size s)])"

lemma linear_frames_geom: "same_geom s s' \<Longrightarrow> linear_frames lowest s' = linear_frames lowest s"
  by (simp add: linear_frames_def same_geomD)

lemma linear_frames_unat:
  assumes "linear_frames lowest s" "i < unat (pages_size s)" "zone_struct (pages_struct s i) \<noteq> None"
  shows "unat (phy_address (pages_struct s i)) = unat lowest + i * 2 ^ 21"
    "unat lowest + i * 2 ^ 21 + 2 ^ 21 < 2 ^ 64"
proof -
  have pa: "phy_address (pages_struct s i) = lowest + of_nat i * PAGE_2M_SIZE"
    and top: "unat lowest + unat (pages_size s) * 2 ^ 21 < 2 ^ 64"
    using assms by (auto simp: linear_frames_def list_all_iff dest!: bspec [where x = i])
  have "Suc i * 2 ^ 21 \<le> unat (pages_size s) * 2 ^ 21" using assms(2) by (intro mult_le_mono1) simp
  with top show bound: "unat lowest + i * 2 ^ 21 + 2 ^ 21 < 2 ^ 64" by simp
  have "unat (of_nat i :: u64) = i" using bound by (simp add: unsigned_of_nat take_bit_nat_eq_self)
  with bound have "unat (of_nat i * PAGE_2M_SIZE :: u64) = i * 2 ^ 21"
    by (simp add: PAGE_2M_SIZE_def unat_word_ariths)
  with bound show "unat (phy_address (pages_struct s i)) = unat lowest + i * 2 ^ 21"
    unfolding pa by (subst unat_add_small) simp_all
qed

lemma pmm_wf_page:
  assumes "pmm_wf s" "i < unat (pages_size s)" "zone_struct (pages_struct s i) = Some z"
  shows "z < unat (zones_size s)" "pages_group (zones_struct s z) \<le> i" "i < zone_hi (zones_struct s z)"
  using assms by (auto simp: pmm_wf_def page_ok_def list_all_iff dest!: bspec [where x = i])

lemma pmm_wf_zone:
  assumes "pmm_wf s" "z < unat (zones_size s)"
  shows "zone_hi (zones_struct s z) \<le> unat (pages_size s)"
    "zone_stop (zones_struct s z) = zone_hi (zones_struct s z)"
    "unat (page_free_count (zones_struct s z)) =
       count_clear (bm_test (bits_map s)) (pages_group (zones_struct s z)) (zone_hi (zones_struct s z))"
    "unat (page_using_count (zones_struct s z)) + unat (page_free_count (zones_struct s z))
       = unat (z_pages_length (zones_struct s z))"
    "pages_group (zones_struct s z) \<le> i \<Longrightarrow> i < zone_hi (zones_struct s z) \<Longrightarrow>
       zone_struct (pages_struct s i) = Some z"
  using assms by (auto simp: pmm_wf_def zone_ok_def Let_def list_all_iff dest!: bspec [where x = z])

text \<open>
  The invariant is kept when the bit of one frame flips and the counters of its zone follow,
  whatever happens to attributes, reference counts and link counts.
\<close>

lemma pmm_wf_flip:
  assumes wf: "pmm_wf s" and geom: "same_geom s s'"
    and i: "i < unat (pages_size s)" and z: "zone_struct (pages_struct s i) = Some z"
    and bits: "bm_test (bits_map s') = (bm_test (bits_map s))(i := b)"
    and others: "\<And>y. y \<noteq> z \<Longrightarrow>
        page_free_count (zones_struct s' y) = page_free_count (zones_struct s y)
        \<and> page_using_count (zones_struct s' y) = page_using_count (zones_struct s y)"
    and free: "unat (page_free_count (zones_struct s' z)) = count_clear (bm_test (bits_map s'))
        (pages_group (zones_struct s z)) (zone_hi (zones_struct s z))"
    and using_free: "unat (page_using_count (zones_struct s' z)) + unat (page_free_count (zones_struct s' z))
        = unat (z_pages_length (zones_struct s z))"
  shows "pmm_wf s'"
proof -
  note D = same_geomD [OF geom]
  have "zone_ok s' y" if y: "y < unat (zones_size s)" for y
  proof (cases "y = z")
    case True
    with wf y free using_free show ?thesis
      by (auto simp: pmm_wf_def zone_ok_def Let_def list_all_iff D dest!: bspec [where x = y])
  next
    case False
    have "\<not> (pages_group (zones_struct s y) \<le> i \<and> i < zone_hi (zones_struct s y))"
      using pmm_wf_zone(5) [OF wf y, of i] z False by auto
    then have "count_clear (bm_test (bits_map s')) (pages_group (zones_struct s y)) (zone_hi (zones_struct s y))
      = count_clear (bm_test (bits_map s)) (pages_group (zones_struct s y)) (zone_hi (zones_struct s y))"
      unfolding bits by (rule count_clear_outside)
    with wf y others [OF False] show ?thesis
      by (auto simp: pmm_wf_def zone_ok_def Let_def list_all_iff D dest!: bspec [where x = y])
  qed
  moreover have "page_ok s' k" if "k < unat (pages_size s)" for k
    using wf that z by (cases "k = i") (auto simp: pmm_wf_def page_ok_def list_all_iff D bits
      split: option.splits dest!: bspec [where x = k])
  ultimately show ?thesis using wf by (auto simp: pmm_wf_def list_all_iff D)
qed

lemma same_geom_take_frame: "same_geom s (take_frame z a i s)"
  by (simp add: same_geom_def zone_geom_def page_geom_def take_frame_zone)

lemma counters_take:
  fixes f u :: u64
  assumes "unat f = Suc c" "unat u + unat f = unat (l :: u64)"
  shows "unat (f - 1) = c" "unat (u + 1) + unat (f - 1) = unat l"
proof -
  from assms(1) have "f \<noteq> 0" by auto
  then show f: "unat (f - 1) = c" using assms(1) by (simp add: unat_minus_1)
  from assms have "unat (u + 1) = unat u + 1"
    using unat_less_2p64 [of l] by (intro unat_plus_one [of u "2 ^ 64 - 1"]) simp_all
  with f assms show "unat (u + 1) + unat (f - 1) = unat l" by simp
qed

lemma counters_give:
  fixes f u :: u64
  assumes "unat u + unat f = unat (l :: u64)" "unat f < unat l"
  shows "unat (f + 1) = Suc (unat f)" "unat (u - 1) + unat (f + 1) = unat l"
proof -
  have "unat f + 1 < 2 ^ 64" using assms(2) unat_less_2p64 [of l] by linarith
  then show f: "unat (f + 1) = Suc (unat f)" by (simp add: unat_add_small)
  from assms have "u \<noteq> 0" by auto
  then have "unat (u - 1) = unat u - 1" "0 < unat u" by (simp_all add: unat_minus_1 unat_gt_0)
  with f assms show "unat (u - 1) + unat (f + 1) = unat l" by simp
qed

text \<open>Marking a free frame of zone \<open>z\<close>, in the form the three callers need.\<close>

lemma pmm_wf_mark:
  assumes wf: "pmm_wf s" and i: "i < unat (pages_size s)" and z: "zone_struct (pages_struct s i) = Some z"
    and clear: "\<not> bm_test (bits_map s) i" and geom: "same_geom s s'"
    and bits: "bits_map s' = bm_set (bits_map s) i"
    and counters: "\<And>y. page_free_count (zones_struct s' y) =
        (if y = z then page_free_count (zones_struct s y) - 1 else page_free_count (zones_struct s y))
      \<and> page_using_count (zones_struct s' y) =
        (if y = z then page_using_count (zones_struct s y) + 1 else page_using_count (zones_struct s y))"
  shows "pmm_wf s'"
proof -
  note pz = pmm_wf_page [OF wf i z] and zz = pmm_wf_zone [OF wf pmm_wf_page(1) [OF wf i z]]
  have "unat (page_free_count (zones_struct s z)) = Suc (count_clear (bm_test (bm_set (bits_map s) i))
      (pages_group (zones_struct s z)) (zone_hi (zones_struct s z)))"
    using bm.count_mark [OF pz(2,3) clear] zz(3) by simp
  note c = counters_take [OF this zz(4)]
  show ?thesis
    by (rule pmm_wf_flip [OF wf geom i z]) (use c counters bits in \<open>simp_all add: bm_test_set\<close>)
qed

lemma pmm_wf_take_frame:
  assumes "pmm_wf s" "i < unat (pages_size s)" "zone_struct (pages_struct s i) = Some z"
    "\<not> bm_test (bits_map s) i"
  shows "pmm_wf (take_frame z a i s)"
  using assms by (rule pmm_wf_mark) (simp_all add: same_geom_take_frame take_frame_zone)

lemma free_frame_Some:
  assumes "zone_struct (pages_struct s i) = Some z"
  obtains s' where "free_frame i s = Some s'" "same_geom s s'"
    "bits_map s' = bm_clear (bits_map s) i"
    "\<And>y. page_free_count (zones_struct s' y) =
        (if y = z then page_free_count (zones_struct s y) + 1 else page_free_count (zones_struct s y))
      \<and> page_using_count (zones_struct s' y) =
        (if y = z then page_using_count (zones_struct s y) - 1 else page_using_count (zones_struct s y))"
  using assms that
  by (simp add: free_frame_def same_geom_def zone_geom_def page_geom_def upd_page_def upd_zone_def)

lemma pmm_wf_free_frame:
  assumes wf: "pmm_wf s" and i: "i < unat (pages_size s)" and z: "zone_struct (pages_struct s i) = Some z"
    and set: "bm_test (bits_map s) i"
  obtains s' where "free_frame i s = Some s'" "pmm_wf s'" "same_geom s s'"
    "bits_map s' = bm_clear (bits_map s) i"
proof -
  let ?lo = "pages_group (zones_struct s z)" and ?hi = "zone_hi (zones_struct s z)"
  from z obtain s' where s': "free_frame i s = Some s'" "same_geom s s'" "bits_map s' = bm_clear (bits_map s) i"
    "\<And>y. page_free_count (zones_struct s' y) =
        (if y = z then page_free_count (zones_struct s y) + 1 else page_free_count (zones_struct s y))
      \<and> page_using_count (zones_struct s' y) =
        (if y = z then page_using_count (zones_struct s y) - 1 else page_using_count (zones_struct s y))"
    by (rule free_frame_Some) blast
  note pz = pmm_wf_page [OF wf i z] and zz = pmm_wf_zone [OF wf pmm_wf_page(1) [OF wf i z]]
  have cnt: "count_clear (bm_test (bm_clear (bits_map s) i)) ?lo ?hi = Suc (unat (page_free_count (zones_struct s z)))"
    using bm.count_unmark [OF pz(2,3) set] zz(3) by simp
  have "unat (page_free_count (zones_struct s z)) < unat (z_pages_length (zones_struct s z))"
    using count_clear_le [of "bm_test (bm_clear (bits_map s) i)" ?lo ?hi] cnt by (simp add: zone_hi_def)
  note c = counters_give [OF zz(4) this]
  have "pmm_wf s'"
    by (rule pmm_wf_flip [OF wf s'(2) i z]) (use c cnt s'(3,4) in \<open>simp_all add: bm_test_clear\<close>)
  with s' that show ?thesis by blast
qed

section \<open>Allocating one frame\<close>

lemma run_free_1 [simp]: "run_free m 1 p \<longleftrightarrow> \<not> bm_test m p" "run_free m (Suc 0) p \<longleftrightarrow> \<not> bm_test m p"
  by (simp_all add: run_free_iff)

lemma scan_zone_1:
  assumes "count_clear (bm_test m) lo hi \<noteq> 0"
  obtains p where "scan_zone m 1 lo hi lo = Some p" "lo \<le> p" "p < hi" "\<not> bm_test m p"
proof -
  let ?E = "(hi + 63) div 64 * 64"
  from assms obtain q where q: "lo \<le> q" "q < hi" "\<not> bm_test m q"
    using count_clear_pos [of "bm_test m" lo hi] by auto
  have "hi \<le> ?E" by presburger
  with q have "\<exists>x \<in> set [lo..<?E]. run_free m 1 x" by force
  then obtain p where p: "List.find (run_free m 1) [lo..<?E] = Some p"
    by (metis find_None_iff2 not_None_eq)
  have "p \<le> q" using find_upt_Some(4) [OF p, of q] q by (meson not_le run_free_1(1))
  then show ?thesis
    using that [of p] p find_upt_Some [OF p] q by (simp add: scan_zone_eq)
qed

lemma alloc_zones_1:
  assumes wf: "pmm_wf s" and "\<And>i. i \<in> set is \<Longrightarrow> 0 \<le> i \<and> nat i < unat (zones_size s)"
  shows "(\<exists>i p. i \<in> set is \<and> zone_struct (pages_struct s p) = Some (nat i) \<and> p < unat (pages_size s)
            \<and> \<not> bm_test (bits_map s) p
            \<and> alloc_zones 1 a is s = Some (Some p, take_frame (nat i) a p s))
       \<or> (alloc_zones 1 a is s = Some (None, s)
            \<and> (\<forall>i \<in> set is. page_free_count (zones_struct s (nat i)) = 0))"
  using assms(2)
proof (induction "is")
  case (Cons i "is")
  let ?z = "zones_struct s (nat i)"
  from Cons.prems [of i] have i: "0 \<le> i" "nat i < unat (zones_size s)" by simp_all
  note zz = pmm_wf_zone [OF wf i(2)]
  show ?case
  proof (cases "page_free_count ?z = 0")
    case True
    with i have "alloc_zones 1 a (i # is) s = alloc_zones 1 a is s" by (simp add: Let_def)
    with True Cons show ?thesis by (simp del: alloc_zones.simps) blast
  next
    case False
    then have "count_clear (bm_test (bits_map s)) (pages_group ?z) (zone_hi ?z) \<noteq> 0"
      using zz(3) by (metis unat_eq_0)
    then obtain p where p: "scan_zone (bits_map s) 1 (pages_group ?z) (zone_hi ?z) (pages_group ?z) = Some p"
      "pages_group ?z \<le> p" "p < zone_hi ?z" "\<not> bm_test (bits_map s) p"
      by (rule scan_zone_1)
    from False have "\<not> page_free_count ?z < 1" by (simp add: word_less_nat_alt unat_eq_0)
    then have "alloc_zones 1 a (i # is) s = Some (Some p, take_frame (nat i) a p s)"
      using i p(1) zz(2) by (simp add: Let_def take_run_def)
    moreover have "zone_struct (pages_struct s p) = Some (nat i)" using p zz(5) by blast
    ultimately show ?thesis using p zz(1) by auto
  qed
qed simp

lemma sint_small: "unat (x :: u32) < 10 \<Longrightarrow> sint x = int (unat x)"
proof -
  assume "unat x < 10"
  then have "int (unat x) < 10" by linarith
  then have "uint x < 10" by simp
  moreover have "- 2147483648 \<le> uint x" by (rule order_trans [of _ 0]) simp_all
  ultimately show ?thesis
    by (subst sint_uint, subst signed_take_bit_int_eq_self) simp_all
qed

lemma alloc_zone_bounds_wf:
  assumes wf: "pmm_wf s" and bounds: "alloc_zone_bounds sel s = Some (zs, ze, a)"
  shows "0 \<le> zs" "ze < int (unat (zones_size s))"
proof -
  let ?n = "unat (zones_size s)"
  from wf have n: "0 < ?n" "?n \<le> 10" and d: "unat (ZONE_DMA_INDEX s) < ?n"
    "unat (ZONE_NORMAL_INDEX s) < ?n" "unat (ZONE_UNMAPPED_INDEX s) < ?n"
    by (auto simp: pmm_wf_def)
  have "zones_size s \<noteq> 0" using n by auto
  then have "unat (zones_size s - 1) = ?n - 1" by (simp add: unat_minus_1)
  moreover from this n have "unat (ucast (zones_size s - 1) :: u32) = unat (zones_size s - 1)"
    by (simp add: unsigned_ucast_eq take_bit_nat_eq_self)
  ultimately have "sint (ucast (zones_size s - 1) :: u32) = int (?n - 1)"
    using n by (subst sint_small) simp_all
  then have last: "sint (ucast (zones_size s - 1) :: u32) < int ?n" using n by linarith
  have i: "sint (ZONE_DMA_INDEX s) = int (unat (ZONE_DMA_INDEX s))"
    "sint (ZONE_NORMAL_INDEX s) = int (unat (ZONE_NORMAL_INDEX s))"
    "sint (ZONE_UNMAPPED_INDEX s) = int (unat (ZONE_UNMAPPED_INDEX s))"
    using d n by (simp_all only: sint_small)
  have "sint (ZONE_DMA_INDEX s) < int ?n" "sint (ZONE_NORMAL_INDEX s) < int ?n"
    using i d by linarith+
  moreover have "0 \<le> sint (ZONE_DMA_INDEX s)" "0 \<le> sint (ZONE_UNMAPPED_INDEX s)"
    using i by linarith+
  ultimately show "0 \<le> zs" "ze < int (unat (zones_size s))"
    using bounds last by (auto simp: alloc_zone_bounds_def split: if_splits)
qed

text \<open>
  C4. In a well-formed allocator a request for one frame always returns, the invariant is
  kept, and the answer is exact: it is NULL only if every zone of the selection is full, and
  otherwise a frame of one of those zones that was free and is now in use, no other frame
  having changed its state.
\<close>

theorem alloc_one_frame:
  assumes wf: "pmm_wf s" and bounds: "alloc_zone_bounds sel s = Some (zs, ze, a)"
  shows "\<exists>r s'. alloc_pages sel 1 s = Some (r, s') \<and> pmm_wf s' \<and>
    (case r of
       None \<Rightarrow> s' = s \<and> list_all (\<lambda>i. page_free_count (zones_struct s (nat i)) = 0) [zs..ze]
     | Some p \<Rightarrow> p < unat (pages_size s)
         \<and> list_ex (\<lambda>i. zone_struct (pages_struct s p) = Some (nat i)) [zs..ze]
         \<and> \<not> bm_test (bits_map s) p \<and> bm_test (bits_map s') = (bm_test (bits_map s))(p := True))"
proof -
  have "0 \<le> i \<and> nat i < unat (zones_size s)" if "i \<in> set [zs..ze]" for i
    using that alloc_zone_bounds_wf [OF wf bounds]
    by (simp only: set_upto atLeastAtMost_iff) linarith
  from alloc_zones_1 [OF wf this, of "[zs..ze]" a] show ?thesis
    using bounds wf
    by (fastforce simp: alloc_pages_def list_all_iff list_ex_iff bm_test_set
      intro: pmm_wf_take_frame)
qed

section \<open>Claiming one frame of an address window\<close>

lemma find_rev_upt_Some:
  assumes "List.find P (rev [0..<n]) = Some i"
  shows "i < n" "P i" "\<And>k. i < k \<Longrightarrow> k < n \<Longrightarrow> \<not> P k"
proof -
  from assms obtain k where k: "k < n" "P (rev [0..<n] ! k)" "i = rev [0..<n] ! k"
    "\<forall>j<k. \<not> P (rev [0..<n] ! j)"
    by (auto simp: find_Some_iff)
  then have i: "i = n - Suc k" by (simp add: rev_nth)
  with k show "i < n" "P i" by auto
  fix l assume "i < l" "l < n"
  then have "n - Suc l < k" "rev [0..<n] ! (n - Suc l) = l" using i k(1) by (auto simp: rev_nth)
  with k(4) show "\<not> P l" by metis
qed

text \<open>
  C5. \<open>pmm_claim_free_frame\<close> returns the lowest (or, with \<open>from_end\<close>, the highest) free represented
  frame whose address lies in the window, never a hole; it returns NULL only if there is none.
  Exactly that frame becomes used and the invariant is kept.
\<close>

theorem claim_free_frame:
  assumes wf: "pmm_wf s" and "start_pa < end_pa"
  shows "case pmm_claim_free_frame start_pa end_pa from_end s of
      (None, s') \<Rightarrow> s' = s \<and> (\<forall>k<unat (pages_size s). \<not> claimable start_pa end_pa s k)
    | (Some i, s') \<Rightarrow> i < unat (pages_size s) \<and> claimable start_pa end_pa s i
        \<and> (\<forall>k<unat (pages_size s). claimable start_pa end_pa s k \<longrightarrow> (if from_end then k \<le> i else i \<le> k))
        \<and> bm_test (bits_map s') = (bm_test (bits_map s))(i := True) \<and> pmm_wf s'"
proof -
  let ?P = "claimable start_pa end_pa s" and ?n = "unat (pages_size s)"
  let ?order = "if from_end then rev [0..<?n] else [0..<?n]"
  have nle: "\<not> end_pa \<le> start_pa" using assms(2) by simp
  show ?thesis
  proof (cases "List.find ?P ?order")
    case None
    then have "\<forall>k<?n. \<not> ?P k" by (cases from_end) (auto simp: find_None_iff)
    with nle None show ?thesis by (simp add: pmm_claim_free_frame_def Let_def)
  next
    case (Some i)
    have i: "i < ?n" "?P i" and extreme: "\<forall>k<?n. ?P k \<longrightarrow> (if from_end then k \<le> i else i \<le> k)"
    proof -
      show "i < ?n" "?P i"
        using Some find_rev_upt_Some(1,2) [of ?P ?n i] find_upt_Some(2,3) [of ?P 0 ?n i]
        by (cases from_end; simp)+
      show "\<forall>k<?n. ?P k \<longrightarrow> (if from_end then k \<le> i else i \<le> k)"
      proof (cases from_end)
        case True
        with Some have "List.find ?P (rev [0..<?n]) = Some i" by simp
        note find_rev_upt_Some(3) [OF this]
        with True show ?thesis by (simp add: not_less [symmetric]) blast
      next
        case False
        with Some have "List.find ?P [0..<?n] = Some i" by simp
        note find_upt_Some(4) [OF this le0]
        with False show ?thesis by (simp add: not_less [symmetric]) blast
      qed
    qed
    from i(2) obtain z where z: "zone_struct (pages_struct s i) = Some z" "\<not> bm_test (bits_map s) i"
      by (auto simp: claimable_def Let_def)
    have "pmm_claim_free_frame start_pa end_pa from_end s = (Some i, take_frame z PG_PTable_Mapped i s)"
      using nle Some z by (simp add: pmm_claim_free_frame_def Let_def)
    with i extreme pmm_wf_take_frame [OF wf i(1) z] show ?thesis by (simp add: bm_test_set)
  qed
qed

section \<open>Releasing a run\<close>

lemma free_run_wf:
  assumes "pmm_wf s" "\<And>k. p \<le> k \<Longrightarrow> k < p + n \<Longrightarrow>
      k < unat (pages_size s) \<and> zone_struct (pages_struct s k) \<noteq> None \<and> bm_test (bits_map s) k"
  shows "\<exists>s'. free_run p n s = Some s' \<and> pmm_wf s' \<and> same_geom s s' \<and>
    (\<forall>k. bm_test (bits_map s') k = (bm_test (bits_map s) k \<and> \<not> (p \<le> k \<and> k < p + n)))"
  using assms
proof (induction n arbitrary: p s)
  case (Suc n)
  from Suc.prems(2) [of p] obtain z where p: "p < unat (pages_size s)"
    "zone_struct (pages_struct s p) = Some z" "bm_test (bits_map s) p" by auto
  from pmm_wf_free_frame [OF Suc.prems(1) p] obtain s1 where s1: "free_frame p s = Some s1" "pmm_wf s1"
    "same_geom s s1" "bits_map s1 = bm_clear (bits_map s) p" by metis
  note D = same_geomD [OF s1(3)]
  have "k < unat (pages_size s1) \<and> zone_struct (pages_struct s1 k) \<noteq> None \<and> bm_test (bits_map s1) k"
    if "Suc p \<le> k" "k < Suc p + n" for k
    using that Suc.prems(2) [of k] by (simp add: D s1(4) bm_simps)
  from Suc.IH [OF s1(2) this] obtain s' where s': "free_run (Suc p) n s1 = Some s'" "pmm_wf s'" "same_geom s1 s'"
    "\<forall>k. bm_test (bits_map s') k = (bm_test (bits_map s1) k \<and> \<not> (Suc p \<le> k \<and> k < Suc p + n))"
    by blast
  have "bm_test (bits_map s') k = (bm_test (bits_map s) k \<and> \<not> (p \<le> k \<and> k < p + Suc n))" for k
    unfolding s'(4) [rule_format] s1(4) bm_test_clear by auto
  with s1 s' show ?case using same_geom_trans by fastforce
qed simp

text \<open>
  C6. Releasing a run of frames that are all represented and in use succeeds, clears exactly
  their bits, and keeps the invariant (so the counters of their zones follow).
\<close>

theorem free_pages_run:
  assumes "pmm_wf s" "0 < n" "n < 64"
    and "\<forall>k. p \<le> k \<and> k < p + n \<longrightarrow>
      k < unat (pages_size s) \<and> zone_struct (pages_struct s k) \<noteq> None \<and> bm_test (bits_map s) k"
  shows "\<exists>s'. free_pages (Some p) (int n) s = Some s' \<and> pmm_wf s' \<and> same_geom s s' \<and>
    (\<forall>k. bm_test (bits_map s') k = (bm_test (bits_map s) k \<and> \<not> (p \<le> k \<and> k < p + n)))"
  using free_run_wf [of s p n] assms by (simp add: free_pages_def)

section \<open>Boot reservations\<close>

text \<open>The frames a range list asks for.\<close>

definition wanted :: "phys_range list \<Rightarrow> pmm \<Rightarrow> nat \<Rightarrow> bool" where
  "wanted ranges s i = (zone_struct (pages_struct s i) \<noteq> None
     \<and> pa_in_ranges (phy_address (pages_struct s i)) ranges)"

lemma wanted_geom: "same_geom s s' \<Longrightarrow> wanted ranges s' = wanted ranges s"
  by (rule ext) (simp add: wanted_def same_geomD)

lemma reserve_frame_skip:
  "\<not> (wanted ranges s i \<and> \<not> bm_test (bits_map s) i) \<Longrightarrow> reserve_frame ranges i s = Some s"
  by (auto simp: reserve_frame_def wanted_def split: option.split)

lemma page_init_Some:
  assumes "zone_struct (pages_struct s i) = Some z"
  obtains s' where "page_init i flags s = Some s'" "same_geom s s'" "bits_map s' = bits_map s"
    "\<And>y. page_free_count (zones_struct s' y) = page_free_count (zones_struct s y)
      \<and> page_using_count (zones_struct s' y) = page_using_count (zones_struct s y)"
proof (cases "reference_count (pages_struct s i) = 0
    \<or> (pg_attribute (pages_struct s i) OR flags) AND PG_Shared \<noteq> 0")
  case True
  with assms show ?thesis
    by (intro that [of "the (page_init i flags s)"]) (simp_all add: page_init_def Let_def upd_page_def upd_zone_def same_geom_def
      zone_geom_def page_geom_def)
next
  case False
  with assms show ?thesis
    by (intro that [of "the (page_init i flags s)"]) (simp_all add: page_init_def Let_def upd_page_def upd_zone_def same_geom_def
      zone_geom_def page_geom_def)
qed

lemma reserve_frame_take:
  assumes wf: "pmm_wf s" and i: "i < unat (pages_size s)"
    and w: "wanted ranges s i" "\<not> bm_test (bits_map s) i"
  obtains s' where "reserve_frame ranges i s = Some s'" "pmm_wf s'" "same_geom s s'"
    "bits_map s' = bm_set (bits_map s) i"
proof -
  from w(1) obtain z where z: "zone_struct (pages_struct s i) = Some z" by (auto simp: wanted_def)
  obtain s1 where s1: "page_init i (PG_PTable_Mapped OR PG_Kernel_Init OR PG_Kernel) s = Some s1"
    "same_geom s s1" "bits_map s1 = bits_map s"
    "\<And>y. page_free_count (zones_struct s1 y) = page_free_count (zones_struct s y)
      \<and> page_using_count (zones_struct s1 y) = page_using_count (zones_struct s y)"
    using page_init_Some [OF z] by metis
  define s' where "s' = upd_zone z (\<lambda>z. z\<lparr>page_using_count := page_using_count z + 1,
    page_free_count := page_free_count z - 1\<rparr>) (s1\<lparr>bits_map := bm_set (bits_map s1) i\<rparr>)"
  have "reserve_frame ranges i s = Some s'"
    using w z s1(1) by (simp add: reserve_frame_def wanted_def s'_def)
  moreover have geom: "same_geom s s'"
    using s1(2) unfolding same_geom_def s'_def upd_zone_def zone_geom_def by simp
  moreover have bits: "bits_map s' = bm_set (bits_map s) i"
    by (simp add: s'_def upd_zone_def s1(3))
  moreover have "pmm_wf s'"
    by (rule pmm_wf_mark [OF wf i z w(2) geom bits]) (simp add: s'_def upd_zone_def s1(4))
  ultimately show ?thesis using that by blast
qed

lemma reserve_walk_wf:
  assumes "pmm_wf s" "\<And>i. i \<in> set is \<Longrightarrow> i < unat (pages_size s)"
  shows "\<exists>s'. reserve_walk ranges is s = Some s' \<and> pmm_wf s' \<and> same_geom s s' \<and>
    (\<forall>k. bm_test (bits_map s') k = (bm_test (bits_map s) k \<or> (k \<in> set is \<and> wanted ranges s k)))"
  using assms
proof (induction "is" arbitrary: s)
  case (Cons i "is")
  have "\<exists>s1. reserve_frame ranges i s = Some s1 \<and> pmm_wf s1 \<and> same_geom s s1
    \<and> (\<forall>k. bm_test (bits_map s1) k = (bm_test (bits_map s) k \<or> (k = i \<and> wanted ranges s k)))"
  proof (cases "wanted ranges s i \<and> \<not> bm_test (bits_map s) i")
    case True
    with Cons.prems obtain s1 where "reserve_frame ranges i s = Some s1" "pmm_wf s1" "same_geom s s1"
      "bits_map s1 = bm_set (bits_map s) i" by (metis list.set_intros(1) reserve_frame_take)
    with True show ?thesis by (auto simp: bm_test_set)
  next
    case False
    with Cons.prems show ?thesis by (auto simp: reserve_frame_skip)
  qed
  then obtain s1 where s1: "reserve_frame ranges i s = Some s1" "pmm_wf s1" "same_geom s s1"
    "\<And>k. bm_test (bits_map s1) k = (bm_test (bits_map s) k \<or> (k = i \<and> wanted ranges s k))" by blast
  have "i \<in> set is \<Longrightarrow> i < unat (pages_size s1)" for i
    using Cons.prems(2) s1(3) by (simp add: same_geomD)
  from Cons.IH [OF s1(2) this] obtain s' where s': "reserve_walk ranges is s1 = Some s'" "pmm_wf s'"
    "same_geom s1 s'" "\<And>k. bm_test (bits_map s') k =
      (bm_test (bits_map s1) k \<or> (k \<in> set is \<and> wanted ranges s1 k))" by blast
  then have "bm_test (bits_map s') k = (bm_test (bits_map s) k \<or> (k \<in> set (i # is) \<and> wanted ranges s k))" for k
    using s1(4) wanted_geom [OF s1(3)] by auto
  with s1 s' show ?case using same_geom_trans by fastforce
qed simp

lemma reserve_walk_idem:
  "(\<And>k. k \<in> set is \<Longrightarrow> wanted ranges s k \<Longrightarrow> bm_test (bits_map s) k) \<Longrightarrow>
     reserve_walk ranges is s = Some s"
  by (induction "is") (auto simp: reserve_frame_skip)

text \<open>
  C7. Reserving a list of well-shaped boot ranges succeeds, marks exactly the represented
  frames whose address lies in a range (holes and other frames keep their state), keeps the
  invariant, and is idempotent: a second call with the same list changes nothing at all.
\<close>

theorem reserve_boot_ranges:
  assumes wf: "pmm_wf s" and ok: "list_all range_ok ranges"
  shows "\<exists>s'. pmm_reserve_boot_ranges ranges s = Some (Inr (), s') \<and> pmm_wf s'
    \<and> (\<forall>k<unat (pages_size s).
          bm_test (bits_map s') k = (bm_test (bits_map s) k \<or> wanted ranges s k))
    \<and> pmm_reserve_boot_ranges ranges s' = Some (Inr (), s')"
proof (cases "ranges = []")
  case True
  with wf show ?thesis by (simp add: pmm_reserve_boot_ranges_def wanted_def pa_in_ranges_def)
next
  case False
  from reserve_walk_wf [OF wf, of "[0..<unat (pages_size s)]" ranges]
  obtain s' where s': "reserve_walk ranges [0..<unat (pages_size s)] s = Some s'" "pmm_wf s'" "same_geom s s'"
    "\<forall>k. bm_test (bits_map s') k =
      (bm_test (bits_map s) k \<or> (k \<in> set [0..<unat (pages_size s)] \<and> wanted ranges s k))" by auto
  have "reserve_walk ranges [0..<unat (pages_size s)] s' = Some s'"
    using s'(4) by (intro reserve_walk_idem) (simp add: wanted_geom [OF s'(3)])
  with s' False ok show ?thesis
    by (simp add: pmm_reserve_boot_ranges_def same_geomD [OF s'(3)])
qed

section \<open>The usage snapshot\<close>

text \<open>
  C8. In a well-formed allocator the snapshot is consistent: the managed bytes are the reserved
  bytes plus the free bytes (the equation \<open>T == U + F\<close> of the comment), in 64-bit arithmetic.
\<close>

theorem stats_consistent:
  assumes "pmm_wf s"
  shows "managed_bytes (pmm_get_stats s) = reserved_bytes (pmm_get_stats s) + free_bytes (pmm_get_stats s)"
proof -
  have zone: "z_pages_length (zones_struct s i) = page_using_count (zones_struct s i) + page_free_count (zones_struct s i)"
    if "i < unat (zones_size s)" for i
    using pmm_wf_zone(4) [OF assms that] unat_less_2p64 [of "z_pages_length (zones_struct s i)"]
    by (simp add: word_unat_eq_iff unat_add_small)
  define step where "step = (\<lambda>i (acc :: pmm_stats). let z = zones_struct s i in
      \<lparr>managed_bytes = managed_bytes acc + z_pages_length z * PAGE_2M_SIZE,
       reserved_bytes = reserved_bytes acc + page_using_count z * PAGE_2M_SIZE,
       free_bytes = free_bytes acc + page_free_count z * PAGE_2M_SIZE\<rparr>)"
  have "managed_bytes (fold step is acc) = reserved_bytes (fold step is acc) + free_bytes (fold step is acc)"
    if "managed_bytes acc = reserved_bytes acc + free_bytes acc" "set is \<subseteq> {..<unat (zones_size s)}" for "is" acc
    using that
  proof (induction "is" arbitrary: acc)
    case (Cons i "is")
    then show ?case
      by (simp, intro Cons.IH) (simp_all add: step_def Let_def zone algebra_simps)
  qed simp
  then show ?thesis unfolding pmm_get_stats_def step_def [symmetric] by (auto simp: atLeast0LessThan)
qed

section \<open>The contract of the frame allocator\<close>

text \<open>
  What the clients (the 4 KiB pools and the slab allocator) rely on when they ask for one
  frame: a call always returns, a frame handed out was not in use, only its state changes, and
  a frame in use can be given back.
\<close>

locale frame_allocator =
  fixes inv :: "'s \<Rightarrow> bool"
    and used :: "'s \<Rightarrow> nat \<Rightarrow> bool"
    and managed :: "'s \<Rightarrow> nat \<Rightarrow> bool"
    and alloc :: "'s \<Rightarrow> (nat option \<times> 's) option"
    and give_back :: "nat \<Rightarrow> 's \<Rightarrow> 's option"
  assumes alloc_total: "inv s \<Longrightarrow> \<exists>r s'. alloc s = Some (r, s') \<and> inv s'"
    and alloc_fresh: "inv s \<Longrightarrow> alloc s = Some (Some i, s') \<Longrightarrow> \<not> used s i \<and> managed s i"
    and alloc_used: "inv s \<Longrightarrow> alloc s = Some (Some i, s') \<Longrightarrow> used s' = (used s)(i := True)"
    and alloc_managed: "inv s \<Longrightarrow> alloc s = Some (r, s') \<Longrightarrow> managed s' = managed s"
    and alloc_None: "inv s \<Longrightarrow> alloc s = Some (None, s') \<Longrightarrow> s' = s"
    and give_back_ok: "inv s \<Longrightarrow> used s i \<Longrightarrow> managed s i \<Longrightarrow>
      \<exists>s'. give_back i s = Some s' \<and> inv s' \<and> used s' = (used s)(i := False) \<and> managed s' = managed s"
begin

text \<open>\<open>n\<close> requests in a row: the frames obtained and the final state.\<close>

fun alloc_many :: "nat \<Rightarrow> 's \<Rightarrow> (nat list \<times> 's) option" where
  "alloc_many 0 s = Some ([], s)"
| "alloc_many (Suc n) s = Option.bind (alloc s) (\<lambda>(r, s1). Option.bind (alloc_many n s1)
     (\<lambda>(ps, s2). Some (case r of None \<Rightarrow> ps | Some p \<Rightarrow> p # ps, s2)))"

lemma alloc_many_fresh:
  assumes "inv s"
  shows "\<exists>ps s'. alloc_many n s = Some (ps, s') \<and> inv s' \<and> distinct ps
    \<and> (\<forall>p \<in> set ps. \<not> used s p \<and> managed s p) \<and> managed s' = managed s
    \<and> used s' = (\<lambda>i. used s i \<or> i \<in> set ps)"
  using assms
proof (induction n arbitrary: s)
  case (Suc n)
  from alloc_total [OF Suc.prems] obtain r s1 where s1: "alloc s = Some (r, s1)" "inv s1" by blast
  from Suc.IH [OF s1(2)] obtain ps s2 where s2: "alloc_many n s1 = Some (ps, s2)" "inv s2" "distinct ps"
    "\<forall>p \<in> set ps. \<not> used s1 p \<and> managed s1 p" "managed s2 = managed s1"
    "used s2 = (\<lambda>i. used s1 i \<or> i \<in> set ps)"
    by blast
  show ?case
  proof (cases r)
    case None
    with alloc_None [OF Suc.prems] s1(1) have "s1 = s" by simp
    with None s1 s2 show ?thesis by simp
  next
    case (Some p)
    note f = alloc_fresh [OF Suc.prems s1(1) [unfolded Some]] alloc_used [OF Suc.prems s1(1) [unfolded Some]]
      alloc_managed [OF Suc.prems s1(1)]
    from s2(4) f have "p \<notin> set ps" "\<forall>q \<in> set ps. \<not> used s q" by (auto split: if_splits)
    with Some s1 s2 f show ?thesis by (auto simp: fun_eq_iff)
  qed
qed simp

lemma alloc_give_back:
  assumes "inv s" "alloc s = Some (Some i, s1)"
  shows "\<exists>s2. give_back i s1 = Some s2 \<and> inv s2 \<and> used s2 = used s"
proof -
  note f = alloc_fresh [OF assms] alloc_used [OF assms] alloc_managed [OF assms]
  from alloc_total [OF assms(1)] assms(2) have "inv s1" by auto
  from give_back_ok [OF this, of i] f show ?thesis by (auto simp: fun_upd_idem)
qed

end

text \<open>The instance: \<open>alloc_pages(ZONE_NORMAL, 1, 0)\<close> and \<open>free_pages(page, 1)\<close>.\<close>

lemma alloc_normal:
  assumes wf: "pmm_wf s"
  shows "\<exists>r s'. alloc_pages ZONE_NORMAL 1 s = Some (r, s') \<and> pmm_wf s' \<and> same_geom s s' \<and>
    (case r of None \<Rightarrow> s' = s
     | Some p \<Rightarrow> p < unat (pages_size s) \<and> zone_struct (pages_struct s p) \<noteq> None
         \<and> \<not> bm_test (bits_map s) p \<and> bm_test (bits_map s') = (bm_test (bits_map s))(p := True))"
proof -
  obtain zs ze a where b: "alloc_zone_bounds ZONE_NORMAL s = Some (zs, ze, a)"
    by (simp add: alloc_zone_bounds_def pmm_consts)
  have "0 \<le> i \<and> nat i < unat (zones_size s)" if "i \<in> set [zs..ze]" for i
    using that alloc_zone_bounds_wf [OF wf b] by (simp only: set_upto atLeastAtMost_iff) linarith
  from alloc_zones_1 [OF wf this, of "[zs..ze]" a] show ?thesis
    using b wf by (fastforce simp: alloc_pages_def bm_test_set same_geom_take_frame
      intro: pmm_wf_take_frame)
qed

interpretation frames: frame_allocator pmm_wf "\<lambda>s. bm_test (bits_map s)"
  "\<lambda>s i. i < unat (pages_size s) \<and> zone_struct (pages_struct s i) \<noteq> None"
  "alloc_pages ZONE_NORMAL 1" "\<lambda>i. free_pages (Some i) 1"
proof
  show "\<exists>r s'. alloc_pages ZONE_NORMAL 1 s = Some (r, s') \<and> pmm_wf s'" if "pmm_wf s" for s
    using alloc_normal [OF that] by blast
  show "\<exists>s'. free_pages (Some i) 1 s = Some s' \<and> pmm_wf s' \<and> bm_test (bits_map s') = (bm_test (bits_map s))(i := False)
    \<and> (\<lambda>i. i < unat (pages_size s') \<and> zone_struct (pages_struct s' i) \<noteq> None)
      = (\<lambda>i. i < unat (pages_size s) \<and> zone_struct (pages_struct s i) \<noteq> None)"
    if "pmm_wf s" "bm_test (bits_map s) i" "i < unat (pages_size s) \<and> zone_struct (pages_struct s i) \<noteq> None" for s i
  proof -
    from that(3) obtain z where "i < unat (pages_size s)" "zone_struct (pages_struct s i) = Some z" by auto
    from pmm_wf_free_frame [OF that(1) this that(2)] obtain s' where "free_frame i s = Some s'" "pmm_wf s'"
      "same_geom s s'" "bits_map s' = bm_clear (bits_map s) i" by metis
    then show ?thesis by (simp add: free_pages_def same_geomD bm_test_clear)
  qed
qed (use alloc_normal in \<open>fastforce simp: fun_eq_iff same_geomD\<close>)+

section \<open>A concrete machine\<close>

text \<open>
  A machine with two zones and a hole: frames 0 to 3 from 2 MiB on and frames 5 to 7 from
  12 MiB on. \<open>w\<close> is the first word of the bit array, \<open>f\<close> the free count of zone 0; zone 1 is
  free.
\<close>

definition demo_pmm :: "u64 \<Rightarrow> u64 \<Rightarrow> pmm" where
  "demo_pmm w f = \<lparr>bits_map = (\<lambda>_. - 1)(0 := w), bits_size = 8, bits_length = 8,
    pages_struct = (\<lambda>i. \<lparr>zone_struct = (if i < 4 then Some 0 else if 5 \<le> i \<and> i < 8 then Some 1 else None),
      phy_address = (if i < 4 \<or> 5 \<le> i \<and> i < 8 then 0x200000 + of_nat i * 0x200000 else 0),
      pg_attribute = 0, reference_count = 0, age = 0\<rparr>),
    pages_size = 8, pages_length = 320,
    zones_struct = (\<lambda>z. if z = 0
      then \<lparr>pages_group = 0, z_pages_length = 4, zone_start_address = 0x200000,
        zone_end_address = 0xA00000, zone_length = 0x800000, z_attribute = 0,
        page_using_count = 4 - f, page_free_count = f, total_pages_link = 0\<rparr>
      else \<lparr>pages_group = 5, z_pages_length = 3, zone_start_address = 0xC00000,
        zone_end_address = 0x1200000, zone_length = 0x600000, z_attribute = 0,
        page_using_count = 0, page_free_count = 3, total_pages_link = 0\<rparr>),
    zones_size = 2, zones_length = 5120, start_brk = 0, end_of_struct = 0,
    ZONE_DMA_INDEX = 0, ZONE_NORMAL_INDEX = 1, ZONE_UNMAPPED_INDEX = 0\<rparr>"

lemma demo_pmm_wf: "pmm_wf (demo_pmm (- 0x100 + 0x11) 3)"
  by code_simp

theorem alloc_pages_run_witness:
  "\<exists>s'. alloc_pages ZONE_DMA 2 (demo_pmm (- 0x100 + 0x11) 3) = Some (Some 1, s')
     \<and> run_free (bits_map (demo_pmm (- 0x100 + 0x11) 3)) 2 1
     \<and> bm_test (bits_map s') 1 \<and> bm_test (bits_map s') 2 \<and> \<not> bm_test (bits_map s') 3"
proof -
  let ?s = "demo_pmm (- 0x100 + 0x11) 3"
  have "map_option fst (alloc_pages ZONE_DMA 2 ?s) = Some (Some 1)" by code_simp
  then obtain s' where s': "alloc_pages ZONE_DMA 2 ?s = Some (Some 1, s')" by auto
  have "\<not> bm_test (bits_map ?s) 3" by code_simp
  with s' alloc_pages_run [OF s'] show ?thesis by simp
qed

theorem alloc_one_frame_witness:
  "\<exists>s'. alloc_pages ZONE_NORMAL 1 (demo_pmm (- 0x100 + 0x11) 3) = Some (Some 1, s') \<and> pmm_wf s'"
proof -
  let ?s = "demo_pmm (- 0x100 + 0x11) 3"
  have b: "alloc_zone_bounds ZONE_NORMAL ?s = Some (0, 1, PG_PTable_Mapped)" by code_simp
  have "map_option fst (alloc_pages ZONE_NORMAL 1 ?s) = Some (Some 1)" by code_simp
  with alloc_one_frame [OF demo_pmm_wf b] show ?thesis by auto
qed

theorem claim_free_frame_witness:
  "fst (pmm_claim_free_frame 0x400000 0x1000000 True (demo_pmm (- 0x100 + 0x11) 3)) = Some 6
   \<and> pmm_wf (snd (pmm_claim_free_frame 0x400000 0x1000000 True (demo_pmm (- 0x100 + 0x11) 3)))"
proof -
  have "fst (pmm_claim_free_frame 0x400000 0x1000000 True (demo_pmm (- 0x100 + 0x11) 3)) = Some 6"
    by code_simp
  with claim_free_frame [OF demo_pmm_wf, of "0x400000" "0x1000000" True] show ?thesis
    by (auto split: prod.splits)
qed

theorem free_pages_run_witness:
  "\<exists>s'. free_pages (Some 0) 1 (demo_pmm (- 0x100 + 0x11) 3) = Some s' \<and> pmm_wf s'
     \<and> \<not> bm_test (bits_map s') 0 \<and> bm_test (bits_map s') 4"
proof -
  let ?s = "demo_pmm (- 0x100 + 0x11) 3"
  have "bm_test (bits_map ?s) 0" "0 < unat (pages_size ?s)" "zone_struct (pages_struct ?s 0) \<noteq> None"
    and 4: "bm_test (bits_map ?s) 4"
    by code_simp+
  then have "\<forall>k. 0 \<le> k \<and> k < 0 + 1 \<longrightarrow>
      k < unat (pages_size ?s) \<and> zone_struct (pages_struct ?s k) \<noteq> None \<and> bm_test (bits_map ?s) k"
    by simp
  from free_pages_run [OF demo_pmm_wf _ _ this] 4 show ?thesis by auto
qed

theorem reserve_boot_ranges_witness:
  "\<exists>s'. pmm_reserve_boot_ranges [\<lparr>pr_start = 0, pr_end = 0x600000\<rparr>] (demo_pmm (- 0x100 + 0x11) 3)
       = Some (Inr (), s') \<and> pmm_wf s' \<and> bm_test (bits_map s') 1 \<and> \<not> bm_test (bits_map s') 2"
proof -
  let ?s = "demo_pmm (- 0x100 + 0x11) 3" and ?r = "[\<lparr>pr_start = 0, pr_end = 0x600000\<rparr>]"
  have ok: "list_all range_ok ?r" by code_simp
  have "wanted ?r ?s 1" "\<not> wanted ?r ?s 2" "\<not> bm_test (bits_map ?s) 2" "unat (pages_size ?s) = 8"
    by code_simp+
  with reserve_boot_ranges [OF demo_pmm_wf ok] show ?thesis by auto
qed

theorem stats_consistent_witness:
  "managed_bytes (pmm_get_stats (demo_pmm (- 0x100 + 0x11) 3)) = 7 * 0x200000
   \<and> reserved_bytes (pmm_get_stats (demo_pmm (- 0x100 + 0x11) 3))
     + free_bytes (pmm_get_stats (demo_pmm (- 0x100 + 0x11) 3)) = 7 * 0x200000"
proof -
  have "managed_bytes (pmm_get_stats (demo_pmm (- 0x100 + 0x11) 3)) = 7 * 0x200000" by code_simp
  with stats_consistent [OF demo_pmm_wf] show ?thesis by simp
qed

section \<open>Requests for several frames leave the zone\<close>

text \<open>
  C9. Each zone's scan reads whole words of the bit array and does not stop at the zone's end,
  so with more than one frame requested the invariant can be lost: in a well-formed machine
  whose DMA zone is fragmented, \<open>alloc_pages(ZONE_DMA, 2)\<close> returns two frames of the other zone
  and charges them to the DMA zone, whose counters no longer match the bit array.
\<close>

theorem alloc_run_leaves_zone:
  "\<exists>s s'. pmm_wf s \<and> alloc_pages ZONE_DMA 2 s = Some (Some 5, s')
     \<and> zone_struct (pages_struct s 5) = Some 1 \<and> ZONE_DMA_INDEX s = 0
     \<and> page_free_count (zones_struct s' 0) = 0
     \<and> count_clear (bm_test (bits_map s')) 0 4 = 2 \<and> \<not> pmm_wf s'"
proof -
  let ?s = "demo_pmm (- 0x100 + 0x1A) 2"
  let ?r = "alloc_pages ZONE_DMA 2 ?s"
  have wf: "pmm_wf ?s" by code_simp
  have "map_option fst ?r = Some (Some 5)" by code_simp
  then obtain s' where s': "?r = Some (Some 5, s')" by auto
  have "map_option (\<lambda>r. page_free_count (zones_struct (snd r) 0)) ?r = Some 0"
    "map_option (\<lambda>r. count_clear (bm_test (bits_map (snd r))) 0 4) ?r = Some 2"
    "map_option (\<lambda>r. pmm_wf (snd r)) ?r = Some False"
    "zone_struct (pages_struct ?s 5) = Some 1" "ZONE_DMA_INDEX ?s = 0"
    by code_simp+
  with wf s' show ?thesis by auto
qed

end
