(* ===== verification/Memory_Map.thy ===== *)
theory Memory_Map
  imports OS01_Prelude
begin

text \<open>
  \<^verbatim>\<open>kernel/arch/x86_64/memory/pmm_arch.c\<close>: translation of the firmware's E820 table into the list of
  memory ranges that the frame allocator is built from. The kernel image, the boot handoff
  pages and the SMP trampoline are cut out of every entry, what is left is rounded inward to
  2 MiB, sorted by address, and neighbours of one type are merged.

  The addresses of the linker symbols (\<open>_text\<close>, \<open>_edata\<close> and the length of the trampoline blob)
  are arguments of the model.
\<close>

section \<open>Data\<close>

datatype memory_type =
  MEMORY_TYPE_RAM | MEMORY_TYPE_RESERVED | MEMORY_TYPE_ACPI_RECLAIM | MEMORY_TYPE_ACPI_NVS
| MEMORY_TYPE_DEVICE

record memory_range =
  mr_start :: u64
  mr_end :: u64
  mr_type :: memory_type

record e820_entry =
  e_address :: u64
  e_length :: u64
  e_type :: u32

text \<open>The part of the boot context that the adapter reads; \<open>entries\<close> is the table it points to.\<close>

record boot_memory =
  has_memory_map :: bool
  mm_format :: u32
  mm_entry_size :: u32
  mm_entries :: "e820_entry list"

definition MEMORY_RANGE_GRANULE :: u64 where "MEMORY_RANGE_GRANULE = push_bit 21 1"
definition X86_64_HANDOFF_BASE :: u64 where "X86_64_HANDOFF_BASE = 0x60000"
definition X86_64_HANDOFF_END :: u64 where "X86_64_HANDOFF_END = 0x64000"
definition TRAMPOLINE_BASE :: u64 where "TRAMPOLINE_BASE = 0x8000"
definition BOOT_MEMORY_FORMAT_E820 :: u32 where "BOOT_MEMORY_FORMAT_E820 = 1"

definition round_up :: "u64 \<Rightarrow> u64 \<Rightarrow> u64" where
  "round_up v a = (v + a - 1) AND NOT (a - 1)"

definition round_down :: "u64 \<Rightarrow> u64 \<Rightarrow> u64" where
  "round_down v a = v AND NOT (a - 1)"

definition e820_memory_type :: "u32 \<Rightarrow> memory_type" where
  "e820_memory_type t =
    (if t = 1 then MEMORY_TYPE_RAM else if t = 2 then MEMORY_TYPE_RESERVED
     else if t = 3 then MEMORY_TYPE_ACPI_RECLAIM else if t = 4 then MEMORY_TYPE_ACPI_NVS
     else MEMORY_TYPE_RESERVED)"

section \<open>Cutting out the excluded intervals\<close>

definition exclude_frag :: "u64 \<times> u64 \<Rightarrow> u64 \<times> u64 \<Rightarrow> (u64 \<times> u64) list" where
  "exclude_frag x f =
    (let a = fst f; b = snd f in
     if b \<le> fst x \<or> a \<ge> snd x then [f]
     else (if a < fst x then [(a, fst x)] else []) @ (if b > snd x then [(snd x, b)] else []))"

text \<open>Appending to \<open>next[16]\<close>: a piece past the end of the array is dropped.\<close>

definition push16 :: "u64 \<times> u64 \<Rightarrow> (u64 \<times> u64) list \<Rightarrow> (u64 \<times> u64) list" where
  "push16 f acc = (if length acc < 16 then acc @ [f] else acc)"

definition exclude_round :: "u64 \<times> u64 \<Rightarrow> (u64 \<times> u64) list \<Rightarrow> (u64 \<times> u64) list" where
  "exclude_round x frags = fold (\<lambda>f acc. fold push16 (exclude_frag x f) acc) frags []"

definition entry_frags :: "(u64 \<times> u64) list \<Rightarrow> e820_entry \<Rightarrow> (u64 \<times> u64) list" where
  "entry_frags excl e = fold exclude_round excl [(e_address e, e_address e + e_length e)]"

section \<open>Emitting, sorting, merging\<close>

text \<open>\<^term>\<open>None\<close> is the early \<open>return 0\<close> when the output array is full.\<close>

fun emit_frags :: "memory_type \<Rightarrow> (u64 \<times> u64) list \<Rightarrow> memory_range list \<Rightarrow> memory_range list option" where
  "emit_frags t [] out = Some out"
| "emit_frags t (f # fs) out =
    (let rs = round_up (fst f) MEMORY_RANGE_GRANULE; re = round_down (snd f) MEMORY_RANGE_GRANULE in
     if re \<le> rs then emit_frags t fs out
     else if 64 \<le> length out then None
     else emit_frags t fs (out @ [\<lparr>mr_start = rs, mr_end = re, mr_type = t\<rparr>]))"

fun emit_entries :: "(u64 \<times> u64) list \<Rightarrow> e820_entry list \<Rightarrow> memory_range list \<Rightarrow> memory_range list option" where
  "emit_entries excl [] out = Some out"
| "emit_entries excl (e # es) out =
    Option.bind (emit_frags (e820_memory_type (e_type e)) (entry_frags excl e) out)
      (emit_entries excl es)"

text \<open>The insertion sort; the sorted prefix is kept from its last element to its first.\<close>

fun insert_range :: "memory_range \<Rightarrow> memory_range list \<Rightarrow> memory_range list" where
  "insert_range tmp [] = [tmp]"
| "insert_range tmp (y # ys) =
    (if mr_start y > mr_start tmp then y # insert_range tmp ys else tmp # y # ys)"

definition sort_ranges :: "memory_range list \<Rightarrow> memory_range list" where
  "sort_ranges rs = rev (fold insert_range rs [])"

text \<open>The merge; the output written so far is kept from its last element to its first.\<close>

fun merge_range :: "memory_range \<Rightarrow> memory_range list \<Rightarrow> memory_range list" where
  "merge_range r [] = [r]"
| "merge_range r (l # ls) =
    (if mr_start r > mr_end l \<or> mr_type r \<noteq> mr_type l then r # l # ls
     else if mr_end r > mr_end l then l\<lparr>mr_end := mr_end r\<rparr> # ls else l # ls)"

definition merge_ranges :: "memory_range list \<Rightarrow> memory_range list" where
  "merge_ranges rs = rev (fold merge_range rs [])"

text \<open>The list of ranges the function leaves in \<open>out\<close>; it returns its length.\<close>

definition pmm_arch_normalize ::
  "u64 \<Rightarrow> u64 \<Rightarrow> u64 \<Rightarrow> boot_memory option \<Rightarrow> memory_range list" where
  "pmm_arch_normalize kernel_lma_start kernel_lma_end tramp_size ctx =
    (case ctx of None \<Rightarrow> []
     | Some m \<Rightarrow>
       if \<not> has_memory_map m \<or> mm_format m \<noteq> BOOT_MEMORY_FORMAT_E820 \<or> mm_entry_size m < 20
         \<or> mm_entries m = [] \<or> kernel_lma_start \<ge> kernel_lma_end then []
       else case emit_entries
           [(kernel_lma_start, kernel_lma_end), (X86_64_HANDOFF_BASE, X86_64_HANDOFF_END),
            (TRAMPOLINE_BASE, TRAMPOLINE_BASE + tramp_size)] (mm_entries m) [] of
         None \<Rightarrow> []
       | Some out \<Rightarrow> merge_ranges (sort_ranges out))"

definition pmm_arch_zone_split :: u64 where
  "pmm_arch_zone_split = 0x100000000"

section \<open>Rounding to the granule\<close>

lemma granule: "MEMORY_RANGE_GRANULE - 1 = mask 21" "unat MEMORY_RANGE_GRANULE = 2 ^ 21"
  by (simp_all add: MEMORY_RANGE_GRANULE_def mask_eq_decr_exp)

lemma unat_round_down: "unat (round_down v MEMORY_RANGE_GRANULE) = unat v - unat v mod 2 ^ 21"
  unfolding round_down_def granule by (rule unat_and_not_mask)

lemma unat_mask_21: "unat (mask 21 :: u64) = 2 ^ 21 - 1"
  by (simp add: mask_eq_decr_exp)

lemma unat_round_up:
  assumes "unat v + 2 ^ 21 \<le> 2 ^ 64"
  shows "unat (round_up v MEMORY_RANGE_GRANULE)
    = unat v + (2 ^ 21 - 1) - (unat v + (2 ^ 21 - 1)) mod 2 ^ 21"
proof -
  have "unat (v + mask 21) = unat v + (2 ^ 21 - 1)"
    using assms by (subst unat_add_small) (simp_all add: unat_mask_21)
  then show ?thesis
    unfolding round_up_def add_diff_eq [symmetric] granule unat_and_not_mask by simp
qed

lemma round_up_bounds:
  assumes "unat v + 2 ^ 21 \<le> 2 ^ 64"
  shows "unat v \<le> unat (round_up v MEMORY_RANGE_GRANULE)"
    "2 ^ 21 dvd unat (round_up v MEMORY_RANGE_GRANULE)"
    "2 ^ 21 dvd g \<Longrightarrow> unat v \<le> g \<Longrightarrow> unat (round_up v MEMORY_RANGE_GRANULE) \<le> g"
  unfolding unat_round_up [OF assms]
  by (rule nat_ceil_ge, simp, rule dvd_minus_mod, rule nat_ceil_least) simp_all

lemma round_down_bounds:
  "unat (round_down v MEMORY_RANGE_GRANULE) \<le> unat v"
  "2 ^ 21 dvd unat (round_down v MEMORY_RANGE_GRANULE)"
  "2 ^ 21 dvd g \<Longrightarrow> g \<le> unat v \<Longrightarrow> g \<le> unat (round_down v MEMORY_RANGE_GRANULE)"
  unfolding unat_round_down by (rule diff_le_self, rule dvd_minus_mod, rule nat_floor_greatest)

section \<open>Granules\<close>

text \<open>
  The specification speaks about 2 MiB granules: one lies within a fragment, avoids an excluded
  interval, or belongs to a range of the output.
\<close>

definition within :: "u64 \<Rightarrow> u64 \<times> u64 \<Rightarrow> bool" where
  "within g f = (unat (fst f) \<le> unat g \<and> unat g + 2 ^ 21 \<le> unat (snd f))"

definition avoids :: "u64 \<Rightarrow> u64 \<times> u64 \<Rightarrow> bool" where
  "avoids g x = (unat g + 2 ^ 21 \<le> unat (fst x) \<or> unat (snd x) \<le> unat g)"

definition in_range :: "u64 \<Rightarrow> memory_range \<Rightarrow> bool" where
  "in_range a r = (mr_start r \<le> a \<and> a < mr_end r)"

definition entry_span :: "e820_entry \<Rightarrow> u64 \<times> u64" where
  "entry_span e = (e_address e, e_address e + e_length e)"

text \<open>The entry ends more than a granule below the top of the address space.\<close>

definition entry_fits :: "e820_entry \<Rightarrow> bool" where
  "entry_fits e = (unat (e_address e) + unat (e_length e) + 2 ^ 21 \<le> 2 ^ 64)"

lemma exclude_frag_set:
  "f' \<in> set (exclude_frag x f) \<longleftrightarrow>
    (if snd f \<le> fst x \<or> fst f \<ge> snd x then f' = f
     else fst f < fst x \<and> f' = (fst f, fst x) \<or> snd f > snd x \<and> f' = (snd x, snd f))"
  unfolding exclude_frag_def Let_def
  by (cases "snd f \<le> fst x \<or> fst f \<ge> snd x"; cases "fst f < fst x"; cases "snd f > snd x")
    (simp_all only: if_True if_False append_Nil append_Nil2 append_Cons list.set insert_iff empty_iff simp_thms)

lemma exclude_frag_sub:
  assumes "f' \<in> set (exclude_frag x f)"
  shows "fst f \<le> fst f' \<and> snd f' \<le> snd f"
proof (cases "snd f \<le> fst x \<or> fst f \<ge> snd x")
  case False
  then have "fst x \<le> snd f" "fst f \<le> snd x" by (simp_all add: not_le less_imp_le)
  with assms False show ?thesis unfolding exclude_frag_set by (metis fst_conv order.refl snd_conv)
qed (use assms in \<open>simp add: exclude_frag_set\<close>)


lemma cut_interval:
  fixes a b x y g d :: nat
  assumes "\<not> (b \<le> x \<or> y \<le> a)" "x \<le> y" "0 < d"
  shows "(a < x \<and> a \<le> g \<and> g + d \<le> x \<or> y < b \<and> y \<le> g \<and> g + d \<le> b)
    \<longleftrightarrow> (a \<le> g \<and> g + d \<le> b) \<and> (g + d \<le> x \<or> y \<le> g)"
  using assms by arith

lemma exclude_frag_within:
  assumes "fst x \<le> snd x"
  shows "(\<exists>f' \<in> set (exclude_frag x f). within g f') \<longleftrightarrow> within g f \<and> avoids g x"
proof -
  have n: "unat (fst x) \<le> unat (snd x)" using assms by (simp add: word_le_nat_alt)
  show ?thesis
  proof (cases "snd f \<le> fst x \<or> fst f \<ge> snd x")
    case True
    then have "(\<exists>f' \<in> set (exclude_frag x f). within g f') \<longleftrightarrow> within g f"
      unfolding Bex_def exclude_frag_set by (simp only: if_True) blast
    moreover have "within g f \<Longrightarrow> avoids g x"
      using True unfolding within_def avoids_def word_le_nat_alt by linarith
    ultimately show ?thesis by blast
  next
    case False
    then have "(\<exists>f' \<in> set (exclude_frag x f). within g f') \<longleftrightarrow>
        fst f < fst x \<and> within g (fst f, fst x) \<or> snd f > snd x \<and> within g (snd x, snd f)"
      unfolding Bex_def exclude_frag_set by (simp only: if_False) blast
    also have "\<dots> \<longleftrightarrow> within g f \<and> avoids g x"
      using False n unfolding within_def avoids_def word_le_nat_alt word_less_nat_alt fst_conv snd_conv
      by (intro cut_interval) simp_all
    finally show ?thesis .
  qed
qed
lemma length_exclude_frag: "length (exclude_frag x f) \<le> 2"
  by (simp add: exclude_frag_def Let_def)

lemma fold_push16: "length acc + length fs \<le> 16 \<Longrightarrow> fold push16 fs acc = acc @ fs"
  by (induction fs arbitrary: acc) (simp_all add: push16_def)

lemma exclude_round_concat:
  assumes "length fs \<le> 8"
  shows "exclude_round x fs = concat (map (exclude_frag x) fs)" "length (exclude_round x fs) \<le> 2 * length fs"
proof -
  have len: "length (concat (map (exclude_frag x) fs)) \<le> 2 * length fs" for fs
  proof (induction fs)
    case (Cons f fs)
    then show ?case using length_exclude_frag [of x f] by simp
  qed simp
  have "fold (\<lambda>f acc. fold push16 (exclude_frag x f) acc) fs acc = acc @ concat (map (exclude_frag x) fs)"
    if "length acc + 2 * length fs \<le> 16" for acc
    using that
  proof (induction fs arbitrary: acc)
    case (Cons f fs)
    then show ?case using length_exclude_frag [of x f] by (simp add: fold_push16)
  qed simp
  from this [of "[]"] assms show "exclude_round x fs = concat (map (exclude_frag x) fs)"
    by (simp add: exclude_round_def)
  then show "length (exclude_round x fs) \<le> 2 * length fs" using len [of fs] by simp
qed

text \<open>Three rounds starting from one fragment never fill \<open>frags[8]\<close> or \<open>next[16]\<close>.\<close>

lemma entry_frags_concat:
  "entry_frags [x, y, z] e = concat (map (exclude_frag z) (concat (map (exclude_frag y) (exclude_frag x (entry_span e)))))"
  "length (entry_frags [x, y, z] e) \<le> 8"
proof -
  let ?fs = "[entry_span e]"
  have 1: "exclude_round x ?fs = exclude_frag x (entry_span e)" "length (exclude_round x ?fs) \<le> 2"
    using exclude_round_concat [of ?fs x] by simp_all
  have 2: "exclude_round y (exclude_round x ?fs) = concat (map (exclude_frag y) (exclude_round x ?fs))"
    "length (exclude_round y (exclude_round x ?fs)) \<le> 4"
    using exclude_round_concat [of "exclude_round x ?fs" y] 1(2) by linarith+
  have 3: "exclude_round z (exclude_round y (exclude_round x ?fs))
      = concat (map (exclude_frag z) (exclude_round y (exclude_round x ?fs)))"
    "length (exclude_round z (exclude_round y (exclude_round x ?fs))) \<le> 8"
    using exclude_round_concat [of "exclude_round y (exclude_round x ?fs)" z] 2(2) by linarith+
  have "entry_frags [x, y, z] e = exclude_round z (exclude_round y (exclude_round x ?fs))"
    by (simp add: entry_frags_def entry_span_def)
  with 1(1) 2(1) 3 show "entry_frags [x, y, z] e
      = concat (map (exclude_frag z) (concat (map (exclude_frag y) (exclude_frag x (entry_span e)))))"
    "length (entry_frags [x, y, z] e) \<le> 8" by simp_all
qed

lemma entry_frags_within:
  assumes "\<forall>w \<in> set [x, y, z]. fst w \<le> snd w"
  shows "(\<exists>f \<in> set (entry_frags [x, y, z] e). within g f) \<longleftrightarrow>
    within g (entry_span e) \<and> (\<forall>w \<in> set [x, y, z]. avoids g w)"
proof -
  have c: "(\<exists>f \<in> set (concat (map (exclude_frag w) fs)). within g f) \<longleftrightarrow>
      (\<exists>f \<in> set fs. within g f) \<and> avoids g w" if "fst w \<le> snd w" for w fs
    using exclude_frag_within [OF that, of _ g] by auto
  show ?thesis
    using assms unfolding entry_frags_concat(1) by (simp only: c exclude_frag_within list.set_intros) auto
qed

section \<open>The emitted list\<close>

definition emit1 :: "memory_type \<Rightarrow> u64 \<times> u64 \<Rightarrow> memory_range list" where
  "emit1 t f = (let rs = round_up (fst f) MEMORY_RANGE_GRANULE; re = round_down (snd f) MEMORY_RANGE_GRANULE in
     if re \<le> rs then [] else [\<lparr>mr_start = rs, mr_end = re, mr_type = t\<rparr>])"

definition emit_entry :: "(u64 \<times> u64) list \<Rightarrow> e820_entry \<Rightarrow> memory_range list" where
  "emit_entry excl e = concat (map (emit1 (e820_memory_type (e_type e))) (entry_frags excl e))"

lemma emit_frags_Some: "emit_frags t fs out = Some out' \<Longrightarrow> out' = out @ concat (map (emit1 t) fs)"
proof (induction fs arbitrary: out)
  case (Cons f fs)
  then show ?case by (auto simp: emit1_def Let_def split: if_splits dest!: Cons.IH)
qed simp

lemma emit_entries_Some:
  "emit_entries excl es out = Some out' \<Longrightarrow> out' = out @ concat (map (emit_entry excl) es)"
proof (induction es arbitrary: out)
  case (Cons e es)
  from Cons.prems obtain o1 where o1: "emit_frags (e820_memory_type (e_type e)) (entry_frags excl e) out = Some o1"
    "emit_entries excl es o1 = Some out'" by (auto simp: bind_eq_Some_conv)
  from Cons.IH [OF o1(2)] emit_frags_Some [OF o1(1)] show ?case by (simp add: emit_entry_def)
qed simp

text \<open>A range is not empty and its ends are multiples of the granule.\<close>

definition range_shape :: "memory_range \<Rightarrow> bool" where
  "range_shape r = (mr_start r < mr_end r \<and> 2 ^ 21 dvd unat (mr_start r) \<and> 2 ^ 21 dvd unat (mr_end r))"

lemma emit1_shape:
  assumes "r \<in> set (emit1 t f)" "unat (fst f) + 2 ^ 21 \<le> 2 ^ 64"
  shows "range_shape r" "mr_type r = t" "unat (fst f) \<le> unat (mr_start r)" "unat (mr_end r) \<le> unat (snd f)"
  using assms(1) round_up_bounds(1,2) [OF assms(2)] round_down_bounds(1,2) [of "snd f"]
  by (auto simp: emit1_def Let_def range_shape_def not_le split: if_splits)

lemma emit1_granule:
  assumes fits: "unat (fst f) + 2 ^ 21 \<le> 2 ^ 64" and g: "2 ^ 21 dvd unat g"
  shows "(\<exists>r \<in> set (emit1 t f). in_range g r) \<longleftrightarrow> within g f"
proof -
  let ?rs = "round_up (fst f) MEMORY_RANGE_GRANULE" and ?re = "round_down (snd f) MEMORY_RANGE_GRANULE"
  have rs: "unat ?rs \<le> unat g \<longleftrightarrow> unat (fst f) \<le> unat g"
    using round_up_bounds(1,3) [OF fits] g order_trans by blast
  have re: "unat g < unat ?re \<longleftrightarrow> unat g + 2 ^ 21 \<le> unat (snd f)"
  proof
    assume "unat g < unat ?re"
    then have "unat g + 2 ^ 21 \<le> unat ?re" by (intro aligned_step g round_down_bounds(2))
    then show "unat g + 2 ^ 21 \<le> unat (snd f)" using round_down_bounds(1) [of "snd f"] by linarith
  next
    assume "unat g + 2 ^ 21 \<le> unat (snd f)"
    then have "unat g + 2 ^ 21 \<le> unat ?re" using g by (intro round_down_bounds(3)) simp_all
    then show "unat g < unat ?re" by simp
  qed
  have "(\<exists>r \<in> set (emit1 t f). in_range g r) \<longleftrightarrow> unat ?rs \<le> unat g \<and> unat g < unat ?re"
    by (auto simp: emit1_def Let_def in_range_def word_le_nat_alt word_less_nat_alt)
  then show ?thesis unfolding rs re within_def .
qed

section \<open>Sorting and merging\<close>

abbreviation starts_up :: "memory_range list \<Rightarrow> bool" where
  "starts_up \<equiv> sorted_wrt (\<lambda>r r'. mr_start r \<le> mr_start r')"

lemma insert_range_set: "set (insert_range t ys) = insert t (set ys)"
  by (induction ys) auto

lemma insert_range_sorted:
  "sorted_wrt (\<lambda>r r'. mr_start r' \<le> mr_start r) ys \<Longrightarrow>
     sorted_wrt (\<lambda>r r'. mr_start r' \<le> mr_start r) (insert_range t ys)"
  by (induction ys) (auto simp: insert_range_set not_less)

lemma insert_range_sym:
  assumes "\<And>a b. R a b = R b a" "sorted_wrt R ys" "\<And>y. y \<in> set ys \<Longrightarrow> R t y"
  shows "sorted_wrt R (insert_range t ys)"
  using assms(2,3) by (induction ys) (auto simp: insert_range_set assms(1) [of _ t])

lemma sort_ranges_set: "set (sort_ranges rs) = set rs"
proof -
  have "set (fold insert_range rs acc) = set rs \<union> set acc" for acc
    by (induction rs arbitrary: acc) (auto simp: insert_range_set)
  then show ?thesis by (simp add: sort_ranges_def)
qed

lemma sort_ranges_sorted: "starts_up (sort_ranges rs)"
proof -
  have "sorted_wrt (\<lambda>r r'. mr_start r' \<le> mr_start r) (fold insert_range rs acc)"
    if "sorted_wrt (\<lambda>r r'. mr_start r' \<le> mr_start r) acc" for acc
    using that by (induction rs arbitrary: acc) (auto simp: insert_range_sorted)
  from this [of "[]"] show ?thesis by (simp add: sort_ranges_def sorted_wrt_rev)
qed

lemma sort_ranges_sym:
  assumes sym: "\<And>a b. R a b = R b a" and "sorted_wrt R rs"
  shows "sorted_wrt R (sort_ranges rs)"
proof -
  have "sorted_wrt R (fold insert_range rs acc)"
    if "sorted_wrt R acc" "\<forall>r \<in> set rs. \<forall>a \<in> set acc. R r a" for acc
    using that assms(2)
  proof (induction rs arbitrary: acc)
    case (Cons r rs)
    then show ?case by (simp, intro Cons.IH insert_range_sym [OF sym])
        (auto simp: insert_range_set sym [of _ r])
  qed simp
  from this [of "[]"] have "sorted_wrt R (fold insert_range rs [])" by simp
  then have "sorted_wrt (\<lambda>a b. R b a) (sort_ranges rs)" by (simp add: sort_ranges_def sorted_wrt_rev)
  then show ?thesis by (rule sorted_wrt_mono_rel [rotated]) (simp add: sym)
qed

text \<open>Which granules of type \<open>t\<close> a list of ranges contains.\<close>

definition holds :: "memory_type \<Rightarrow> u64 \<Rightarrow> memory_range list \<Rightarrow> bool" where
  "holds t a rs = list_ex (\<lambda>r. mr_type r = t \<and> in_range a r) rs"

lemma holds_simps [simp]:
  "holds t a [] \<longleftrightarrow> False"
  "holds t a (r # rs) \<longleftrightarrow> (mr_type r = t \<and> in_range a r) \<or> holds t a rs"
  "holds t a (rs @ rs') \<longleftrightarrow> holds t a rs \<or> holds t a rs'"
  "holds t a (rev rs) \<longleftrightarrow> holds t a rs"
  by (auto simp: holds_def list_ex_iff)

lemma holds_set: "holds t a rs \<longleftrightarrow> (\<exists>r \<in> set rs. mr_type r = t \<and> in_range a r)"
  by (simp add: holds_def list_ex_iff)

lemma merge_range_holds:
  assumes "\<forall>l \<in> set acc. mr_start l \<le> mr_start r"
  shows "holds t a (merge_range r acc) \<longleftrightarrow> (mr_type r = t \<and> in_range a r) \<or> holds t a acc"
proof (cases acc)
  case (Cons l ls)
  with assms have "mr_start l \<le> mr_start r" by simp
  then show ?thesis unfolding Cons by (auto simp: in_range_def not_less)
qed simp

lemma merge_range_starts: "mr_start ` set (merge_range r acc) \<subseteq> insert (mr_start r) (mr_start ` set acc)"
  by (cases acc) auto

lemma fold_merge_holds:
  assumes "starts_up rs" "\<forall>l \<in> set acc. \<forall>r \<in> set rs. mr_start l \<le> mr_start r"
  shows "holds t a (fold merge_range rs acc) \<longleftrightarrow> holds t a rs \<or> holds t a acc"
  using assms
proof (induction rs arbitrary: acc)
  case (Cons r rs)
  have "\<forall>l \<in> set (merge_range r acc). \<forall>r' \<in> set rs. mr_start l \<le> mr_start r'"
  proof (intro ballI)
    fix l r' assume "l \<in> set (merge_range r acc)" "r' \<in> set rs"
    then have "mr_start l \<in> insert (mr_start r) (mr_start ` set acc)" using merge_range_starts [of r acc] by blast
    with Cons.prems \<open>r' \<in> set rs\<close> show "mr_start l \<le> mr_start r'" by auto
  qed
  with Cons show ?case by (simp add: merge_range_holds) blast
qed simp

text \<open>A property of ranges that survives extending one range to the end of another.\<close>

lemma fold_merge_all:
  assumes "\<forall>r \<in> set rs. P r" "\<forall>r \<in> set acc. P r"
    and ext: "\<And>l r. P l \<Longrightarrow> P r \<Longrightarrow> mr_end r > mr_end l \<Longrightarrow> P (l\<lparr>mr_end := mr_end r\<rparr>)"
  shows "\<forall>r \<in> set (fold merge_range rs acc). P r"
  using assms(1,2)
proof (induction rs arbitrary: acc)
  case (Cons r rs)
  have "\<forall>x \<in> set (merge_range r acc). P x" using Cons.prems ext by (cases acc) auto
  with Cons show ?case by simp
qed simp

lemma range_shape_ext: "range_shape l \<Longrightarrow> range_shape r \<Longrightarrow> mr_end r > mr_end l \<Longrightarrow>
    range_shape (l\<lparr>mr_end := mr_end r\<rparr>)"
  by (auto simp: range_shape_def)

text \<open>One range ends before the next begins.\<close>

abbreviation apart :: "memory_range list \<Rightarrow> bool" where
  "apart \<equiv> sorted_wrt (\<lambda>r r'. mr_end r \<le> mr_start r')"

lemma fold_merge_apart:
  assumes "apart rs" "\<forall>r \<in> set rs. mr_start r < mr_end r"
    and "sorted_wrt (\<lambda>r r'. mr_end r' \<le> mr_start r) acc"
    and "\<forall>l \<in> set acc. \<forall>r \<in> set rs. mr_end l \<le> mr_start r"
  shows "sorted_wrt (\<lambda>r r'. mr_end r' \<le> mr_start r) (fold merge_range rs acc)"
  using assms
proof (induction rs arbitrary: acc)
  case (Cons r rs)
  have ends: "\<forall>r' \<in> set rs. mr_end r \<le> mr_start r'" using Cons.prems(1) by simp
  have "sorted_wrt (\<lambda>r r'. mr_end r' \<le> mr_start r) (merge_range r acc)
    \<and> (\<forall>l \<in> set (merge_range r acc). \<forall>r' \<in> set rs. mr_end l \<le> mr_start r')"
  proof (cases acc)
    case (Cons l ls)
    then show ?thesis using Cons.prems(3,4) ends by simp
  qed (use ends in simp)
  with Cons.prems show ?case by (simp add: Cons.IH)
qed simp

lemma merge_ranges_apart:
  assumes "apart rs" "\<forall>r \<in> set rs. mr_start r < mr_end r"
  shows "apart (merge_ranges rs)"
  using fold_merge_apart [OF assms, of "[]"] by (simp add: merge_ranges_def sorted_wrt_rev)

section \<open>The whole translation\<close>

lemma sorted_wrt_concat:
  assumes "sorted_wrt R xs" "\<And>x. x \<in> set xs \<Longrightarrow> sorted_wrt Q (h x)"
    and "\<And>x y a b. x \<in> set xs \<Longrightarrow> y \<in> set xs \<Longrightarrow> R x y \<Longrightarrow> a \<in> set (h x) \<Longrightarrow> b \<in> set (h y) \<Longrightarrow> Q a b"
  shows "sorted_wrt Q (concat (map h xs))"
  using assms
proof (induction xs)
  case (Cons x xs)
  have "sorted_wrt Q (concat (map h xs))"
    by (rule Cons.IH) (use Cons.prems(1,2) in simp, use Cons.prems(2) in simp,
      rule Cons.prems(3), simp_all)
  moreover have "\<forall>a \<in> set (h x). \<forall>b \<in> set (concat (map h xs)). Q a b"
    using Cons.prems(1,3) by fastforce
  ultimately show ?case using Cons.prems(2) [of x] by (simp add: sorted_wrt_append)
qed simp

definition frags_apart :: "u64 \<times> u64 \<Rightarrow> u64 \<times> u64 \<Rightarrow> bool" where
  "frags_apart f g = (snd f \<le> fst g \<or> snd g \<le> fst f)"

lemma frags_apart_sub:
  assumes "frags_apart f g" "fst f \<le> fst f'" "snd f' \<le> snd f" "fst g \<le> fst g'" "snd g' \<le> snd g"
  shows "frags_apart f' g'"
  using assms unfolding frags_apart_def by (meson order_trans)

lemma exclude_frag_apart:
  assumes "fst x \<le> snd x"
  shows "sorted_wrt frags_apart (exclude_frag x f)"
  using assms by (cases "fst f < fst x"; cases "snd f > snd x") (simp_all add: exclude_frag_def Let_def frags_apart_def)

lemma exclude_frag_proper:
  assumes "f' \<in> set (exclude_frag x f)" "fst f \<le> snd f"
  shows "fst f' \<le> snd f'"
  using assms unfolding exclude_frag_set by (metis fst_conv less_imp_le snd_conv)

lemma concat_exclude:
  assumes "fst x \<le> snd x" "sorted_wrt frags_apart fs"
  shows "sorted_wrt frags_apart (concat (map (exclude_frag x) fs))"
proof (rule sorted_wrt_concat [OF assms(2) exclude_frag_apart [OF assms(1)]])
  fix f g f' g' assume "frags_apart f g" "f' \<in> set (exclude_frag x f)" "g' \<in> set (exclude_frag x g)"
  then show "frags_apart f' g'" by (meson exclude_frag_sub frags_apart_sub)
qed

lemma concat_exclude_sub:
  assumes "f' \<in> set (concat (map (exclude_frag x) fs))"
    "\<forall>f \<in> set fs. fst s \<le> fst f \<and> fst f \<le> snd f \<and> snd f \<le> snd s"
  shows "fst s \<le> fst f' \<and> fst f' \<le> snd f' \<and> snd f' \<le> snd s"
proof -
  from assms(1) obtain f where f: "f \<in> set fs" "f' \<in> set (exclude_frag x f)" by auto
  with assms(2) exclude_frag_sub [OF f(2)] exclude_frag_proper [OF f(2)] show ?thesis
    by (meson order_trans)
qed

lemma entry_frags_sub:
  assumes "f \<in> set (entry_frags [x, y, z] e)" "fst (entry_span e) \<le> snd (entry_span e)"
  shows "fst (entry_span e) \<le> fst f \<and> fst f \<le> snd f \<and> snd f \<le> snd (entry_span e)"
proof -
  let ?s = "entry_span e"
  have 1: "\<forall>f \<in> set (exclude_frag x ?s). fst ?s \<le> fst f \<and> fst f \<le> snd f \<and> snd f \<le> snd ?s"
    using concat_exclude_sub [of _ x "[?s]" ?s] assms(2) by simp
  then have "\<forall>f \<in> set (concat (map (exclude_frag y) (exclude_frag x ?s))).
      fst ?s \<le> fst f \<and> fst f \<le> snd f \<and> snd f \<le> snd ?s"
    using concat_exclude_sub [of _ y "exclude_frag x ?s" ?s] by blast
  then show ?thesis
    using concat_exclude_sub [of f z _ ?s] assms(1) unfolding entry_frags_concat(1) by blast
qed

lemma entry_frags_apart:
  assumes "\<forall>w \<in> set [x, y, z]. fst w \<le> snd w"
  shows "sorted_wrt frags_apart (entry_frags [x, y, z] e)"
  unfolding entry_frags_concat(1) using assms
  by (intro concat_exclude exclude_frag_apart) simp_all

lemma entry_fits_span:
  assumes "entry_fits e"
  shows "fst (entry_span e) \<le> snd (entry_span e)" "unat (snd (entry_span e)) + 2 ^ 21 \<le> 2 ^ 64"
proof -
  have "unat (e_address e + e_length e) = unat (e_address e) + unat (e_length e)"
    using assms by (intro unat_add_small) (simp add: entry_fits_def)
  then show "fst (entry_span e) \<le> snd (entry_span e)" "unat (snd (entry_span e)) + 2 ^ 21 \<le> 2 ^ 64"
    using assms by (simp_all add: entry_span_def entry_fits_def word_le_nat_alt)
qed

lemma entry_frags_fit:
  assumes "entry_fits e" "f \<in> set (entry_frags [x, y, z] e)"
  shows "unat (fst f) + 2 ^ 21 \<le> 2 ^ 64"
proof -
  from entry_frags_sub [OF assms(2) entry_fits_span(1) [OF assms(1)]]
  have "unat (fst f) \<le> unat (snd (entry_span e))" by (meson order_trans word_le_nat_alt)
  with entry_fits_span(2) [OF assms(1)] show ?thesis by linarith
qed

lemma emit_entry_holds:
  assumes "entry_fits e" "\<forall>w \<in> set [x, y, z]. fst w \<le> snd w" "2 ^ 21 dvd unat g"
  shows "holds t g (emit_entry [x, y, z] e) \<longleftrightarrow> e820_memory_type (e_type e) = t
    \<and> within g (entry_span e) \<and> (\<forall>w \<in> set [x, y, z]. avoids g w)"
proof -
  let ?T = "e820_memory_type (e_type e)"
  have "holds t g (emit_entry [x, y, z] e) \<longleftrightarrow>
      ?T = t \<and> (\<exists>f \<in> set (entry_frags [x, y, z] e). \<exists>r \<in> set (emit1 ?T f). in_range g r)"
    using emit1_shape(2) [of _ ?T] entry_frags_fit [OF assms(1)]
    by (auto simp: holds_set emit_entry_def)
  also have "\<dots> \<longleftrightarrow> ?T = t \<and> (\<exists>f \<in> set (entry_frags [x, y, z] e). within g f)"
    using emit1_granule [OF entry_frags_fit [OF assms(1)] assms(3)] by blast
  finally show ?thesis unfolding entry_frags_within [OF assms(2)] .
qed

lemma emit_entry_piece:
  assumes "entry_fits e" "r \<in> set (emit_entry [x, y, z] e)"
  shows "range_shape r \<and> fst (entry_span e) \<le> mr_start r \<and> mr_end r \<le> snd (entry_span e)"
proof -
  from assms(2) obtain f where f: "f \<in> set (entry_frags [x, y, z] e)"
    "r \<in> set (emit1 (e820_memory_type (e_type e)) f)" by (auto simp: emit_entry_def)
  note shape = emit1_shape [OF f(2) entry_frags_fit [OF assms(1) f(1)]]
    and sub = entry_frags_sub [OF f(1) entry_fits_span(1) [OF assms(1)]]
  from shape(3,4) sub show ?thesis
    using shape(1) unfolding word_le_nat_alt by linarith
qed

lemma emit_entry_apart:
  assumes "entry_fits e" "\<forall>w \<in> set [x, y, z]. fst w \<le> snd w"
  shows "sorted_wrt (\<lambda>r r'. frags_apart (mr_start r, mr_end r) (mr_start r', mr_end r')) (emit_entry [x, y, z] e)"
  unfolding emit_entry_def
proof (rule sorted_wrt_concat [OF entry_frags_apart [OF assms(2)]])
  fix f g r r'
  let ?T = "e820_memory_type (e_type e)"
  assume fg: "f \<in> set (entry_frags [x, y, z] e)" "g \<in> set (entry_frags [x, y, z] e)" "frags_apart f g"
    and r: "r \<in> set (emit1 ?T f)" "r' \<in> set (emit1 ?T g)"
  note s = emit1_shape(3,4) [OF r(1) entry_frags_fit [OF assms(1) fg(1)]]
    emit1_shape(3,4) [OF r(2) entry_frags_fit [OF assms(1) fg(2)]]
  show "frags_apart (mr_start r, mr_end r) (mr_start r', mr_end r')"
    by (rule frags_apart_sub [OF fg(3)]) (use s in \<open>simp_all add: word_le_nat_alt\<close>)
qed (simp add: emit1_def Let_def)

lemma apart_of_sorted:
  assumes "starts_up rs" "\<forall>r \<in> set rs. range_shape r"
    "sorted_wrt (\<lambda>r r'. frags_apart (mr_start r, mr_end r) (mr_start r', mr_end r')) rs"
  shows "apart rs"
  using assms
proof (induction rs)
  case (Cons r rs)
  have "mr_end r \<le> mr_start r'" if "r' \<in> set rs" for r'
  proof -
    from that Cons.prems have "mr_start r \<le> mr_start r'" "mr_start r' < mr_end r'"
      "mr_end r \<le> mr_start r' \<or> mr_end r' \<le> mr_start r"
      by (auto simp: frags_apart_def range_shape_def)
    then show ?thesis by (meson leD le_less_trans order_less_le_trans)
  qed
  with Cons show ?case by simp
qed simp

lemma normalize_cases:
  assumes "pmm_arch_normalize ks ke ts (Some m) = rs" "rs \<noteq> []"
  obtains out where "ks < ke"
    "emit_entries [(ks, ke), (X86_64_HANDOFF_BASE, X86_64_HANDOFF_END),
       (TRAMPOLINE_BASE, TRAMPOLINE_BASE + ts)] (mm_entries m) [] = Some out"
    "rs = merge_ranges (sort_ranges out)"
  using assms by (auto simp: pmm_arch_normalize_def not_le split: if_splits option.splits)

lemma exclusions_proper:
  assumes "ks < ke" "unat ts < 2 ^ 32"
  shows "\<forall>w \<in> set [(ks, ke), (X86_64_HANDOFF_BASE, X86_64_HANDOFF_END),
    (TRAMPOLINE_BASE, TRAMPOLINE_BASE + ts)]. fst w \<le> snd w"
proof -
  have "unat (TRAMPOLINE_BASE + ts) = unat TRAMPOLINE_BASE + unat ts"
    using assms(2) by (intro unat_add_small) (simp add: TRAMPOLINE_BASE_def)
  then have "TRAMPOLINE_BASE \<le> TRAMPOLINE_BASE + ts" by (simp add: word_le_nat_alt)
  with assms(1) show ?thesis by (simp add: X86_64_HANDOFF_BASE_def X86_64_HANDOFF_END_def)
qed

text \<open>
  C10. The translation of the firmware table is exact on 2 MiB granules: a granule belongs to
  the output with type \<open>t\<close> if and only if some entry of type \<open>t\<close> contains the whole granule and
  the granule does not touch the kernel image, the handoff pages or the trampoline. (An empty
  answer means failure; the table's entries end a granule below the top of memory.)
\<close>

theorem pmm_arch_normalize_exact:
  assumes run: "pmm_arch_normalize ks ke ts (Some m) = rs" "rs \<noteq> []"
    and fits: "list_all entry_fits (mm_entries m)" and ts: "unat ts < 2 ^ 32" and g: "2 ^ 21 dvd unat g"
  shows "holds t g rs \<longleftrightarrow>
    list_ex (\<lambda>e. e820_memory_type (e_type e) = t \<and> within g (entry_span e)) (mm_entries m)
    \<and> avoids g (ks, ke) \<and> avoids g (X86_64_HANDOFF_BASE, X86_64_HANDOFF_END)
    \<and> avoids g (TRAMPOLINE_BASE, TRAMPOLINE_BASE + ts)"
proof -
  let ?x = "[(ks, ke), (X86_64_HANDOFF_BASE, X86_64_HANDOFF_END), (TRAMPOLINE_BASE, TRAMPOLINE_BASE + ts)]"
  from run obtain out where o: "ks < ke" "emit_entries ?x (mm_entries m) [] = Some out"
    "rs = merge_ranges (sort_ranges out)"
    by (rule normalize_cases)
  have "holds t g rs \<longleftrightarrow> holds t g (sort_ranges out)"
    unfolding o(3) merge_ranges_def by (simp add: fold_merge_holds sort_ranges_sorted)
  also have "\<dots> \<longleftrightarrow> (\<exists>e \<in> set (mm_entries m). holds t g (emit_entry ?x e))"
    using emit_entries_Some [OF o(2)] by (auto simp: holds_set sort_ranges_set)
  also have "\<dots> \<longleftrightarrow> (\<exists>e \<in> set (mm_entries m). e820_memory_type (e_type e) = t
      \<and> within g (entry_span e) \<and> (\<forall>w \<in> set ?x. avoids g w))"
    by (intro bex_cong refl emit_entry_holds exclusions_proper [OF o(1) ts] g)
      (use fits in \<open>simp add: list_all_iff\<close>)
  finally show ?thesis by (auto simp: list_ex_iff)
qed


section \<open>A concrete table\<close>

text \<open>A 64 MiB machine as a firmware reports it, with the kernel image at 1 MiB.\<close>

definition demo_map :: boot_memory where
  "demo_map = \<lparr>has_memory_map = True, mm_format = 1, mm_entry_size = 20, mm_entries =
    [\<lparr>e_address = 0, e_length = 0x9FC00, e_type = 1\<rparr>,
     \<lparr>e_address = 0xF0000, e_length = 0x10000, e_type = 2\<rparr>,
     \<lparr>e_address = 0x100000, e_length = 0x3EE0000, e_type = 1\<rparr>,
     \<lparr>e_address = 0x3FE0000, e_length = 0x20000, e_type = 3\<rparr>]\<rparr>"

lemma demo_map_ranges: "pmm_arch_normalize 0x100000 0x180000 0x1000 (Some demo_map)
    = [\<lparr>mr_start = 0x200000, mr_end = 0x3E00000, mr_type = MEMORY_TYPE_RAM\<rparr>]"
  by code_simp

theorem pmm_arch_normalize_exact_witness:
  "\<not> holds MEMORY_TYPE_RAM 0 (pmm_arch_normalize 0x100000 0x180000 0x1000 (Some demo_map))
   \<and> holds MEMORY_TYPE_RAM 0x200000 (pmm_arch_normalize 0x100000 0x180000 0x1000 (Some demo_map))"
proof -
  have ne: "pmm_arch_normalize 0x100000 0x180000 0x1000 (Some demo_map) \<noteq> []"
    by (simp add: demo_map_ranges)
  have fits: "list_all entry_fits (mm_entries demo_map)" by (simp add: demo_map_def entry_fits_def)
  have c: "\<not> avoids 0 (0x60000, 0x64000)" "avoids 0x200000 (0x100000, 0x180000)"
    "avoids 0x200000 (0x60000, 0x64000)" "avoids 0x200000 (0x8000, 0x9000)"
    "list_ex (\<lambda>e. e820_memory_type (e_type e) = MEMORY_TYPE_RAM \<and> within 0x200000 (entry_span e))
       (mm_entries demo_map)"
    by (simp_all add: demo_map_def avoids_def within_def entry_span_def e820_memory_type_def)
  show ?thesis
    using pmm_arch_normalize_exact [OF refl ne fits, of 0 MEMORY_TYPE_RAM]
      pmm_arch_normalize_exact [OF refl ne fits, of "0x200000" MEMORY_TYPE_RAM] c
    by (simp add: X86_64_HANDOFF_BASE_def X86_64_HANDOFF_END_def TRAMPOLINE_BASE_def)
qed


end
