(* ===== verification/PMM_Init.thy ===== *)
theory PMM_Init
  imports PMM Memory_Map
begin

text \<open>
  \<open>pmm_init\<close> of \<^verbatim>\<open>kernel/memory/pmm.c\<close>: from the normalised memory ranges to a working frame allocator.
  The bit array starts all ones, each whole 2 MiB frame of a RAM range gets a descriptor and
  has its bit flipped to free, the boot ranges are reserved again and the zone indices are
  set. \<^term>\<open>None\<close> is each of the fatal halts.

  The architecture hooks are arguments: the range list (\<open>pmm_arch_normalize\<close>), the zone split
  (\<open>pmm_arch_zone_split\<close>) and the reservation strategy (\<open>pmm_arch_boot_reservations\<close>).
\<close>

section \<open>Step 2: the bounds of RAM\<close>

record ram_bounds =
  total_mem :: u64
  lowest_ram :: u64
  highest_ram :: u64

definition ram_step :: "memory_range \<Rightarrow> ram_bounds \<Rightarrow> ram_bounds" where
  "ram_step r b =
    (if mr_type r \<noteq> MEMORY_TYPE_RAM then b
     else let s = mr_start r; e = mr_end r;
              s_aligned = s AND NOT (MEMORY_RANGE_GRANULE - 1);
              e_aligned = (e + MEMORY_RANGE_GRANULE - 1) AND NOT (MEMORY_RANGE_GRANULE - 1) in
       \<lparr>total_mem = total_mem b + (e - s),
        lowest_ram = (if s_aligned < lowest_ram b then s_aligned else lowest_ram b),
        highest_ram = (if e_aligned > highest_ram b then e_aligned else highest_ram b)\<rparr>)"

definition compute_ram_bounds :: "memory_range list \<Rightarrow> ram_bounds" where
  "compute_ram_bounds rs =
    fold ram_step rs \<lparr>total_mem = 0, lowest_ram = - 1, highest_ram = 0\<rparr>"

section \<open>Step 4: zones\<close>

definition init_page :: "nat \<Rightarrow> u64 \<Rightarrow> page" where
  "init_page zi pa = \<lparr>zone_struct = Some zi, phy_address = pa, pg_attribute = 0,
     reference_count = 0, age = 0\<rparr>"

text \<open>The body of the loop over \<open>j\<close>; \<open>base\<close> is the index of the zone's first frame.\<close>

definition add_frame :: "nat \<Rightarrow> u64 \<Rightarrow> nat \<Rightarrow> nat \<Rightarrow> pmm \<Rightarrow> pmm" where
  "add_frame zi start base j s =
    s\<lparr>pages_struct := (pages_struct s)(base + j := init_page zi (start + push_bit 21 (of_nat j))),
      bits_map := bm_flip (bits_map s) (base + j)\<rparr>"

definition add_zone :: "u64 \<Rightarrow> u64 \<Rightarrow> u64 \<Rightarrow> pmm \<Rightarrow> pmm" where
  "add_zone lowest start stop s =
    (let zi = unat (zones_size s); n = drop_bit 21 (stop - start);
         base = unat (drop_bit 21 (start - lowest));
         z = \<lparr>pages_group = base, z_pages_length = n, zone_start_address = start,
              zone_end_address = stop, zone_length = stop - start, z_attribute = 0,
              page_using_count = 0, page_free_count = n, total_pages_link = 0\<rparr> in
     fold (add_frame zi start base) [0..<unat n]
       (s\<lparr>zones_size := zones_size s + 1, zones_struct := (zones_struct s)(zi := z)\<rparr>))"

definition zone_step :: "u64 \<Rightarrow> memory_range \<Rightarrow> pmm \<Rightarrow> pmm" where
  "zone_step lowest r s =
    (if mr_type r \<noteq> MEMORY_TYPE_RAM then s
     else let start = (mr_start r + MEMORY_RANGE_GRANULE - 1) AND NOT (MEMORY_RANGE_GRANULE - 1);
              stop = mr_end r AND NOT (MEMORY_RANGE_GRANULE - 1) in
       if stop \<le> start then s
       else if zones_size s \<ge> MAX_NR_ZONES then s
       else add_zone lowest start stop s)"

section \<open>Step 7: zone indices\<close>

definition index_step :: "u64 \<Rightarrow> nat \<Rightarrow> pmm \<Rightarrow> pmm" where
  "index_step threshold zi s =
    (if zone_start_address (zones_struct s zi) \<ge> threshold \<and> ZONE_UNMAPPED_INDEX s = 0
     then s\<lparr>ZONE_UNMAPPED_INDEX := of_nat zi,
            ZONE_NORMAL_INDEX := (if zi > 0 then of_nat zi - 1 else 0)\<rparr>
     else s)"

definition set_zone_indices :: "u64 \<Rightarrow> pmm \<Rightarrow> pmm" where
  "set_zone_indices threshold s =
    fold (index_step threshold) [0..<unat (zones_size s)]
      (s\<lparr>ZONE_DMA_INDEX := 0,
         ZONE_NORMAL_INDEX := (if zones_size s > 0 then ucast (zones_size s - 1) else 0),
         ZONE_UNMAPPED_INDEX := 0\<rparr>)"

section \<open>The function\<close>

text \<open>
  The three \<open>memset\<close> calls: the bit array of \<open>bits_length\<close> bytes is filled with ones, the page
  and zone tables with zeros; memory past them keeps its contents.
\<close>

definition zero_page :: page where
  "zero_page = \<lparr>zone_struct = None, phy_address = 0, pg_attribute = 0, reference_count = 0, age = 0\<rparr>"

definition zero_zone :: zone where
  "zero_zone = \<lparr>pages_group = 0, z_pages_length = 0, zone_start_address = 0, zone_end_address = 0,
     zone_length = 0, z_attribute = 0, page_using_count = 0, page_free_count = 0, total_pages_link = 0\<rparr>"

definition clear_tables :: "pmm_layout \<Rightarrow> u64 \<Rightarrow> pmm \<Rightarrow> pmm" where
  "clear_tables l span s =
    s\<lparr>bits_map := (\<lambda>w. if w < unat (lay_bits_length l) div 8 then - 1 else bits_map s w),
      bits_size := span, bits_length := lay_bits_length l,
      pages_struct := (\<lambda>i. if i < unat (lay_pages_length l) div 40 then zero_page else pages_struct s i),
      pages_size := span, pages_length := lay_pages_length l,
      zones_struct := (\<lambda>z. if z < unat (lay_zones_length l) div 80 then zero_zone else zones_struct s z),
      zones_size := 0, zones_length := lay_zones_length l\<rparr>"

definition PAGE_OFFSET :: u64 where "PAGE_OFFSET = 0xffff800000000000"

definition Virt_To_Phy :: "u64 \<Rightarrow> u64" where "Virt_To_Phy a = a - PAGE_OFFSET"

text \<open>The frame index of a physical address: descriptors are relative to the frame of slot 0.\<close>

definition Phy_to_2M_Page :: "pmm \<Rightarrow> u64 \<Rightarrow> nat" where
  "Phy_to_2M_Page s pa = unat (drop_bit 21 (pa - phy_address (pages_struct s 0)))"

definition pmm_init ::
  "memory_range list \<Rightarrow> u64 \<Rightarrow> (pmm_layout \<Rightarrow> errno + phys_range list) \<Rightarrow> pmm \<Rightarrow> pmm option" where
  "pmm_init ranges zone_split boot_reservations s0 =
    (if ranges = [] then None else
     let b = compute_ram_bounds ranges in
     if total_mem b = 0 then None else
     let span0 = (highest_ram b - lowest_ram b) div MEMORY_RANGE_GRANULE;
         span = (if span0 = 0 then 1 else span0);
         brk = (start_brk s0 + 0xFFF) AND NOT 0xFFF in
     case pmm_layout_calculate brk span (Some zero_layout) of
       (None, Some l) \<Rightarrow>
         if total_bytes l = 0 then None else
         let s1 = clear_tables l span s0;
             s2 = fold (zone_step (lowest_ram b)) ranges s1;
             s3 = s2\<lparr>end_of_struct := brk + end_of_struct_off l\<rparr>;
             l1 = l\<lparr>metadata_end_pa := Virt_To_Phy (end_of_struct s3)\<rparr> in
         (case boot_reservations l1 of
            Inl _ \<Rightarrow> None
          | Inr boot_ranges \<Rightarrow>
            (case pmm_reserve_boot_ranges boot_ranges s3 of
               Some (Inr (), s4) \<Rightarrow> Some (set_zone_indices zone_split s4)
             | _ \<Rightarrow> None))
     | _ \<Rightarrow> None)"

section \<open>The empty tables\<close>

lemma layout_lengths:
  assumes "pmm_layout_calculate base span (Some out0) = (None, Some l)"
  shows "unat (lay_bits_length l) = (unat span + 63) div 64 * 8"
    "unat span * 40 \<le> unat (lay_pages_length l)" "total_bytes l \<noteq> 0"
    "0 < unat (end_of_struct_off l)" "unat base + unat (end_of_struct_off l) < 2 ^ 64"
proof -
  from assms have "layout_offsets base span = Some l"
    by (auto simp: pmm_layout_calculate_def split: if_splits option.splits)
  then have "unat (lay_bits_length l) = (unat span + 63) div 64 * 8
    \<and> unat span * 40 \<le> unat (lay_pages_length l) \<and> total_bytes l \<noteq> 0
    \<and> 0 < unat (end_of_struct_off l) \<and> unat base + unat (end_of_struct_off l) < 2 ^ 64"
  proof (cases rule: layout_offsets_Some)
    case (1 bl po pl zo zl eo)
    have "unat bl = (unat span + 63) div 64 * 8" unfolding 1(2) by (rule unat_round_bits [OF 1(1)])
    moreover have "unat span * 40 \<le> unat pl"
      using align_up_checked_Some(2) [OF 1(4)] 1(3) by (simp add: unat_word_ariths)
    moreover have eo: "unat eo \<noteq> 0"
    proof -
      have "unat (zo + zl + 256) = unat (zo + zl) + 256" using 1(10) by (simp add: unat_add_small)
      moreover have "unat eo = unat (zo + zl + 256) - unat (zo + zl + 256) mod 2 ^ 3"
        unfolding 1(11) by (subst unat_and_not_mask [symmetric]) (simp add: mask_eq_decr_exp)
      moreover have "unat (zo + zl + 256) mod 2 ^ 3 < 8" by simp
      ultimately show ?thesis by linarith
    qed
    moreover note tb = align_up_checked_Some(2) [OF 1(12)]
    moreover have "total_bytes l \<noteq> 0" using tb eo by auto
    ultimately show ?thesis using 1(13,15,17,20) by simp
  qed
  then show "unat (lay_bits_length l) = (unat span + 63) div 64 * 8"
    "unat span * 40 \<le> unat (lay_pages_length l)" "total_bytes l \<noteq> 0"
    "0 < unat (end_of_struct_off l)" "unat base + unat (end_of_struct_off l) < 2 ^ 64" by simp_all
qed

section \<open>Adding a zone\<close>

lemma add_frames:
  fixes zi start base n s
  defines "s' \<equiv> fold (add_frame zi start base) [0..<n] s"
  shows "pages_struct s' = (\<lambda>i. if base \<le> i \<and> i < base + n
      then init_page zi (start + push_bit 21 (of_nat (i - base))) else pages_struct s i)"
    and "bm_test (bits_map s') = (\<lambda>i. if base \<le> i \<and> i < base + n
      then \<not> bm_test (bits_map s) i else bm_test (bits_map s) i)"
    and "zones_struct s' = zones_struct s" "zones_size s' = zones_size s" "pages_size s' = pages_size s"
    and "ZONE_DMA_INDEX s' = ZONE_DMA_INDEX s" "ZONE_NORMAL_INDEX s' = ZONE_NORMAL_INDEX s"
    and "ZONE_UNMAPPED_INDEX s' = ZONE_UNMAPPED_INDEX s"
  unfolding s'_def
  by (induction n) (auto simp: add_frame_def bm_test_flip fun_eq_iff)

text \<open>
  The state between two ranges: the invariant of the allocator without the zone indices, no
  frame in use, and the zones so far end where the frame numbering says they end.
\<close>

definition boot_ok :: "u64 \<Rightarrow> pmm \<Rightarrow> bool" where
  "boot_ok lowest s \<longleftrightarrow> unat (zones_size s) \<le> 10
     \<and> (\<forall>z<unat (zones_size s). zone_ok s z \<and> page_using_count (zones_struct s z) = 0 \<and>
          zone_hi (zones_struct s z) = (unat (zone_end_address (zones_struct s z)) - unat lowest) div 2 ^ 21)
     \<and> (\<forall>i<unat (pages_size s). page_ok s i \<and> (zone_struct (pages_struct s i) \<noteq> None \<longrightarrow>
          phy_address (pages_struct s i) = lowest + of_nat i * PAGE_2M_SIZE))"

lemma count_clear_all: "(\<And>i. lo \<le> i \<Longrightarrow> i < hi \<Longrightarrow> \<not> P i) \<Longrightarrow> count_clear P lo hi = hi - lo"
  unfolding count_clear_def by (subst filter_True) auto

lemma zone_ok_cong:
  assumes "zone_ok s z" "zones_struct s' z = zones_struct s z" "pages_size s' = pages_size s"
    and "\<And>i. pages_group (zones_struct s z) \<le> i \<Longrightarrow> i < zone_hi (zones_struct s z) \<Longrightarrow>
      bm_test (bits_map s') i = bm_test (bits_map s) i \<and> pages_struct s' i = pages_struct s i"
  shows "zone_ok s' z"
proof -
  have "count_clear (bm_test (bits_map s')) (pages_group (zones_struct s z)) (zone_hi (zones_struct s z))
    = count_clear (bm_test (bits_map s)) (pages_group (zones_struct s z)) (zone_hi (zones_struct s z))"
    by (rule count_clear_cong) (use assms(4) in simp)
  then show ?thesis using assms unfolding zone_ok_def Let_def list_all_iff by auto
qed

lemma unat_shift_sub:
  assumes "b \<le> (a :: u64)"
  shows "unat (drop_bit 21 (a - b)) = (unat a - unat b) div 2 ^ 21"
  by (simp only: drop_bit_unat unat_sub_small [OF assms])

lemma aligned_div_diff:
  fixes a b c :: nat
  assumes "d dvd a" "d dvd b" "d dvd c" "c \<le> b" "b \<le> a" "0 < d"
  shows "(b - c) div d + (a - b) div d = (a - c) div d" "b div d + (a - b) div d = a div d"
proof -
  from assms obtain i j k where "a = d * i" "b = d * j" "c = d * k" by (auto elim!: dvdE)
  with assms(4-6) show "(b - c) div d + (a - b) div d = (a - c) div d" "b div d + (a - b) div d = a div d"
    by (simp_all flip: diff_mult_distrib2)
qed

text \<open>The frames of a new zone above all zones so far were holes; the zone is complete.\<close>

lemma add_zone_ok:
  assumes ok: "boot_ok lowest s" and sz: "unat (zones_size s) < 10"
    and al: "2 ^ 21 dvd unat lowest" "2 ^ 21 dvd unat start" "2 ^ 21 dvd unat stop"
    and ord: "lowest \<le> start" "start < stop"
    and room: "(unat stop - unat lowest) div 2 ^ 21 \<le> unat (pages_size s)"
    and above: "\<forall>z<unat (zones_size s). zone_end_address (zones_struct s z) \<le> start"
  defines "s' \<equiv> add_zone lowest start stop s"
  shows "boot_ok lowest s'" "unat (zones_size s') = Suc (unat (zones_size s))" "pages_size s' = pages_size s"
    "\<forall>z<unat (zones_size s'). zone_end_address (zones_struct s' z) \<le> stop"
    "zone_struct (pages_struct s 0) \<noteq> None \<or> start = lowest \<Longrightarrow> zone_struct (pages_struct s' 0) \<noteq> None"
proof -
  define zi where "zi = unat (zones_size s)"
  define n where "n = (unat stop - unat start) div 2 ^ 21"
  define base where "base = (unat start - unat lowest) div 2 ^ 21"
  have le: "unat lowest \<le> unat start" "unat start < unat stop"
    using ord by (simp_all add: word_le_nat_alt word_less_nat_alt)
  have bn: "base + n = (unat stop - unat lowest) div 2 ^ 21" "unat start div 2 ^ 21 + n = unat stop div 2 ^ 21"
    using aligned_div_diff [OF al(3,2,1)] le by (simp_all add: base_def n_def)
  define z where "z = \<lparr>pages_group = base, z_pages_length = drop_bit 21 (stop - start), zone_start_address = start,
    zone_end_address = stop, zone_length = stop - start, z_attribute = 0,
    page_using_count = 0, page_free_count = drop_bit 21 (stop - start), total_pages_link = 0\<rparr>"
  have n: "unat (drop_bit 21 (stop - start)) = n" using ord by (simp only: unat_shift_sub less_imp_le n_def)
  have b: "unat (drop_bit 21 (start - lowest)) = base" using ord by (simp only: unat_shift_sub base_def)
  let ?s0 = "s\<lparr>zones_size := zones_size s + 1, zones_struct := (zones_struct s)(zi := z)\<rparr>"
  have s': "s' = fold (add_frame zi start base) [0..<n] ?s0"
    unfolding s'_def add_zone_def Let_def b n z_def zi_def ..
  note eff = add_frames [of zi start base n ?s0, folded s']
  have zs: "unat (zones_size s') = Suc zi"
    using sz eff(4) by (simp add: zi_def unat_add_small)
  have hi: "zone_hi z = base + n" by (simp add: zone_hi_def z_def n)
  have old: "zone_hi (zones_struct s y) \<le> base" if "y < zi" for y
    using that above ok unfolding boot_ok_def base_def zi_def word_le_nat_alt
    by (simp add: div_le_mono diff_le_mono)
  have hole: "zone_struct (pages_struct s i) = None" "bm_test (bits_map s) i"
    if "base \<le> i" "i < base + n" for i
  proof -
    have "i < unat (pages_size s)" using that(2) room bn(1) by linarith
    then have "page_ok s i" using ok by (simp add: boot_ok_def)
    moreover from this have "zone_struct (pages_struct s i) \<noteq> Some y" for y
      using that(1) old [of y] by (auto simp: page_ok_def zi_def)
    ultimately show "zone_struct (pages_struct s i) = None" "bm_test (bits_map s) i"
      by (cases "zone_struct (pages_struct s i)"; simp add: page_ok_def)+
  qed
  show "unat (zones_size s') = Suc (unat (zones_size s))" "pages_size s' = pages_size s"
    using zs eff(5) by (simp_all add: zi_def)
  show "\<forall>y<unat (zones_size s'). zone_end_address (zones_struct s' y) \<le> stop"
    using above ord unfolding zs eff(3) by (auto simp: z_def zi_def less_Suc_eq)
  have "2 ^ 21 dvd unat stop - unat start" "0 < unat stop - unat start" using al le by simp_all
  then have "0 < n" by (auto simp: n_def dvd_imp_le div_greater_zero_iff)
  then show "zone_struct (pages_struct s' 0) \<noteq> None"
    if "zone_struct (pages_struct s 0) \<noteq> None \<or> start = lowest"
    using that by (auto simp: eff(1) init_page_def base_def)
  have "zone_stop z = base + n"
  proof -
    have small: "unat x div 2 ^ 21 < 2 ^ 43" for x :: u64
      using unat_less_2p64 [of x] by (simp add: div_less_iff_less_mult)
    have "base \<le> unat start div 2 ^ 21" unfolding base_def by (rule div_le_mono) simp
    with small [of start] have base: "base < 2 ^ 43" by linarith
    then have "unat (of_nat base :: u64) = base" by (simp add: unsigned_of_nat take_bit_nat_eq_self)
    with base small [of stop] have sum: "unat (of_nat base + drop_bit 21 stop :: u64) = base + unat stop div 2 ^ 21"
      by (subst unat_add_small) (simp_all add: drop_bit_unat)
    have "unat start div 2 ^ 21 \<le> base + unat stop div 2 ^ 21" using bn(2) by linarith
    with sum have "unat (of_nat base + drop_bit 21 stop - drop_bit 21 start :: u64)
        = base + unat stop div 2 ^ 21 - unat start div 2 ^ 21"
      by (subst unat_sub_small) (simp_all add: drop_bit_unat word_le_nat_alt)
    then show ?thesis using bn(2) by (simp add: zone_stop_def z_def)
  qed
  moreover have "count_clear (bm_test (bits_map s')) base (base + n) = n"
    using count_clear_all [of base "base + n" "bm_test (bits_map s')"] hole(2) by (simp add: eff(2))
  ultimately have new: "zone_ok s' zi"
    using room bn(1) eff(3,5)
    by (simp add: zone_ok_def Let_def hi, simp add: z_def n eff(1) init_page_def list_all_iff PAGE_2M_SIZE_def push_bit_eq_mult)
  have other: "zone_ok s' y" if "y < zi" for y
  proof (rule zone_ok_cong)
    show "zone_ok s y" using ok that by (simp add: boot_ok_def zi_def)
    show "zones_struct s' y = zones_struct s y" "pages_size s' = pages_size s" using that eff(3,5) by simp_all
    show "bm_test (bits_map s') i = bm_test (bits_map s) i \<and> pages_struct s' i = pages_struct s i"
      if "i < zone_hi (zones_struct s y)" for i
      using that old [OF \<open>y < zi\<close>] by (simp add: eff(1,2))
  qed
  have "page_ok s' i" if "i < unat (pages_size s)" for i
  proof (cases "base \<le> i \<and> i < base + n")
    case True
    then show ?thesis using zs by (simp add: page_ok_def eff(1,3) init_page_def hi, simp add: z_def)
  next
    case False
    have "page_ok s i" using ok that by (simp add: boot_ok_def)
    with False zs show ?thesis
      by (auto simp: page_ok_def eff(1,2,3) zi_def split: option.splits)
  qed
  moreover have "zone_hi (zones_struct s' y) = (unat (zone_end_address (zones_struct s' y)) - unat lowest) div 2 ^ 21"
    if "y < Suc zi" for y
    using that ok bn(1) hi unfolding eff(3) by (auto simp: boot_ok_def zi_def z_def less_Suc_eq)
  moreover have "phy_address (pages_struct s' i) = lowest + of_nat i * PAGE_2M_SIZE"
    if "i < unat (pages_size s)" "zone_struct (pages_struct s' i) \<noteq> None" for i
  proof (cases "base \<le> i \<and> i < base + n")
    case True
    have "unat start = unat lowest + base * 2 ^ 21"
      using al(1,2) le(1) by (simp add: base_def)
    then have "of_nat (unat start) = (of_nat (unat lowest + base * 2 ^ 21) :: u64)" by simp
    then have "start = lowest + of_nat base * 2 ^ 21" by simp
    with True show ?thesis
      by (simp add: eff(1) init_page_def PAGE_2M_SIZE_def push_bit_eq_mult of_nat_diff algebra_simps)
  next
    case False
    then have "pages_struct s' i = pages_struct s i" by (auto simp: eff(1))
    with that ok show ?thesis by (simp add: boot_ok_def)
  qed
  moreover have "page_using_count (zones_struct s' y) = 0" if "y < Suc zi" for y
    using that ok unfolding eff(3) by (auto simp: boot_ok_def zi_def z_def less_Suc_eq)
  ultimately show "boot_ok lowest s'"
    using new other sz eff(5) unfolding boot_ok_def zs by (auto simp: less_Suc_eq zi_def)
qed

section \<open>All ranges\<close>

text \<open>What the architecture adapter delivers for a RAM range; rounding does not change it.\<close>

definition ram_fits :: "memory_range \<Rightarrow> bool" where
  "ram_fits r = (range_shape r \<and> unat (mr_end r) + 2 ^ 21 \<le> 2 ^ 64)"

lemma round_aligned:
  assumes "2 ^ 21 dvd unat v"
  shows "v AND NOT (MEMORY_RANGE_GRANULE - 1) = v"
    "unat v + 2 ^ 21 \<le> 2 ^ 64 \<Longrightarrow> (v + MEMORY_RANGE_GRANULE - 1) AND NOT (MEMORY_RANGE_GRANULE - 1) = v"
proof -
  have "unat (round_down v MEMORY_RANGE_GRANULE) = unat v"
    using assms by (simp add: unat_round_down)
  then have "round_down v MEMORY_RANGE_GRANULE = v" by (simp add: word_unat_eq_iff)
  then show "v AND NOT (MEMORY_RANGE_GRANULE - 1) = v" by (simp add: round_down_def)
  assume "unat v + 2 ^ 21 \<le> 2 ^ 64"
  note u = round_up_bounds [OF this]
  have "unat (round_up v MEMORY_RANGE_GRANULE) = unat v"
    using u(1) u(3) [OF assms] by simp
  then have "round_up v MEMORY_RANGE_GRANULE = v" by (simp add: word_unat_eq_iff)
  then show "(v + MEMORY_RANGE_GRANULE - 1) AND NOT (MEMORY_RANGE_GRANULE - 1) = v"
    by (simp add: round_up_def)
qed

lemma ram_fitsD:
  assumes "ram_fits r"
  shows "mr_start r < mr_end r" "2 ^ 21 dvd unat (mr_start r)" "2 ^ 21 dvd unat (mr_end r)"
    "unat (mr_start r) + 2 ^ 21 \<le> 2 ^ 64" "unat (mr_end r) + 2 ^ 21 \<le> 2 ^ 64"
  using assms by (auto simp: ram_fits_def range_shape_def word_less_nat_alt)

lemma zone_step_fits:
  assumes "ram_fits r"
  shows "zone_step lowest r s = (if mr_type r \<noteq> MEMORY_TYPE_RAM \<or> zones_size s \<ge> MAX_NR_ZONES then s
     else add_zone lowest (mr_start r) (mr_end r) s)"
  using ram_fitsD [OF assms] by (auto simp: zone_step_def round_aligned Let_def not_le)

lemma add_zone_indices:
  "ZONE_DMA_INDEX (add_zone l a b s) = ZONE_DMA_INDEX s"
  "ZONE_NORMAL_INDEX (add_zone l a b s) = ZONE_NORMAL_INDEX s"
  "ZONE_UNMAPPED_INDEX (add_zone l a b s) = ZONE_UNMAPPED_INDEX s"
  by (simp_all add: add_zone_def Let_def add_frames)

lemma zone_steps_ok:
  assumes "boot_ok lowest s" "2 ^ 21 dvd unat lowest" "apart rs" "\<forall>r \<in> set rs. ram_fits r"
    and "\<forall>r \<in> set rs. mr_type r = MEMORY_TYPE_RAM \<longrightarrow>
      lowest \<le> mr_start r \<and> (unat (mr_end r) - unat lowest) div 2 ^ 21 \<le> unat (pages_size s)"
    and "\<forall>z<unat (zones_size s). \<forall>r \<in> set rs. zone_end_address (zones_struct s z) \<le> mr_start r"
    and "(unat (zones_size s) = 0 \<and> (\<exists>r \<in> set rs. mr_type r = MEMORY_TYPE_RAM \<and> mr_start r = lowest))
      \<or> zone_struct (pages_struct s 0) \<noteq> None"
  defines "s' \<equiv> fold (zone_step lowest) rs s"
  shows "boot_ok lowest s' \<and> pages_size s' = pages_size s
    \<and> unat (zones_size s) \<le> unat (zones_size s')
    \<and> ((\<exists>r \<in> set rs. mr_type r = MEMORY_TYPE_RAM) \<longrightarrow> 0 < unat (zones_size s'))
    \<and> ZONE_DMA_INDEX s' = ZONE_DMA_INDEX s \<and> ZONE_NORMAL_INDEX s' = ZONE_NORMAL_INDEX s
    \<and> ZONE_UNMAPPED_INDEX s' = ZONE_UNMAPPED_INDEX s \<and> zone_struct (pages_struct s' 0) \<noteq> None"
  unfolding s'_def using assms(1,3-7)
proof (induction rs arbitrary: s)
  case (Cons r rs)
  note fits = Cons.prems(3) [rule_format, of r, simplified] and step = zone_step_fits [of r lowest s]
  show ?case
  proof (cases "mr_type r \<noteq> MEMORY_TYPE_RAM \<or> zones_size s \<ge> MAX_NR_ZONES")
    case True
    have "0 < unat (zones_size s)" if "mr_type r = MEMORY_TYPE_RAM"
      using True that by (simp add: MAX_NR_ZONES_def word_le_nat_alt)
    moreover from this True Cons.prems(6)
    have "(unat (zones_size s) = 0 \<and> (\<exists>r \<in> set rs. mr_type r = MEMORY_TYPE_RAM \<and> mr_start r = lowest))
      \<or> zone_struct (pages_struct s 0) \<noteq> None" by auto
    ultimately show ?thesis using True step fits Cons.prems(1-5) Cons.IH [of s] by auto
  next
    case False
    let ?s1 = "add_zone lowest (mr_start r) (mr_end r) s"
    have "unat (zones_size s) < 10" using False by (simp add: MAX_NR_ZONES_def word_le_nat_alt not_le)
    note az = add_zone_ok [OF Cons.prems(1) this assms(2) ram_fitsD(2,3) [OF fits] _ ram_fitsD(1) [OF fits]]
    have az': "boot_ok lowest ?s1" "unat (zones_size ?s1) = Suc (unat (zones_size s))"
      "pages_size ?s1 = pages_size s" "\<forall>z<unat (zones_size ?s1). zone_end_address (zones_struct ?s1 z) \<le> mr_end r"
      by (rule az; use Cons.prems(4,5) False in simp)+
    have "mr_start r' \<noteq> lowest" if "r' \<in> set rs" for r'
    proof -
      have "mr_end r \<le> mr_start r'" "lowest \<le> mr_start r" "mr_start r < mr_end r"
        using that Cons.prems(2,4) False ram_fitsD(1) [OF fits] by auto
      then show ?thesis by auto
    qed
    then have z0: "zone_struct (pages_struct s 0) \<noteq> None \<or> mr_start r = lowest"
      using Cons.prems(6) by auto
    have "zone_struct (pages_struct ?s1 0) \<noteq> None"
      by (rule az(5)) (use Cons.prems(4,5) False z0 in simp_all)
    moreover have "\<forall>z<unat (zones_size ?s1). \<forall>r' \<in> set rs. zone_end_address (zones_struct ?s1 z) \<le> mr_start r'"
      using az'(4) Cons.prems(2) by (meson order_trans sorted_wrt.simps(2))
    ultimately show ?thesis using Cons.IH [of ?s1] Cons.prems(1-5) az' False step fits
      by (simp add: add_zone_indices)
  qed
qed simp

lemma boot_ok_clear:
  assumes ok: "boot_ok lowest s" and i: "i < unat (pages_size s)"
  shows "bm_test (bits_map s) i \<longleftrightarrow> zone_struct (pages_struct s i) = None"
proof (cases "zone_struct (pages_struct s i)")
  case None
  with assms show ?thesis by (auto simp: boot_ok_def page_ok_def dest!: spec [of _ i])
next
  case (Some z)
  let ?z = "zones_struct s z"
  have "page_ok s i" using assms by (simp add: boot_ok_def)
  with Some have z: "z < unat (zones_size s)" "i \<in> set [pages_group ?z..<zone_hi ?z]" by (auto simp: page_ok_def)
  then have "zone_ok s z" "page_using_count ?z = 0" using ok by (simp_all add: boot_ok_def)
  then have "count_clear (bm_test (bits_map s)) (pages_group ?z) (zone_hi ?z) = zone_hi ?z - pages_group ?z"
    by (simp add: zone_ok_def Let_def zone_hi_def)
  then have "\<not> bm_test (bits_map s) i"
    using length_filter_less [OF z(2), of "\<lambda>i. \<not> bm_test (bits_map s) i"]
    by (auto simp: count_clear_def simp del: set_upt)
  with Some show ?thesis by simp
qed

lemma clear_tables_ok:
  assumes "pmm_layout_calculate base span (Some out0) = (None, Some l)"
  shows "boot_ok lowest (clear_tables l span s)"
proof -
  note len = layout_lengths [OF assms]
  have "page_ok (clear_tables l span s) i \<and> zone_struct (pages_struct (clear_tables l span s) i) = None"
    if "i < unat span" for i
  proof -
    have "i < unat (lay_pages_length l) div 40" 
      using that len(2) less_eq_div_iff_mult_less_eq [of 40 "Suc i" "unat (lay_pages_length l)"] by linarith
    moreover have "i div 64 < (unat span + 63) div 64" using that by (simp add: div_less_iff_less_mult)
    then have "i div 64 < unat (lay_bits_length l) div 8" using len(1) by simp
    ultimately show ?thesis
      by (simp add: page_ok_def clear_tables_def zero_page_def bm_test_bit bit_simps)
  qed
  moreover have "unat (zones_size (clear_tables l span s)) = 0" "pages_size (clear_tables l span s) = span"
    by (simp_all add: clear_tables_def)
  ultimately show ?thesis by (simp add: boot_ok_def)
qed

section \<open>The bounds of RAM\<close>

lemma ram_bounds_fold:
  assumes "apart rs" "\<forall>r \<in> set rs. ram_fits r" "unat (total_mem b0) \<le> unat (highest_ram b0)"
    "\<forall>r \<in> set rs. highest_ram b0 \<le> mr_start r"
  defines "b \<equiv> fold ram_step rs b0"
  shows "(\<forall>r \<in> set rs. mr_type r = MEMORY_TYPE_RAM \<longrightarrow> lowest_ram b \<le> mr_start r \<and> mr_end r \<le> highest_ram b)
    \<and> (lowest_ram b = lowest_ram b0 \<or> (\<exists>r \<in> set rs. mr_type r = MEMORY_TYPE_RAM \<and> mr_start r = lowest_ram b)) \<and> lowest_ram b \<le> lowest_ram b0
    \<and> (highest_ram b = highest_ram b0 \<or> (\<exists>r \<in> set rs. highest_ram b = mr_end r)) \<and> highest_ram b0 \<le> highest_ram b
    \<and> unat (total_mem b) \<le> unat (highest_ram b) \<and> unat (total_mem b0) \<le> unat (total_mem b)
    \<and> ((\<exists>r \<in> set rs. mr_type r = MEMORY_TYPE_RAM) \<longrightarrow> 0 < unat (total_mem b))"
  unfolding b_def using assms(1-4)
proof (induction rs arbitrary: b0)
  case (Cons r rs)
  note fits = Cons.prems(2) [rule_format, of r, simplified]
  show ?case
  proof (cases "mr_type r = MEMORY_TYPE_RAM")
    case False
    then have "ram_step r b0 = b0" by (simp add: ram_step_def)
    with False Cons.prems Cons.IH [of b0] show ?thesis by auto
  next
    case True
    note f = ram_fitsD [OF fits]
    let ?b1 = "ram_step r b0"
    have hs: "highest_ram b0 \<le> mr_start r" using Cons.prems(4) by simp
    then have b1: "?b1 = \<lparr>total_mem = total_mem b0 + (mr_end r - mr_start r),
        lowest_ram = min (mr_start r) (lowest_ram b0), highest_ram = mr_end r\<rparr>"
      using True f by (auto simp: ram_step_def round_aligned Let_def min_def not_less)
    have le: "unat (mr_start r) < unat (mr_end r)" "unat (highest_ram b0) \<le> unat (mr_start r)"
      using f(1) hs by (simp_all add: word_less_nat_alt word_le_nat_alt)
    have d: "unat (mr_end r - mr_start r) = unat (mr_end r) - unat (mr_start r)"
      using f(1) by (intro unat_sub_small) simp
    have "unat (total_mem ?b1) = unat (total_mem b0) + (unat (mr_end r) - unat (mr_start r))"
      using le Cons.prems(3) d unat_less_2p64 [of "mr_end r"] unfolding b1 by (simp add: unat_add_small)
    then have t: "unat (total_mem ?b1) \<le> unat (highest_ram ?b1)" "0 < unat (total_mem ?b1)"
      "unat (total_mem b0) \<le> unat (total_mem ?b1)"
      using le Cons.prems(3) by (simp_all add: b1)
    have "\<forall>r' \<in> set rs. highest_ram ?b1 \<le> mr_start r'" using Cons.prems(1) by (simp add: b1)
    note ih = Cons.IH [OF _ _ t(1) this]
    let ?b = "fold ram_step rs ?b1"
    from ih Cons.prems(1,2) have
      all: "\<forall>r \<in> set rs. mr_type r = MEMORY_TYPE_RAM \<longrightarrow> lowest_ram ?b \<le> mr_start r \<and> mr_end r \<le> highest_ram ?b"
      and low: "lowest_ram ?b = lowest_ram ?b1 \<or> (\<exists>r \<in> set rs. mr_type r = MEMORY_TYPE_RAM \<and> mr_start r = lowest_ram ?b)" "lowest_ram ?b \<le> lowest_ram ?b1"
      and high: "highest_ram ?b = highest_ram ?b1 \<or> (\<exists>r \<in> set rs. highest_ram ?b = mr_end r)" "highest_ram ?b1 \<le> highest_ram ?b"
      and tot: "unat (total_mem ?b) \<le> unat (highest_ram ?b)" "unat (total_mem ?b1) \<le> unat (total_mem ?b)"
      by simp_all
    from low(2) have "lowest_ram ?b \<le> mr_start r" "lowest_ram ?b \<le> lowest_ram b0" by (simp_all add: b1)
    moreover have "lowest_ram ?b1 = mr_start r \<or> lowest_ram ?b1 = lowest_ram b0" by (auto simp: b1 min_def)
    moreover have "highest_ram b0 \<le> highest_ram ?b" "mr_end r \<le> highest_ram ?b"
      using high(2) hs f(1) by (auto simp: b1)
    ultimately show ?thesis using all low(1) high(1) tot t True by (auto simp: b1)
  qed
qed simp

section \<open>Zone indices\<close>

lemma pmm_wf_indices:
  assumes "pmm_wf s" "unat n < unat (zones_size s)" "unat u < unat (zones_size s)"
  shows "pmm_wf (s\<lparr>ZONE_DMA_INDEX := 0, ZONE_NORMAL_INDEX := n, ZONE_UNMAPPED_INDEX := u\<rparr>)"
proof -
  let ?s' = "s\<lparr>ZONE_DMA_INDEX := 0, ZONE_NORMAL_INDEX := n, ZONE_UNMAPPED_INDEX := u\<rparr>"
  have "zone_ok ?s' = zone_ok s" "page_ok ?s' = page_ok s"
    by (rule ext, simp add: zone_ok_def page_ok_def split: option.split)+
  with assms show ?thesis by (simp add: pmm_wf_def)
qed

lemma index_steps:
  assumes "\<forall>z \<in> set zs. z < k" "k \<le> 10" "unat n < k" "unat u < k"
  shows "\<exists>n' u'. fold (index_step th) zs (s\<lparr>ZONE_DMA_INDEX := 0, ZONE_NORMAL_INDEX := n, ZONE_UNMAPPED_INDEX := u\<rparr>)
      = s\<lparr>ZONE_DMA_INDEX := 0, ZONE_NORMAL_INDEX := n', ZONE_UNMAPPED_INDEX := u'\<rparr>
    \<and> unat n' < k \<and> unat u' < k"
  using assms(1,3,4)
proof (induction zs arbitrary: n u)
  case (Cons z zs)
  let ?s = "s\<lparr>ZONE_DMA_INDEX := 0, ZONE_NORMAL_INDEX := n, ZONE_UNMAPPED_INDEX := u\<rparr>"
  have z: "unat (of_nat z :: u32) = z"
    using Cons.prems(1) assms(2) by (simp add: unsigned_of_nat take_bit_nat_eq_self)
  have "z \<noteq> 0 \<Longrightarrow> (of_nat z :: u32) \<noteq> 0" using z by auto
  then have "z \<noteq> 0 \<Longrightarrow> unat (of_nat z - 1 :: u32) = z - 1" using z by (simp add: unat_minus_1)
  then have y: "unat (if z > 0 then of_nat z - 1 else 0 :: u32) < k" using Cons.prems(1) by auto
  show ?case
  proof (cases "zone_start_address (zones_struct s z) \<ge> th \<and> u = 0")
    case True
    then have "index_step th z ?s = s\<lparr>ZONE_DMA_INDEX := 0,
        ZONE_NORMAL_INDEX := (if z > 0 then of_nat z - 1 else 0), ZONE_UNMAPPED_INDEX := of_nat z\<rparr>"
      by (simp add: index_step_def)
    with Cons.IH [OF _ y] Cons.prems(1) z show ?thesis by simp
  next
    case False
    then have "index_step th z ?s = ?s" by (auto simp: index_step_def)
    with Cons show ?thesis by simp
  qed
next
  case Nil
  then show ?case unfolding fold.simps id_apply by blast
qed

lemma set_zone_indices_wf:
  assumes wf: "pmm_wf s"
  shows "pmm_wf (set_zone_indices th s) \<and> bits_map (set_zone_indices th s) = bits_map s
    \<and> pages_struct (set_zone_indices th s) = pages_struct s \<and> pages_size (set_zone_indices th s) = pages_size s"
proof -
  let ?k = "unat (zones_size s)"
  have k: "0 < ?k" "?k \<le> 10" using wf by (simp_all add: pmm_wf_def)
  then have "zones_size s \<noteq> 0" by auto
  then have "unat (zones_size s - 1) = ?k - 1" by (simp add: unat_minus_1)
  moreover from this k have "unat (ucast (zones_size s - 1) :: u32) = unat (zones_size s - 1)"
    by (simp add: unsigned_ucast_eq take_bit_nat_eq_self)
  ultimately have "unat (if zones_size s > 0 then ucast (zones_size s - 1) else 0 :: u32) < ?k" using k by simp
  then have "\<exists>n u. set_zone_indices th s
      = s\<lparr>ZONE_DMA_INDEX := 0, ZONE_NORMAL_INDEX := n, ZONE_UNMAPPED_INDEX := u\<rparr>
    \<and> unat n < ?k \<and> unat u < ?k"
    unfolding set_zone_indices_def by (intro index_steps k(2)) (use k(1) in simp_all)
  then obtain n u where
    "set_zone_indices th s = s\<lparr>ZONE_DMA_INDEX := 0, ZONE_NORMAL_INDEX := n, ZONE_UNMAPPED_INDEX := u\<rparr>"
    "unat n < ?k" "unat u < ?k" by blast
  with pmm_wf_indices [OF wf] show ?thesis by simp
qed

section \<open>Initialisation establishes the invariant\<close>

lemma pmm_wf_of_boot:
  assumes "boot_ok lowest s" "0 < unat (zones_size s)"
    "ZONE_DMA_INDEX s = 0" "ZONE_NORMAL_INDEX s = 0" "ZONE_UNMAPPED_INDEX s = 0"
  shows "pmm_wf (s\<lparr>end_of_struct := e\<rparr>)"
proof -
  let ?s' = "s\<lparr>end_of_struct := e\<rparr>"
  have "zone_ok ?s' = zone_ok s" "page_ok ?s' = page_ok s"
    by (rule ext, simp add: zone_ok_def page_ok_def split: option.split)+
  with assms show ?thesis by (simp add: pmm_wf_def boot_ok_def list_all_iff)
qed

lemma brk_bounds:
  assumes "unat (b :: u64) + 0xFFF < 2 ^ 64"
  shows "unat b \<le> unat ((b + 0xFFF) AND NOT 0xFFF)" "unat ((b + 0xFFF) AND NOT 0xFFF) \<le> unat b + 0xFFF"
proof -
  have m: "(0xFFF :: u64) = mask 12" by (simp add: mask_eq_decr_exp)
  have "unat (b + 0xFFF) = unat b + 0xFFF" using assms by (subst unat_add_small) simp_all
  then have eq: "unat ((b + 0xFFF) AND NOT 0xFFF) = unat b + 0xFFF - (unat b + 0xFFF) mod 2 ^ 12"
    unfolding m unat_and_not_mask by (simp flip: m)
  moreover have "(unat b + 0xFFF) mod 2 ^ 12 < 2 ^ 12" by (rule mod_less_divisor) simp
  ultimately show "unat b \<le> unat ((b + 0xFFF) AND NOT 0xFFF)" "unat ((b + 0xFFF) AND NOT 0xFFF) \<le> unat b + 0xFFF"
    by simp_all
qed

lemma reserve_ok:
  assumes wf: "pmm_wf s" and ok: "list_all range_ok ranges"
  obtains s' where "pmm_reserve_boot_ranges ranges s = Some (Inr (), s')" "pmm_wf s'" "same_geom s s'"
    "\<forall>k<unat (pages_size s). bm_test (bits_map s') k = (bm_test (bits_map s) k \<or> wanted ranges s k)"
proof (cases "ranges = []")
  case True
  with wf that [of s] show ?thesis by (simp add: pmm_reserve_boot_ranges_def wanted_def pa_in_ranges_def)
next
  case False
  from reserve_walk_wf [OF wf, of "[0..<unat (pages_size s)]" ranges]
  obtain s' where "reserve_walk ranges [0..<unat (pages_size s)] s = Some s'" "pmm_wf s'" "same_geom s s'"
    "\<forall>k. bm_test (bits_map s') k =
      (bm_test (bits_map s) k \<or> (k \<in> set [0..<unat (pages_size s)] \<and> wanted ranges s k))" by auto
  with False ok that [of s'] show ?thesis by (simp add: pmm_reserve_boot_ranges_def)
qed

text \<open>The bounds of a non-empty list of RAM ranges below \<open>2^60\<close>.\<close>

lemma ram_bounds:
  assumes "apart rs" "\<forall>r \<in> set rs. range_shape r \<and> unat (mr_end r) \<le> 2 ^ 60"
    "\<exists>r \<in> set rs. mr_type r = MEMORY_TYPE_RAM"
  defines "b \<equiv> compute_ram_bounds rs"
  shows "total_mem b \<noteq> 0" "2 ^ 21 dvd unat (lowest_ram b)" "lowest_ram b \<le> highest_ram b"
    "unat (highest_ram b) \<le> 2 ^ 60"
    "\<forall>r \<in> set rs. mr_type r = MEMORY_TYPE_RAM \<longrightarrow> lowest_ram b \<le> mr_start r \<and> mr_end r \<le> highest_ram b"
    "\<exists>r \<in> set rs. mr_type r = MEMORY_TYPE_RAM \<and> mr_start r = lowest_ram b"
proof -
  let ?b0 = "\<lparr>total_mem = 0, lowest_ram = - 1, highest_ram = 0\<rparr>"
  have fits: "\<forall>r \<in> set rs. ram_fits r" using assms(2) by (auto simp: ram_fits_def)
  note B = ram_bounds_fold [OF assms(1) fits, of ?b0, folded compute_ram_bounds_def b_def, simplified]
  show "total_mem b \<noteq> 0" using B assms(3) by auto
  show all: "\<forall>r \<in> set rs. mr_type r = MEMORY_TYPE_RAM \<longrightarrow> lowest_ram b \<le> mr_start r \<and> mr_end r \<le> highest_ram b"
    using B by blast
  from assms(3) obtain r where r: "r \<in> set rs" "mr_type r = MEMORY_TYPE_RAM" by blast
  with fits have f: "ram_fits r" by blast
  from all r have lr: "lowest_ram b \<le> mr_start r" "mr_end r \<le> highest_ram b" by blast+
  with ram_fitsD(1) [OF f] show "lowest_ram b \<le> highest_ram b" by auto
  have "lowest_ram b \<noteq> - 1"
    using lr(1) ram_fitsD(4) [OF f] by (auto simp: word_le_nat_alt unat_max)
  then obtain q where q: "q \<in> set rs" "mr_type q = MEMORY_TYPE_RAM" "mr_start q = lowest_ram b" using B by blast
  then show "\<exists>r \<in> set rs. mr_type r = MEMORY_TYPE_RAM \<and> mr_start r = lowest_ram b" by blast
  from q fits show "2 ^ 21 dvd unat (lowest_ram b)" using ram_fitsD(2) by metis
  show "unat (highest_ram b) \<le> 2 ^ 60" using B assms(2) by auto
qed


text \<open>The weak default strategy, called as \<open>pmm_init\<close> calls it (room for four ranges).\<close>

definition default_reservations :: "pmm_layout \<Rightarrow> errno + phys_range list" where
  "default_reservations l =
    (case pmm_arch_boot_reservations (Some l) True 4 True of
       Inl e \<Rightarrow> Inl e | Inr (count, ranges) \<Rightarrow> Inr ranges)"

lemma default_reservations_ok:
  assumes "0 < unat (metadata_end_pa l)" "unat (metadata_end_pa l) < 2 ^ 47"
  shows "\<exists>br. default_reservations l = Inr br \<and> list_all range_ok br"
proof -
  let ?e = "round_up (metadata_end_pa l) MEMORY_RANGE_GRANULE"
  have G: "PAGE_2M_SIZE = MEMORY_RANGE_GRANULE" by (simp add: PAGE_2M_SIZE_def MEMORY_RANGE_GRANULE_def)
  have "unat (metadata_end_pa l) \<le> unat ?e" using assms(2) by (intro round_up_bounds(1)) simp
  with assms(1) have "\<not> ?e \<le> 0" by (auto simp: word_le_nat_alt)
  moreover have "?e AND (MEMORY_RANGE_GRANULE - 1) = 0"
    unfolding round_up_def granule by (rule bit_word_eqI) (auto simp: bit_simps)
  ultimately show ?thesis
    by (simp add: default_reservations_def pmm_arch_boot_reservations_def range_ok_def G flip: round_up_def)
qed


end
