(* ===== verification/Subpage.thy ===== *)
theory Subpage
  imports PMM
begin

text \<open>
  The 4 KiB subpage allocator of \<^verbatim>\<open>kernel/memory/pmm.c\<close>: 2 MiB frames taken from the frame allocator
  are split into 512 slots tracked by a bit array; slot 0 holds the pool descriptor itself.
  Each slot carries a copy-on-write reference count.

  The pools are kept in the order of the list \<open>subpage_pools\<close>. Every function runs under
  \<open>subpage_lock\<close>, so it is one atomic step.
\<close>

section \<open>State\<close>

definition SUBPAGE_4K_COUNT :: nat where "SUBPAGE_4K_COUNT = 512"
definition PAGE_4K_SIZE :: u64 where "PAGE_4K_SIZE = 0x1000"

record subpage_pool =
  base_phys :: u64
  sp_bitmap :: "nat \<Rightarrow> u64"
  alloc_count :: u32
  cow_count :: "nat \<Rightarrow> u16"

record subpages =
  pools :: "subpage_pool list"
  frame_mgr :: pmm

section \<open>Finding the pool of an address\<close>

definition pool_has :: "u64 \<Rightarrow> subpage_pool \<Rightarrow> bool" where
  "pool_has phys p = (phys \<ge> base_phys p \<and> phys < base_phys p + PAGE_2M_SIZE)"

fun find_pool_locked :: "u64 \<Rightarrow> subpage_pool list \<Rightarrow> subpage_pool option" where
  "find_pool_locked phys [] = None"
| "find_pool_locked phys (p # ps) = (if pool_has phys p then Some p else find_pool_locked phys ps)"

text \<open>Writing through the pointer that \<^const>\<open>find_pool_locked\<close> returned.\<close>

fun upd_pool :: "u64 \<Rightarrow> (subpage_pool \<Rightarrow> subpage_pool) \<Rightarrow> subpage_pool list \<Rightarrow> subpage_pool list" where
  "upd_pool phys f [] = []"
| "upd_pool phys f (p # ps) = (if pool_has phys p then f p # ps else p # upd_pool phys f ps)"

definition slot_of :: "u64 \<Rightarrow> subpage_pool \<Rightarrow> nat" where
  "slot_of phys p = unat (drop_bit 12 (phys - base_phys p))"

section \<open>Copy-on-write counts\<close>

definition page_cow_get :: "u64 \<Rightarrow> subpages \<Rightarrow> subpages" where
  "page_cow_get phys s = s\<lparr>pools := upd_pool phys
     (\<lambda>p. p\<lparr>cow_count := (cow_count p)(slot_of phys p := cow_count p (slot_of phys p) + 1)\<rparr>) (pools s)\<rparr>"

definition page_cow_put :: "u64 \<Rightarrow> subpages \<Rightarrow> bool \<times> subpages" where
  "page_cow_put phys s =
    (case find_pool_locked phys (pools s) of None \<Rightarrow> (False, s)
     | Some p \<Rightarrow>
       if cow_count p (slot_of phys p) > 0 then
         (cow_count p (slot_of phys p) - 1 = 0,
          s\<lparr>pools := upd_pool phys
            (\<lambda>p. p\<lparr>cow_count := (cow_count p)(slot_of phys p := cow_count p (slot_of phys p) - 1)\<rparr>) (pools s)\<rparr>)
       else (False, s))"

definition page_cow_refs :: "u64 \<Rightarrow> subpages \<Rightarrow> u16" where
  "page_cow_refs phys s =
    (case find_pool_locked phys (pools s) of None \<Rightarrow> 0 | Some p \<Rightarrow> cow_count p (slot_of phys p))"

definition pmm_4k_page_allocated :: "u64 \<Rightarrow> subpages \<Rightarrow> bool" where
  "pmm_4k_page_allocated phys s =
    (if phys = 0 \<or> phys AND (PAGE_4K_SIZE - 1) \<noteq> 0 then False
     else case find_pool_locked phys (pools s) of None \<Rightarrow> False
     | Some p \<Rightarrow> let slot = unat ((phys - base_phys p) div PAGE_4K_SIZE) in
         slot > 0 \<and> slot < SUBPAGE_4K_COUNT \<and> bm_test (sp_bitmap p) slot)"

section \<open>Allocation and release\<close>

text \<open>\<open>__builtin_ctzll\<close>: the number of trailing zero bits of a word that is not 0.\<close>

definition ctz :: "u64 \<Rightarrow> nat" where
  "ctz w = length (takeWhile (\<lambda>n. \<not> bit w n) [0..<64])"

text \<open>The loop over the words of a pool: the first slot whose bit is clear.\<close>

definition pool_free_slot :: "subpage_pool \<Rightarrow> nat option" where
  "pool_free_slot p =
    map_option (\<lambda>i. i * 64 + ctz (NOT (sp_bitmap p i))) (List.find (\<lambda>i. sp_bitmap p i \<noteq> - 1) [0..<8])"

definition pool_take :: "nat \<Rightarrow> subpage_pool \<Rightarrow> subpage_pool" where
  "pool_take slot p = p\<lparr>sp_bitmap := bm_set (sp_bitmap p) slot, alloc_count := alloc_count p + 1,
     cow_count := (cow_count p)(slot := 0)\<rparr>"

fun alloc_in_pools :: "subpage_pool list \<Rightarrow> (u64 \<times> subpage_pool list) option" where
  "alloc_in_pools [] = None"
| "alloc_in_pools (p # ps) =
    (case (if unat (alloc_count p) < SUBPAGE_4K_COUNT then pool_free_slot p else None) of
       Some slot \<Rightarrow> Some (base_phys p + of_nat slot * PAGE_4K_SIZE, pool_take slot p # ps)
     | None \<Rightarrow> map_option (\<lambda>(phys, ps'). (phys, p # ps')) (alloc_in_pools ps))"

text \<open>
  A fresh pool: only the bit array (eight words; no later word is ever read), the count and
  the count of slot 1 are written; \<open>junk\<close> is what the frame held where \<open>cow_count\<close> lies.
\<close>

definition new_pool :: "u64 \<Rightarrow> (nat \<Rightarrow> u16) \<Rightarrow> subpage_pool" where
  "new_pool base junk =
    \<lparr>base_phys = base,
     sp_bitmap = bm_set (bm_set (\<lambda>_. 0) 0) 1,
     alloc_count = 2, cow_count = junk(1 := 0)\<rparr>"

text \<open>The result is 0 if no memory is left; \<^term>\<open>None\<close> is undefined behaviour of the frame allocator.\<close>

definition alloc_4k_page ::
  "(u64 \<Rightarrow> nat \<Rightarrow> u16) \<Rightarrow> subpages \<Rightarrow> (u64 \<times> subpages) option" where
  "alloc_4k_page junk s =
    (case alloc_in_pools (pools s) of
       Some (phys, ps) \<Rightarrow> Some (phys, s\<lparr>pools := ps\<rparr>)
     | None \<Rightarrow>
       (case alloc_pages ZONE_NORMAL 1 (frame_mgr s) of
          None \<Rightarrow> None
        | Some (None, m) \<Rightarrow> Some (0, s\<lparr>frame_mgr := m\<rparr>)
        | Some (Some pg, m) \<Rightarrow>
            let base = phy_address (pages_struct m pg) in
            Some (base + PAGE_4K_SIZE,
              s\<lparr>pools := new_pool base (junk base) # pools s, frame_mgr := m\<rparr>)))"

definition pool_release :: "u64 \<Rightarrow> subpage_pool \<Rightarrow> subpage_pool" where
  "pool_release phys p =
    (let slot = unat (ucast ((phys - base_phys p) div PAGE_4K_SIZE) :: u32) in
     if slot < SUBPAGE_4K_COUNT \<and> bm_test (sp_bitmap p) slot
     then p\<lparr>sp_bitmap := bm_clear (sp_bitmap p) slot, alloc_count := alloc_count p - 1\<rparr> else p)"

definition free_4k_page :: "u64 \<Rightarrow> subpages \<Rightarrow> subpages" where
  "free_4k_page phys s =
    (if phys = 0 then s else s\<lparr>pools := upd_pool phys (pool_release phys) (pools s)\<rparr>)"

section \<open>Finding a free slot\<close>

lemma ctz_props:
  assumes "w \<noteq> 0"
  shows "ctz w < 64" "bit w (ctz w)" "\<And>j. j < ctz w \<Longrightarrow> \<not> bit w j"
proof -
  let ?t = "takeWhile (\<lambda>n. \<not> bit w n) [0..<64]"
  obtain n where n: "n < 64" "bit w n"
    using assms by (auto simp: bit_eq_iff dest: bit_imp_le_length)
  have less: "length ?t < length [0..<64 :: nat]"
  proof (rule ccontr)
    assume "\<not> ?thesis"
    then have "?t = [0..<64]" using length_takeWhile_le takeWhile_eq_all_conv
      by (metis le_antisym not_le take_all takeWhile_eq_take)
    with n show False by (metis atLeastLessThan_iff le0 set_upt takeWhile_eq_all_conv)
  qed
  then show "ctz w < 64" by (simp add: ctz_def)
  from nth_length_takeWhile [OF less] less show "bit w (ctz w)" by (simp add: ctz_def)
  show "\<not> bit w j" if "j < ctz w" for j
  proof -
    have "j < 64" using that less by (simp add: ctz_def)
    then have "j = ?t ! j" using that by (simp add: ctz_def takeWhile_nth)
    moreover have "?t ! j \<in> set ?t" using that by (simp add: ctz_def)
    ultimately show ?thesis using set_takeWhileD by metis
  qed
qed

lemma bm_test_word: "k < 64 \<Longrightarrow> bm_test m (i * 64 + k) \<longleftrightarrow> bit (m i) k"
  by (simp add: bm_test_bit)

lemma word_all_ones: "w = (- 1 :: u64) \<Longrightarrow> k < 64 \<Longrightarrow> bit w k"
  by (simp add: bit_simps)

lemma pool_free_slot_Some:
  assumes "pool_free_slot p = Some slot"
  shows "slot < 512" "\<not> bm_test (sp_bitmap p) slot" "\<And>k. k < slot \<Longrightarrow> bm_test (sp_bitmap p) k"
proof -
  from assms obtain i where i: "List.find (\<lambda>i. sp_bitmap p i \<noteq> - 1) [0..<8] = Some i"
    and slot: "slot = i * 64 + ctz (NOT (sp_bitmap p i))" by (auto simp: pool_free_slot_def)
  note f = find_upt_Some [OF i]
  have "NOT (sp_bitmap p i) \<noteq> 0" using f(3) by (metis bit.double_compl bit.compl_zero)
  note c = ctz_props [OF this]
  show "slot < 512" using f(2) c(1) slot by simp
  show "\<not> bm_test (sp_bitmap p) slot" using c(1,2) by (simp add: slot bm_test_word bit_not_iff)
  fix k assume k: "k < slot"
  have m: "k mod 64 < 64" by simp
  show "bm_test (sp_bitmap p) k"
  proof (cases "k div 64 < i")
    case True
    then have "sp_bitmap p (k div 64) = - 1" using f(4) [of "k div 64"] by simp
    then show ?thesis using word_all_ones m by (simp add: bm_test_bit)
  next
    case False
    have "k div 64 \<le> i" using k c(1) slot by (simp add: less_mult_imp_div_less not_le [symmetric])
    with False have d: "k div 64 = i" by simp
    then have "k mod 64 < ctz (NOT (sp_bitmap p i))" using k slot div_mult_mod_eq [of k 64] by simp
    with c(3) d m show ?thesis by (simp add: bm_test_bit bit_not_iff)
  qed
qed

lemma pool_free_slot_None:
  assumes "pool_free_slot p = None" "k < 512"
  shows "bm_test (sp_bitmap p) k"
proof -
  have "k div 64 < 8" using assms(2) by simp
  then have "sp_bitmap p (k div 64) = - 1"
    using assms(1) by (auto simp: pool_free_slot_def find_None_iff)
  then show ?thesis using word_all_ones [of _ "k mod 64"] by (simp add: bm_test_bit)
qed

section \<open>The invariant\<close>

text \<open>
  A pool sits in a frame that is in use, its descriptor's slot is taken, and the count agrees
  with the bit array.
\<close>

definition pool_ok :: "pmm \<Rightarrow> subpage_pool \<Rightarrow> bool" where
  "pool_ok m p = (list_ex (\<lambda>i. zone_struct (pages_struct m i) \<noteq> None \<and> bm_test (bits_map m) i
        \<and> base_phys p = phy_address (pages_struct m i)) [0..<unat (pages_size m)]
     \<and> bm_test (sp_bitmap p) 0
     \<and> unat (alloc_count p) + count_clear (bm_test (sp_bitmap p)) 0 512 = 512)"

definition sp_wf :: "u64 \<Rightarrow> subpages \<Rightarrow> bool" where
  "sp_wf lowest s = (pmm_wf (frame_mgr s) \<and> linear_frames lowest (frame_mgr s)
     \<and> 2 ^ 21 dvd unat lowest
     \<and> list_all (pool_ok (frame_mgr s)) (pools s) \<and> distinct (map base_phys (pools s)))"

text \<open>A pool's address range, in natural numbers: it starts on a multiple of 2 MiB and does not wrap.\<close>

definition pool_room :: "subpage_pool \<Rightarrow> bool" where
  "pool_room p = (2 ^ 21 dvd unat (base_phys p) \<and> unat (base_phys p) + 2 ^ 21 < 2 ^ 64)"

lemma sp_wf_room:
  assumes "sp_wf lowest s" "p \<in> set (pools s)"
  shows "pool_room p"
proof -
  from assms obtain i where i: "i < unat (pages_size (frame_mgr s))" "zone_struct (pages_struct (frame_mgr s) i) \<noteq> None"
    "base_phys p = phy_address (pages_struct (frame_mgr s) i)"
    by (auto simp: sp_wf_def list_all_iff pool_ok_def list_ex_iff)
  have "linear_frames lowest (frame_mgr s)" "2 ^ 21 dvd unat lowest" using assms(1) by (simp_all add: sp_wf_def)
  with linear_frames_unat [OF _ i(1,2)] show ?thesis unfolding pool_room_def i(3) by simp
qed

lemma pool_has_unat:
  assumes "pool_room p"
  shows "pool_has phys p \<longleftrightarrow> unat (base_phys p) \<le> unat phys \<and> unat phys < unat (base_phys p) + 2 ^ 21"
proof -
  have "unat (base_phys p + PAGE_2M_SIZE) = unat (base_phys p) + 2 ^ 21"
    using assms by (subst unat_add_small) (simp_all add: pool_room_def PAGE_2M_SIZE_def)
  then show ?thesis by (simp add: pool_has_def word_le_nat_alt word_less_nat_alt)
qed

lemma pool_has_unique:
  assumes "pool_room p" "pool_room q" "pool_has phys p" "pool_has phys q"
  shows "base_phys p = base_phys q"
proof -
  let ?a = "unat (base_phys p)" and ?b = "unat (base_phys q)"
  have r: "?a \<le> unat phys" "unat phys < ?a + 2 ^ 21" "?b \<le> unat phys" "unat phys < ?b + 2 ^ 21"
    using assms by (simp_all add: pool_has_unat)
  have d: "2 ^ 21 dvd ?a" "2 ^ 21 dvd ?b" using assms by (simp_all add: pool_room_def)
  have "\<not> ?a < ?b" using aligned_step [OF d] r by linarith
  moreover have "\<not> ?b < ?a" using aligned_step [OF d(2,1)] r by linarith
  ultimately have "?a = ?b" by linarith
  then show ?thesis by (simp add: word_unat_eq_iff)
qed

text \<open>The address of slot \<open>k\<close> and back.\<close>

definition slot_addr :: "subpage_pool \<Rightarrow> nat \<Rightarrow> u64" where
  "slot_addr p k = base_phys p + of_nat k * PAGE_4K_SIZE"

lemma slot_addr_unat:
  assumes "pool_room p" "k < 512"
  shows "unat (slot_addr p k) = unat (base_phys p) + k * 4096"
proof -
  have "unat (of_nat k :: u64) = k" using assms(2) by (simp add: unsigned_of_nat take_bit_nat_eq_self)
  then have "unat (of_nat k * PAGE_4K_SIZE :: u64) = k * 4096"
    using assms(2) by (simp add: PAGE_4K_SIZE_def unat_word_ariths)
  then show ?thesis
    using assms by (simp add: slot_addr_def pool_room_def unat_add_small)
qed

lemma slot_addr_props:
  assumes "pool_room p" "k < 512"
  shows "pool_has (slot_addr p k) p" "slot_of (slot_addr p k) p = k"
    "unat ((slot_addr p k - base_phys p) div PAGE_4K_SIZE) = k"
    "unat (ucast ((slot_addr p k - base_phys p) div PAGE_4K_SIZE) :: u32) = k"
    "slot_addr p k AND (PAGE_4K_SIZE - 1) = 0"
proof -
  note u = slot_addr_unat [OF assms]
  show "pool_has (slot_addr p k) p" using assms u by (simp add: pool_has_unat)
  have "unat (slot_addr p k - base_phys p) = k * 4096"
    using u by (subst unat_sub_small) (simp_all add: word_le_nat_alt)
  then show s: "slot_of (slot_addr p k) p = k"
    and d: "unat ((slot_addr p k - base_phys p) div PAGE_4K_SIZE) = k"
    by (simp_all add: slot_of_def drop_bit_unat unat_div PAGE_4K_SIZE_def)
  with assms(2) show "unat (ucast ((slot_addr p k - base_phys p) div PAGE_4K_SIZE) :: u32) = k"
    by (simp add: unsigned_ucast_eq take_bit_nat_eq_self)
  have m: "PAGE_4K_SIZE - 1 = mask 12" by (simp add: PAGE_4K_SIZE_def mask_eq_decr_exp)
  have "(2 :: nat) ^ 12 dvd unat (base_phys p)"
    using assms(1) by (auto simp: pool_room_def elim!: dvd_trans [rotated])
  then have "unat (slot_addr p k) mod 2 ^ 12 = 0" unfolding u by (simp add: mod_eq_0_iff_dvd)
  then have "unat (take_bit 12 (slot_addr p k)) = 0"
    unfolding unat_take_bit_mod .
  then show "slot_addr p k AND (PAGE_4K_SIZE - 1) = 0"
    unfolding m take_bit_eq_mask [symmetric] by (simp add: unat_eq_0)
qed

section \<open>Lists of pools\<close>

text \<open>In a list of pools with different bases an address selects one pool.\<close>

lemma pool_list_both:
  assumes "distinct (map base_phys ps)" "\<forall>q \<in> set ps. pool_room q" "p \<in> set ps" "pool_has phys p"
  shows "find_pool_locked phys ps = Some p \<and>
    upd_pool phys f ps = map (\<lambda>q. if base_phys q = base_phys p then f q else q) ps"
  using assms
proof (induction ps)
  case (Cons q qs)
  have q: "pool_has phys q \<longleftrightarrow> base_phys q = base_phys p"
    using Cons.prems pool_has_unique [of q p phys] by (auto simp: pool_has_def)
  show ?case
  proof (cases "base_phys q = base_phys p")
    case True
    have "q = p" using True Cons.prems(1,3) by (auto simp: image_iff)
    moreover have "map (\<lambda>q. if base_phys q = base_phys p then f q else q) qs = qs"
      using True Cons.prems(1) by (intro map_idI) (auto simp: image_iff)
    ultimately show ?thesis using q True by simp
  next
    case False
    with q Cons show ?thesis by auto
  qed
qed simp

lemmas pool_list = pool_list_both [THEN conjunct1] pool_list_both [THEN conjunct2]

lemma find_pool_locked_Some: "find_pool_locked phys ps = Some p \<Longrightarrow> p \<in> set ps \<and> pool_has phys p"
  by (induction ps) (auto split: if_splits)

text \<open>The pages in use, as a predicate on the pools.\<close>

definition page_used :: "subpage_pool list \<Rightarrow> u64 \<Rightarrow> bool" where
  "page_used ps phys \<longleftrightarrow> (\<exists>p \<in> set ps. \<exists>k. 0 < k \<and> k < 512 \<and> phys = slot_addr p k \<and> bm_test (sp_bitmap p) k)"

lemma sp_wf_pools:
  assumes "sp_wf lowest s"
  shows "distinct (map base_phys (pools s))" "\<forall>q \<in> set (pools s). pool_room q"
    "\<And>p. p \<in> set (pools s) \<Longrightarrow> pool_ok (frame_mgr s) p"
  using assms sp_wf_room [OF assms] by (auto simp: sp_wf_def list_all_iff)

lemma slot_addr_inj:
  assumes "pool_room p" "pool_room q" "j < 512" "k < 512" "slot_addr p j = slot_addr q k"
  shows "base_phys p = base_phys q \<and> j = k"
proof -
  have b: "base_phys p = base_phys q"
    using pool_has_unique [OF assms(1,2) slot_addr_props(1) [OF assms(1,3)]] slot_addr_props(1) [OF assms(2,4)] assms(5)
    by simp
  with assms slot_addr_unat [OF assms(1,3)] slot_addr_unat [OF assms(2,4)] show ?thesis by simp
qed

lemma addr_slot:
  assumes "pool_room p" "pool_has phys p" "phys AND (PAGE_4K_SIZE - 1) = 0"
  shows "\<exists>k<512. phys = slot_addr p k"
proof -
  let ?b = "unat (base_phys p)"
  have r: "?b \<le> unat phys" "unat phys < ?b + 2 ^ 21" using assms by (simp_all add: pool_has_unat)
  have "(2 :: nat) ^ 12 dvd ?b" using assms(1) by (auto simp: pool_room_def elim!: dvd_trans [rotated])
  moreover have m: "PAGE_4K_SIZE - 1 = mask 12" by (simp add: PAGE_4K_SIZE_def mask_eq_decr_exp)
  from assms(3) have "unat (take_bit 12 phys) = 0" unfolding m take_bit_eq_mask [symmetric] by simp
  then have "2 ^ 12 dvd unat phys" unfolding unat_take_bit_mod by (rule mod_0_imp_dvd)
  ultimately have "2 ^ 12 dvd unat phys - ?b" by simp
  then obtain k where k: "unat phys - ?b = 2 ^ 12 * k" by (elim dvdE)
  with r have "k < 512" by simp
  moreover from k r have "unat phys = unat (slot_addr p k)"
    using slot_addr_unat [OF assms(1) \<open>k < 512\<close>] by simp
  ultimately show ?thesis by (auto simp: word_unat_eq_iff)
qed

lemma allocated_iff:
  assumes wf: "sp_wf lowest s"
  shows "pmm_4k_page_allocated phys s \<longleftrightarrow> page_used (pools s) phys"
proof
  note P = sp_wf_pools [OF wf]
  assume a: "pmm_4k_page_allocated phys s"
  then obtain p where p: "find_pool_locked phys (pools s) = Some p" "phys AND (PAGE_4K_SIZE - 1) = 0"
    by (auto simp: pmm_4k_page_allocated_def split: if_splits option.splits)
  from find_pool_locked_Some [OF p(1)] have q: "p \<in> set (pools s)" "pool_has phys p" by simp_all
  from P(2) q(1) addr_slot [OF _ q(2) p(2)] obtain k where k: "k < 512" "phys = slot_addr p k" by blast
  with a p slot_addr_props(3) [of p k] P(2) q(1) show "page_used (pools s) phys"
    by (auto simp: pmm_4k_page_allocated_def page_used_def split: if_splits)
next
  note P = sp_wf_pools [OF wf]
  assume "page_used (pools s) phys"
  then obtain p k where p: "p \<in> set (pools s)" "0 < k" "k < 512" "phys = slot_addr p k" "bm_test (sp_bitmap p) k"
    by (auto simp: page_used_def)
  have room: "pool_room p" using P(2) p(1) by blast
  note A = slot_addr_props [OF room p(3), folded p(4)]
  have "unat phys \<noteq> 0" using slot_addr_unat [OF room p(3)] p(2,4) by simp
  then have "phys \<noteq> 0" by auto
  with A pool_list(1) [OF P(1,2) p(1) A(1)] p show "pmm_4k_page_allocated phys s"
    by (simp add: pmm_4k_page_allocated_def SUBPAGE_4K_COUNT_def Let_def)
qed

lemma find_upd_split:
  assumes "find_pool_locked phys ps = Some p"
  shows "\<exists>xs ys. ps = xs @ p # ys \<and> upd_pool phys f ps = xs @ f p # ys"
  using assms
proof (induction ps)
  case (Cons q qs)
  show ?case
  proof (cases "pool_has phys q")
    case True
    with Cons.prems show ?thesis by (intro exI [of _ "[]"] exI [of _ qs]) simp
  next
    case False
    with Cons obtain xs ys where "qs = xs @ p # ys" "upd_pool phys f qs = xs @ f p # ys" by auto
    with False show ?thesis by (intro exI [of _ "q # xs"] exI [of _ ys]) simp
  qed
qed simp

lemma page_used_replace:
  "page_used (xs @ p # ys) phys \<longleftrightarrow> page_used (xs @ ys) phys
     \<or> (\<exists>k. 0 < k \<and> k < 512 \<and> phys = slot_addr p k \<and> bm_test (sp_bitmap p) k)"
  unfolding page_used_def by auto

lemma page_unused_elsewhere:
  assumes "distinct (map base_phys (xs @ p # ys))" "\<forall>q \<in> set (xs @ p # ys). pool_room q" "k < 512"
  shows "\<not> page_used (xs @ ys) (slot_addr p k)"
proof
  assume "page_used (xs @ ys) (slot_addr p k)"
  then obtain q j where q: "q \<in> set (xs @ ys)" "j < 512" "slot_addr p k = slot_addr q j"
    by (auto simp: page_used_def)
  then have "base_phys p = base_phys q"
    using slot_addr_inj [of p q k j] assms(2,3) by auto
  with q(1) assms(1) show False by (auto simp: image_iff)
qed

text \<open>Setting or clearing one slot keeps the count exact.\<close>

lemma pool_ok_take:
  assumes "pool_ok m p" "slot < 512" "\<not> bm_test (sp_bitmap p) slot"
  shows "pool_ok m (pool_take slot p)"
proof -
  have c: "Suc (count_clear (bm_test (bm_set (sp_bitmap p) slot)) 0 512) = count_clear (bm_test (sp_bitmap p)) 0 512"
    using assms by (intro bm.count_mark) simp_all
  moreover have "unat (alloc_count p) + count_clear (bm_test (sp_bitmap p)) 0 512 = 512"
    using assms(1) by (simp add: pool_ok_def)
  ultimately have "unat (alloc_count p) < 512" by linarith
  then have "unat (alloc_count p + 1) = unat (alloc_count p) + 1" by (intro unat_plus_one [of _ 512]) simp_all
  with assms c show ?thesis by (simp add: pool_ok_def pool_take_def bm_test_set)
qed

lemma pool_ok_clear:
  assumes "pool_ok m p" "0 < slot" "slot < 512" "bm_test (sp_bitmap p) slot"
  shows "pool_ok m (p\<lparr>sp_bitmap := bm_clear (sp_bitmap p) slot, alloc_count := alloc_count p - 1\<rparr>)"
proof -
  have c: "count_clear (bm_test (bm_clear (sp_bitmap p) slot)) 0 512 = Suc (count_clear (bm_test (sp_bitmap p)) 0 512)"
    using assms by (intro bm.count_unmark) simp_all
  have "count_clear (bm_test (bm_clear (sp_bitmap p) slot)) 0 512 \<le> 512" by (metis count_clear_le diff_zero)
  with c have "alloc_count p \<noteq> 0" using assms(1) by (auto simp: pool_ok_def)
  then have "unat (alloc_count p - 1) = unat (alloc_count p) - 1" "0 < unat (alloc_count p)"
    by (simp_all add: unat_minus_1 unat_gt_0)
  with assms c show ?thesis by (simp add: pool_ok_def bm_test_clear)
qed

lemma pool_ok_frames:
  assumes "pool_ok m p" "same_geom m m'" "\<And>i. bm_test (bits_map m) i \<Longrightarrow> bm_test (bits_map m') i"
  shows "pool_ok m' p"
  using assms unfolding pool_ok_def list_ex_iff same_geomD [OF assms(2)] by blast

lemma alloc_in_pools_Some:
  assumes "alloc_in_pools ps = Some (phys, ps')"
  obtains xs p ys slot where "ps = xs @ p # ys" "ps' = xs @ pool_take slot p # ys"
    "phys = slot_addr p slot" "pool_free_slot p = Some slot"
  using assms
proof (induction ps arbitrary: ps' thesis)
  case (Cons q qs)
  show ?case
  proof (cases "if unat (alloc_count q) < SUBPAGE_4K_COUNT then pool_free_slot q else None")
    case (Some slot)
    with Cons.prems show ?thesis
      by (intro Cons.prems(1) [of "[]" q qs slot]) (auto simp: slot_addr_def split: if_splits)
  next
    case None
    with Cons.prems(2) obtain qs' where qs': "alloc_in_pools qs = Some (phys, qs')" "ps' = q # qs'" by auto
    from Cons.IH [OF _ qs'(1)] obtain xs p ys slot where "qs = xs @ p # ys" "qs' = xs @ pool_take slot p # ys"
      "phys = slot_addr p slot" "pool_free_slot p = Some slot" by blast
    with qs'(2) show ?thesis by (intro Cons.prems(1) [of "q # xs" p ys slot]) simp_all
  qed
qed simp

lemma alloc_in_pools_None:
  assumes "alloc_in_pools ps = None" "\<forall>p \<in> set ps. pool_ok m p" "p \<in> set ps" "k < 512"
  shows "bm_test (sp_bitmap p) k"
  using assms
proof (induction ps)
  case (Cons q qs)
  have none: "(if unat (alloc_count q) < SUBPAGE_4K_COUNT then pool_free_slot q else None) = None"
    "alloc_in_pools qs = None"
    using Cons.prems(1) by (auto split: option.splits)
  show ?case
  proof (cases "p = q")
    case True
    have "\<not> unat (alloc_count q) < 512 \<Longrightarrow> count_clear (bm_test (sp_bitmap q)) 0 512 = 0"
      using Cons.prems(2) by (auto simp: pool_ok_def)
    then show ?thesis
      using none(1) True Cons.prems(4) pool_free_slot_None [of q k] count_clear_pos [of "bm_test (sp_bitmap q)" 0 512]
      by (auto simp: SUBPAGE_4K_COUNT_def split: if_splits)
  next
    case False
    with Cons none(2) show ?thesis by simp
  qed
qed simp

section \<open>The allocator is correct\<close>

lemma sp_wf_replace:
  assumes "sp_wf lowest s" "pools s = xs @ p # ys" "base_phys p' = base_phys p" "pool_ok (frame_mgr s) p'"
  shows "sp_wf lowest (s\<lparr>pools := xs @ p' # ys\<rparr>)"
  using assms by (auto simp: sp_wf_def list_all_iff)

lemma pool_take_simps [simp]:
  "base_phys (pool_take slot p) = base_phys p"
  "sp_bitmap (pool_take slot p) = bm_set (sp_bitmap p) slot"
  "cow_count (pool_take slot p) = (cow_count p)(slot := 0)"
  "slot_addr (pool_take slot p) k = slot_addr p k"
  by (simp_all add: pool_take_def slot_addr_def)

lemma alloc_old_pool:
  assumes wf: "sp_wf lowest s" and run: "alloc_in_pools (pools s) = Some (phys, ps)"
  defines "s' \<equiv> s\<lparr>pools := ps\<rparr>"
  shows "sp_wf lowest s' \<and> phys \<noteq> 0 \<and> \<not> page_used (pools s) phys
    \<and> (\<forall>q. page_used (pools s') q \<longleftrightarrow> q = phys \<or> page_used (pools s) q) \<and> page_cow_refs phys s' = 0"
proof -
  from run obtain xs p ys slot where ps: "pools s = xs @ p # ys" "ps = xs @ pool_take slot p # ys"
    "phys = slot_addr p slot" "pool_free_slot p = Some slot" by (rule alloc_in_pools_Some)
  note free = pool_free_slot_Some [OF ps(4)] and P = sp_wf_pools [OF wf]
  have ok: "pool_ok (frame_mgr s) p" and room: "pool_room p" using P(2,3) ps(1) by auto
  have pos: "0 < slot" using ok free(2) by (auto simp: pool_ok_def intro: gr0I)
  have wf': "sp_wf lowest s'"
    unfolding s'_def ps(2) by (rule sp_wf_replace [OF wf ps(1)]) (use pool_ok_take [OF ok free(1,2)] in simp_all)
  have "\<not> page_used (xs @ ys) phys"
    unfolding ps(3) using P(1,2) free(1) unfolding ps(1) by (rule page_unused_elsewhere)
  moreover have "\<not> (\<exists>k. 0 < k \<and> k < 512 \<and> phys = slot_addr p k \<and> bm_test (sp_bitmap p) k)"
    using slot_addr_inj [OF room room free(1)] free(2) ps(3) by auto
  ultimately have unused: "\<not> page_used (pools s) phys" unfolding ps(1) page_used_replace by blast
  have "page_used (pools s') q \<longleftrightarrow> q = phys \<or> page_used (pools s) q" for q
    using pos free(1) unfolding s'_def ps(1,2,3) by (auto simp: page_used_replace bm_test_set)
  moreover have "unat phys \<noteq> 0" using slot_addr_unat [OF room free(1)] pos ps(3) by simp
  then have "phys \<noteq> 0" by auto
  moreover have "page_cow_refs phys s' = 0"
  proof -
    note P' = sp_wf_pools [OF wf']
    have "pool_take slot p \<in> set (pools s')" by (simp add: s'_def ps(2))
    moreover have "pool_has phys (pool_take slot p)"
      using slot_addr_props(1) [OF room free(1)] by (simp add: ps(3) pool_has_def)
    ultimately have "find_pool_locked phys (pools s') = Some (pool_take slot p)"
      by (rule pool_list(1) [OF P'(1,2)])
    moreover have "slot_of phys (pool_take slot p) = slot"
      using slot_addr_props(2) [OF room free(1)] by (simp add: ps(3) slot_of_def)
    ultimately show ?thesis by (simp add: page_cow_refs_def)
  qed
  ultimately show ?thesis using wf' unused by blast
qed

lemma new_pool_ok:
  assumes "list_ex (\<lambda>i. zone_struct (pages_struct m i) \<noteq> None \<and> bm_test (bits_map m) i
      \<and> base = phy_address (pages_struct m i)) [0..<unat (pages_size m)]"
  shows "pool_ok m (new_pool base junk)"
proof -
  let ?z = "(\<lambda>_. 0) :: nat \<Rightarrow> u64"
  have z: "\<not> bm_test ?z i" for i by (simp add: bm_test_bit)
  have "count_clear (bm_test ?z) 0 512 = 512"
    unfolding count_clear_def using z by (subst filter_True) simp_all
  moreover have "Suc (count_clear (bm_test (bm_set ?z 0)) 0 512) = count_clear (bm_test ?z) 0 512"
    using z by (intro bm.count_mark) simp_all
  moreover have "Suc (count_clear (bm_test (bm_set (bm_set ?z 0) 1)) 0 512) = count_clear (bm_test (bm_set ?z 0)) 0 512"
    using z by (intro bm.count_mark) (simp_all add: bm_test_set)
  ultimately have "count_clear (bm_test (bm_set (bm_set ?z 0) 1)) 0 512 = 510" by linarith
  with assms show ?thesis by (simp add: pool_ok_def new_pool_def bm_test_set)
qed

lemma alloc_new_pool:
  fixes junk :: "u64 \<Rightarrow> nat \<Rightarrow> u16"
  assumes wf: "sp_wf lowest s" and run: "alloc_pages ZONE_NORMAL 1 (frame_mgr s) = Some (Some pg, m)"
  defines "base \<equiv> phy_address (pages_struct m pg)"
  defines "s' \<equiv> s\<lparr>pools := new_pool base (junk base) # pools s, frame_mgr := m\<rparr>"
  shows "sp_wf lowest s' \<and> base + PAGE_4K_SIZE \<noteq> 0 \<and> \<not> page_used (pools s) (base + PAGE_4K_SIZE)
    \<and> (\<forall>q. page_used (pools s') q \<longleftrightarrow> q = base + PAGE_4K_SIZE \<or> page_used (pools s) q)
    \<and> page_cow_refs (base + PAGE_4K_SIZE) s' = 0"
proof -
  let ?f = "frame_mgr s" and ?n = "new_pool base (junk base)" and ?phys = "base + PAGE_4K_SIZE"
  have lin: "linear_frames lowest ?f" and fwf: "pmm_wf ?f" using wf by (simp_all add: sp_wf_def)
  from alloc_normal [OF fwf] run have m: "pmm_wf m" "same_geom ?f m" "pg < unat (pages_size ?f)"
    "zone_struct (pages_struct ?f pg) \<noteq> None" "\<not> bm_test (bits_map ?f) pg"
    "bm_test (bits_map m) = (bm_test (bits_map ?f))(pg := True)" by auto
  note D = same_geomD [OF m(2)] and P = sp_wf_pools [OF wf]
  have base: "base = phy_address (pages_struct ?f pg)" by (simp add: base_def D)
  have ok: "pool_ok m ?n"
    by (rule new_pool_ok) (use m(3,4,6) in \<open>auto simp: list_ex_iff base_def D\<close>)
  have fresh: "base \<noteq> base_phys q" if "q \<in> set (pools s)" for q
  proof
    assume eq: "base = base_phys q"
    from P(3) [OF that] obtain j where j: "j < unat (pages_size ?f)" "zone_struct (pages_struct ?f j) \<noteq> None"
      "bm_test (bits_map ?f) j" "base_phys q = phy_address (pages_struct ?f j)"
      by (auto simp: pool_ok_def list_ex_iff)
    from eq j(4) base have "unat (phy_address (pages_struct ?f pg)) = unat (phy_address (pages_struct ?f j))"
      by metis
    then have "unat lowest + pg * 2 ^ 21 = unat lowest + j * 2 ^ 21"
      unfolding linear_frames_unat(1) [OF lin m(3,4)] linear_frames_unat(1) [OF lin j(1,2)] .
    then have "pg = j" by simp
    with m(5) j(3) show False by simp
  qed
  have wf': "sp_wf lowest s'"
    using wf m(1) ok fresh linear_frames_geom [OF m(2), of lowest] pool_ok_frames [OF _ m(2)] m(6)
    by (auto simp: sp_wf_def s'_def list_all_iff new_pool_def)
  note P' = sp_wf_pools [OF wf']
  have room: "pool_room ?n" using P'(2) by (simp add: s'_def)
  have phys: "?phys = slot_addr ?n 1" by (simp add: slot_addr_def new_pool_def)
  note A = slot_addr_props [OF room, of 1, folded phys] and u = slot_addr_unat [OF room, of 1, folded phys]
  have "\<not> page_used ([] @ pools s) ?phys"
    unfolding phys by (rule page_unused_elsewhere) (use P'(1,2) in \<open>simp_all add: s'_def\<close>)
  moreover have "page_used (pools s') q \<longleftrightarrow> q = ?phys \<or> page_used (pools s) q" for q
    using page_used_replace [of "[]" ?n "pools s" q] unfolding phys
    by (auto simp: s'_def new_pool_def bm_test_set bm_test_bit)
  moreover have "unat ?phys \<noteq> 0" using u by simp
  then have "?phys \<noteq> 0" by auto
  moreover have "page_cow_refs ?phys s' = 0"
    using A(1,2) by (simp add: page_cow_refs_def s'_def) (simp add: new_pool_def)
  ultimately show ?thesis using wf' by simp
qed

text \<open>
  C13. \<open>alloc_4k_page\<close> always returns. Unless it returns 0 (which leaves the state alone and means
  that every slot of every pool is taken), it returns a page that was not in use, is not the
  slot of a pool descriptor, and has no copy-on-write reference; exactly that page becomes used
  and the invariant is kept.
\<close>

theorem alloc_4k_page_fresh:
  assumes wf: "sp_wf lowest s"
  shows "\<exists>phys s'. alloc_4k_page junk s = Some (phys, s') \<and> sp_wf lowest s' \<and>
    (if phys = 0 then s' = s \<and> list_all (\<lambda>p. list_all (bm_test (sp_bitmap p)) [0..<512]) (pools s)
     else \<not> pmm_4k_page_allocated phys s \<and> page_cow_refs phys s' = 0
       \<and> (\<forall>q. pmm_4k_page_allocated q s' \<longleftrightarrow> q = phys \<or> pmm_4k_page_allocated q s))"
proof (cases "alloc_in_pools (pools s)")
  case (Some r)
  then obtain phys ps where r: "alloc_in_pools (pools s) = Some (phys, ps)" by (cases r) auto
  note a = alloc_old_pool [OF wf r]
  with r show ?thesis by (auto simp: alloc_4k_page_def allocated_iff [OF wf] allocated_iff [of lowest "s\<lparr>pools := ps\<rparr>"])
next
  case None
  have fwf: "pmm_wf (frame_mgr s)" using wf by (simp add: sp_wf_def)
  have full: "list_all (\<lambda>p. list_all (bm_test (sp_bitmap p)) [0..<512]) (pools s)"
    using alloc_in_pools_None [OF None, of "frame_mgr s"] sp_wf_pools(3) [OF wf] by (auto simp: list_all_iff)
  from alloc_normal [OF fwf] obtain r m where rm: "alloc_pages ZONE_NORMAL 1 (frame_mgr s) = Some (r, m)"
    "r = None \<longrightarrow> m = frame_mgr s" by (auto split: option.splits)
  show ?thesis
  proof (cases r)
    case None
    with rm \<open>alloc_in_pools (pools s) = None\<close> full wf show ?thesis by (simp add: alloc_4k_page_def)
  next
    case (Some pg)
    let ?base = "phy_address (pages_struct m pg)"
    let ?s' = "s\<lparr>pools := new_pool ?base (junk ?base) # pools s, frame_mgr := m\<rparr>"
    note a = alloc_new_pool [OF wf rm(1) [unfolded Some], of junk]
    have "alloc_4k_page junk s = Some (?base + PAGE_4K_SIZE, ?s')"
      using None rm(1) Some by (simp add: alloc_4k_page_def Let_def)
    with a show ?thesis using allocated_iff [OF wf] allocated_iff [of lowest ?s'] by auto
  qed
qed

lemma free_used_page:
  assumes wf: "sp_wf lowest s" and used: "page_used (pools s) phys"
  shows "sp_wf lowest (free_4k_page phys s)
    \<and> (\<forall>q. page_used (pools (free_4k_page phys s)) q \<longleftrightarrow> q \<noteq> phys \<and> page_used (pools s) q)"
proof -
  note P = sp_wf_pools [OF wf]
  from used obtain p k where p: "p \<in> set (pools s)" "0 < k" "k < 512" "phys = slot_addr p k" "bm_test (sp_bitmap p) k"
    by (auto simp: page_used_def)
  have room: "pool_room p" using P(2) p(1) by blast
  note A = slot_addr_props [OF room p(3), folded p(4)]
  have "unat phys \<noteq> 0" using slot_addr_unat [OF room p(3)] p(2,4) by simp
  then have nz: "phys \<noteq> 0" by auto
  let ?p = "p\<lparr>sp_bitmap := bm_clear (sp_bitmap p) k, alloc_count := alloc_count p - 1\<rparr>"
  have rel: "pool_release phys p = ?p"
    using A(4) p(3,5) by (simp add: pool_release_def SUBPAGE_4K_COUNT_def)
  from find_upd_split [OF pool_list(1) [OF P(1,2) p(1) A(1)], of "pool_release phys"] obtain xs ys where
    xy: "pools s = xs @ p # ys" "upd_pool phys (pool_release phys) (pools s) = xs @ ?p # ys" by (auto simp: rel)
  have f: "free_4k_page phys s = s\<lparr>pools := xs @ ?p # ys\<rparr>" using nz xy(2) by (simp add: free_4k_page_def)
  have "sp_wf lowest (free_4k_page phys s)"
    unfolding f by (rule sp_wf_replace [OF wf xy(1)]) (use pool_ok_clear [OF P(3) [OF p(1)] p(2,3,5)] in simp_all)
  moreover have "\<not> page_used (xs @ ys) phys"
    unfolding p(4) using P(1,2) p(3) unfolding xy(1) by (rule page_unused_elsewhere)
  moreover have "phys = slot_addr p j \<longleftrightarrow> j = k" if "j < 512" for j
    using slot_addr_inj [OF room room p(3) that] p(4) by auto
  ultimately show ?thesis
    unfolding f xy(1) by (auto simp: page_used_replace bm_test_clear slot_addr_def)
qed

text \<open>
  C14. Freeing a page that is in use makes exactly that page available again and keeps the
  invariant: no other page changes its state.
\<close>

theorem free_4k_page_exact:
  assumes wf: "sp_wf lowest s" and "pmm_4k_page_allocated phys s"
  shows "sp_wf lowest (free_4k_page phys s)
    \<and> (\<forall>q. pmm_4k_page_allocated q (free_4k_page phys s) \<longleftrightarrow> q \<noteq> phys \<and> pmm_4k_page_allocated q s)"
  using free_used_page [OF wf, of phys] assms allocated_iff [OF wf] allocated_iff [of lowest "free_4k_page phys s"]
  by auto

section \<open>Copy-on-write counts\<close>

lemma find_pool_map:
  assumes "\<And>p. base_phys (g p) = base_phys p"
  shows "find_pool_locked q (map g ps) = map_option g (find_pool_locked q ps)"
  using assms by (induction ps) (simp_all add: pool_has_def)

text \<open>The effect of writing the count of one page on the counts of all pages in use.\<close>

lemma cow_write:
  fixes h :: "u16 \<Rightarrow> u16"
  assumes wf: "sp_wf lowest s" and used: "page_used (pools s) phys"
  defines "s' \<equiv> s\<lparr>pools := upd_pool phys (\<lambda>p. p\<lparr>cow_count := (cow_count p)(slot_of phys p := h (cow_count p (slot_of phys p)))\<rparr>) (pools s)\<rparr>"
  shows "page_cow_refs phys s' = h (page_cow_refs phys s)"
    "page_used (pools s) q \<Longrightarrow> q \<noteq> phys \<Longrightarrow> page_cow_refs q s' = page_cow_refs q s"
    "sp_wf lowest s'" "page_used (pools s') q \<longleftrightarrow> page_used (pools s) q" "frame_mgr s' = frame_mgr s"
proof -
  note P = sp_wf_pools [OF wf]
  let ?f = "\<lambda>p. p\<lparr>cow_count := (cow_count p)(slot_of phys p := h (cow_count p (slot_of phys p)))\<rparr>"
  from used obtain p k where p: "p \<in> set (pools s)" "k < 512" "phys = slot_addr p k"
    by (auto simp: page_used_def)
  have room: "pool_room p" using P(2) p(1) by blast
  note A = slot_addr_props [OF room p(2), folded p(3)]
  let ?g = "\<lambda>q. if base_phys q = base_phys p then ?f q else q"
  have s': "pools s' = map ?g (pools s)" by (simp add: s'_def pool_list(2) [OF P(1,2) p(1) A(1)])
  have find: "find_pool_locked q (pools s') = map_option ?g (find_pool_locked q (pools s))" for q
    unfolding s' by (rule find_pool_map) simp
  have fp: "find_pool_locked phys (pools s) = Some p" by (rule pool_list(1) [OF P(1,2) p(1) A(1)])
  then show "page_cow_refs phys s' = h (page_cow_refs phys s)"
    by (simp add: page_cow_refs_def find slot_of_def)
  show "page_cow_refs q s' = page_cow_refs q s" if "page_used (pools s) q" "q \<noteq> phys"
  proof -
    from that(1) obtain r j where r: "r \<in> set (pools s)" "j < 512" "q = slot_addr r j"
      by (auto simp: page_used_def)
    have rroom: "pool_room r" using P(2) r(1) by blast
    note B = slot_addr_props [OF rroom r(2), folded r(3)]
    have fr: "find_pool_locked q (pools s) = Some r" by (rule pool_list(1) [OF P(1,2) r(1) B(1)])
    have "base_phys r = base_phys p \<Longrightarrow> j \<noteq> k" using that(2) p(3) r(3) by (auto simp: slot_addr_def)
    moreover have "base_phys r = base_phys p \<Longrightarrow> slot_of phys r = k" using A(2) by (simp add: slot_of_def)
    ultimately show ?thesis using B(2) by (auto simp: page_cow_refs_def find fr slot_of_def)
  qed
  have "base_phys (?g q) = base_phys q" "pool_ok m (?g q) = pool_ok m q" for q m
    by (simp_all add: pool_ok_def)
  then have "map base_phys (map ?g (pools s)) = map base_phys (pools s)"
    "list_all (pool_ok m) (map ?g (pools s)) = list_all (pool_ok m) (pools s)" for m
    by (simp_all only: map_map comp_def list.pred_map)
  moreover show "frame_mgr s' = frame_mgr s" by (simp add: s'_def)
  ultimately show "sp_wf lowest s'" using wf unfolding sp_wf_def s' by (simp only:)
  have "page_used (map ?g ps) q = page_used ps q" for ps
    by (induction ps) (auto simp: page_used_def slot_addr_def)
  then show "page_used (pools s') q \<longleftrightarrow> page_used (pools s) q" by (simp add: s')
qed

lemma cow_put_used:
  assumes wf: "sp_wf lowest s" and u: "page_used (pools s) phys"
  obtains s' where "page_cow_put phys s = (page_cow_refs phys s = 1, s')" "sp_wf lowest s'"
    "page_cow_refs phys s' = (if page_cow_refs phys s = 0 then 0 else page_cow_refs phys s - 1)"
    "\<And>q. page_used (pools s) q \<Longrightarrow> q \<noteq> phys \<Longrightarrow> page_cow_refs q s' = page_cow_refs q s"
    "\<And>q. page_used (pools s') q \<longleftrightarrow> page_used (pools s) q" "frame_mgr s' = frame_mgr s"
proof (cases "page_cow_refs phys s = 0")
  case True
  then have "page_cow_put phys s = (False, s)" by (auto simp: page_cow_put_def page_cow_refs_def split: option.splits)
  with that [of s] wf True show ?thesis by simp
next
  case False
  note dec = cow_write [OF wf u, where h = "\<lambda>c. c - 1"]
  from False have "page_cow_put phys s = (page_cow_refs phys s = 1, s\<lparr>pools := upd_pool phys
      (\<lambda>p. p\<lparr>cow_count := (cow_count p)(slot_of phys p := cow_count p (slot_of phys p) - 1)\<rparr>) (pools s)\<rparr>)"
    by (auto simp: page_cow_put_def page_cow_refs_def word_gt_0 split: option.splits)
  from that [OF this] dec False show ?thesis by simp
qed

text \<open>
  C15. On a page in use, \<open>page_cow_get\<close> raises the count by one; \<open>page_cow_put\<close> lowers a positive
  count by one, leaves a zero count alone, and answers true exactly when the count goes from
  1 to 0. Neither changes the count of another page or the invariant.
\<close>

theorem page_cow_counts:
  assumes wf: "sp_wf lowest s" and used: "pmm_4k_page_allocated phys s"
  shows "page_cow_refs phys (page_cow_get phys s) = page_cow_refs phys s + 1
    \<and> fst (page_cow_put phys s) = (page_cow_refs phys s = 1)
    \<and> page_cow_refs phys (snd (page_cow_put phys s)) =
        (if page_cow_refs phys s = 0 then 0 else page_cow_refs phys s - 1)
    \<and> (\<forall>q. pmm_4k_page_allocated q s \<and> q \<noteq> phys \<longrightarrow>
        page_cow_refs q (page_cow_get phys s) = page_cow_refs q s
        \<and> page_cow_refs q (snd (page_cow_put phys s)) = page_cow_refs q s)
    \<and> sp_wf lowest (page_cow_get phys s) \<and> sp_wf lowest (snd (page_cow_put phys s))"
proof -
  have u: "page_used (pools s) phys" using used allocated_iff [OF wf] by simp
  note inc = cow_write [OF wf u, where h = "\<lambda>c. c + 1", folded page_cow_get_def]
  obtain s' where "page_cow_put phys s = (page_cow_refs phys s = 1, s')" "sp_wf lowest s'"
    "page_cow_refs phys s' = (if page_cow_refs phys s = 0 then 0 else page_cow_refs phys s - 1)"
    "\<And>q. page_used (pools s) q \<Longrightarrow> q \<noteq> phys \<Longrightarrow> page_cow_refs q s' = page_cow_refs q s"
    by (rule cow_put_used [OF wf u]) blast
  with inc show ?thesis by (simp add: allocated_iff [OF wf])
qed

section \<open>A concrete machine\<close>

definition demo_subpages :: subpages where
  "demo_subpages = \<lparr>pools = [], frame_mgr = demo_pmm (- 0x100 + 0x11) 3\<rparr>"

lemma demo_subpages_wf: "sp_wf 0x200000 demo_subpages"
proof -
  have "linear_frames 0x200000 (demo_pmm (- 0x100 + 0x11) 3)"
    by (simp add: linear_frames_def demo_pmm_def list_all_iff PAGE_2M_SIZE_def)
  with demo_pmm_wf show ?thesis by (simp add: sp_wf_def demo_subpages_def)
qed

lemma demo_first_page:
  obtains s where "alloc_4k_page (\<lambda>_ _. 7) demo_subpages = Some (0x401000, s)" "sp_wf 0x200000 s"
    "pmm_4k_page_allocated 0x401000 s"
proof -
  have "map_option fst (alloc_4k_page (\<lambda>_ _. 7) demo_subpages) = Some 0x401000" by code_simp
  then obtain s where s: "alloc_4k_page (\<lambda>_ _. 7) demo_subpages = Some (0x401000, s)" by auto
  have "map_option (\<lambda>r. pmm_4k_page_allocated 0x401000 (snd r)) (alloc_4k_page (\<lambda>_ _. 7) demo_subpages) = Some True"
    by code_simp
  moreover from s have "alloc_in_pools (pools demo_subpages) = None" by (simp add: demo_subpages_def)
  then obtain pg m where "alloc_pages ZONE_NORMAL 1 (frame_mgr demo_subpages) = Some (Some pg, m)"
    using s by (auto simp: alloc_4k_page_def split: option.splits)
  note this alloc_new_pool [OF demo_subpages_wf this, of "\<lambda>_ _. 7"]
  ultimately show ?thesis using s that [of s] \<open>alloc_in_pools _ = None\<close>
    by (auto simp: alloc_4k_page_def Let_def)
qed

theorem alloc_4k_page_fresh_witness:
  "\<exists>s. alloc_4k_page (\<lambda>_ _. 7) demo_subpages = Some (0x401000, s) \<and> sp_wf 0x200000 s
     \<and> page_cow_refs 0x401000 s = 0"
proof -
  have "map_option fst (alloc_4k_page (\<lambda>_ _. 7) demo_subpages) = Some 0x401000" by code_simp
  with alloc_4k_page_fresh [OF demo_subpages_wf, of "\<lambda>_ _. 7"] show ?thesis by auto
qed

theorem free_4k_page_exact_witness:
  "\<exists>s. alloc_4k_page (\<lambda>_ _. 7) demo_subpages = Some (0x401000, s)
     \<and> \<not> pmm_4k_page_allocated 0x401000 (free_4k_page 0x401000 s)"
  by (rule demo_first_page) (use free_4k_page_exact in blast)

theorem page_cow_counts_witness:
  "\<exists>s. alloc_4k_page (\<lambda>_ _. 7) demo_subpages = Some (0x401000, s)
     \<and> page_cow_refs 0x401000 (page_cow_get 0x401000 s) = page_cow_refs 0x401000 s + 1"
  by (rule demo_first_page) (use page_cow_counts in blast)

end
