(* ===== verification/Slab.thy ===== *)
theory Slab
  imports PMM_Init
begin

text \<open>
  \<^verbatim>\<open>kernel/memory/slab.c\<close>: the kernel heap. Sixteen caches of power-of-two object sizes; each cache is a
  ring of slabs, one 2 MiB frame per slab with a bit array of its objects (bit set = in use).
  The ring is kept as a list that starts at \<open>cache_pool\<close>.

  \<open>kmalloc\<close> and \<open>kmalloc_create\<close> call each other: creating a slab for objects of 1 KiB and more
  allocates its descriptor and bit array with \<open>kmalloc\<close>, under the flag \<open>kmalloc_creating\<close>, which
  makes a second \<open>kmalloc_create\<close> answer NULL. The model unrolls this recursion once.
  A NULL pointer is 0; a NULL dereference is \<^term>\<open>None\<close>. The lock is held from the first to the
  last access, so an operation is one atomic step.
\<close>

section \<open>State\<close>

definition sizeof_Slab :: u64 where "sizeof_Slab = 72"

text \<open>\<open>sl_self\<close> and \<open>sl_map\<close> are the addresses of the descriptor and of \<open>color_map\<close>.\<close>

record slab =
  sl_page :: nat
  sl_using :: u64
  sl_free :: u64
  sl_address :: u64
  color_length :: u64
  color_count :: u64
  color_map :: "nat \<Rightarrow> u64"
  sl_self :: u64
  sl_map :: u64

record slab_cache =
  c_size :: u64
  total_using :: u64
  total_free :: u64
  c_slabs :: "slab list"

record slabs =
  kmalloc_cache_size :: "slab_cache list"
  kmalloc_creating :: bool
  sl_frames :: pmm

definition Phy_To_Virt :: "u64 \<Rightarrow> u64" where "Phy_To_Virt a = a + PAGE_OFFSET"

definition PAGE_2M_MASK :: u64 where "PAGE_2M_MASK = NOT (PAGE_2M_SIZE - 1)"

definition upd_cache :: "nat \<Rightarrow> (slab_cache \<Rightarrow> slab_cache) \<Rightarrow> slabs \<Rightarrow> slabs" where
  "upd_cache i f st = st\<lparr>kmalloc_cache_size := (kmalloc_cache_size st)[i := f (kmalloc_cache_size st ! i)]\<rparr>"

section \<open>Bit arrays of slabs\<close>

definition color_length_of :: "u64 \<Rightarrow> u64" where
  "color_length_of count = push_bit 3 (drop_bit 6 (count + 8 * 8 - 1))"

text \<open>
  \<open>memset\<close> to ones followed by flipping the first \<open>count\<close> bits; words past the array are never
  read.
\<close>

definition fresh_map :: "nat \<Rightarrow> nat \<Rightarrow> u64" where
  "fresh_map count = fold (\<lambda>i m. bm_flip m i) [0..<count] (\<lambda>_. - 1)"

text \<open>The search loop of \<open>kmalloc\<close>: a word of all ones is skipped.\<close>

function color_scan :: "(nat \<Rightarrow> u64) \<Rightarrow> nat \<Rightarrow> nat \<Rightarrow> nat option" where
  "color_scan m count j =
    (if j < count then
       if m (j div 64) = - 1 then color_scan m count (j + 63 + 1)
       else if \<not> bm_test m j then Some j
       else color_scan m count (j + 1)
     else None)"
  by pat_completeness auto
termination
  by (relation "measure (\<lambda>(m, count, j). count - j)") auto

declare color_scan.simps [simp del]

section \<open>kmalloc\<close>

definition cache_index :: "u64 \<Rightarrow> slabs \<Rightarrow> nat" where
  "cache_index sz st = length (takeWhile (\<lambda>c. \<not> c_size c \<ge> sz) (kmalloc_cache_size st))"

text \<open>The ring walk: the first slab with a free object, or \<open>cache_pool\<close> again.\<close>

definition pick_slab :: "slab_cache \<Rightarrow> nat" where
  "pick_slab c = (case List.find (\<lambda>k. sl_free (c_slabs c ! k) \<noteq> 0) [0..<length (c_slabs c)] of
     Some k \<Rightarrow> k | None \<Rightarrow> 0)"

definition mark_object :: "nat \<Rightarrow> slab \<Rightarrow> slab" where
  "mark_object j s = s\<lparr>color_map := bm_set (color_map s) j, sl_using := sl_using s + 1, sl_free := sl_free s - 1\<rparr>"

definition take_object :: "nat \<Rightarrow> nat \<Rightarrow> slabs \<Rightarrow> u64 \<times> slabs" where
  "take_object i k st =
    (let c = kmalloc_cache_size st ! i; s = c_slabs c ! k in
     case color_scan (color_map s) (unat (color_count s)) 0 of
       None \<Rightarrow> (0, st)
     | Some j \<Rightarrow> (sl_address s + c_size c * of_nat j,
         upd_cache i (\<lambda>c. c\<lparr>c_slabs := (c_slabs c)[k := mark_object j (c_slabs c ! k)],
           total_free := total_free c - 1, total_using := total_using c + 1\<rparr>) st))"

definition add_slab :: "nat \<Rightarrow> slab \<Rightarrow> slabs \<Rightarrow> slabs" where
  "add_slab i s = upd_cache i (\<lambda>c. c\<lparr>total_free := total_free c + color_count s, c_slabs := c_slabs c @ [s]\<rparr>)"

definition kmalloc_with ::
  "(u64 \<Rightarrow> slabs \<Rightarrow> (slab option \<times> slabs) option) \<Rightarrow> u64 \<Rightarrow> slabs \<Rightarrow> (u64 \<times> slabs) option" where
  "kmalloc_with create sz st =
    (if sz > 1048576 then Some (0, st)
     else let i = cache_index sz st; c = kmalloc_cache_size st ! i in
       if total_free c \<noteq> 0 then Some (take_object i (pick_slab c) st)
       else case create (c_size c) st of
         None \<Rightarrow> None
       | Some (None, st1) \<Rightarrow> Some (0, st1)
       | Some (Some s, st1) \<Rightarrow>
           Some (take_object i (length (c_slabs (kmalloc_cache_size st1 ! i))) (add_slab i s st1)))"

text \<open>\<open>kmalloc_create\<close> reached from within \<open>kmalloc_create\<close>: the guard answers.\<close>

definition kmalloc_create_nested :: "u64 \<Rightarrow> slabs \<Rightarrow> (slab option \<times> slabs) option" where
  "kmalloc_create_nested sz st = (if kmalloc_creating st then Some (None, st) else None)"

definition kmalloc_nested :: "u64 \<Rightarrow> slabs \<Rightarrow> (u64 \<times> slabs) option" where
  "kmalloc_nested = kmalloc_with kmalloc_create_nested"

definition small_sizes :: "u64 list" where "small_sizes = [32, 64, 128, 256, 512]"
definition large_sizes :: "u64 list" where
  "large_sizes = [1024, 2048, 4096, 8192, 16384, 32768, 65536, 131072, 262144, 524288, 1048576]"

definition structsize :: "u64 \<Rightarrow> u64" where
  "structsize sz = sizeof_Slab + PAGE_2M_SIZE div sz div 8"

definition in_page_slab :: "u64 \<Rightarrow> nat \<Rightarrow> pmm \<Rightarrow> slab" where
  "in_page_slab sz pg m =
    (let pa = phy_address (pages_struct m pg);
         self = Phy_To_Virt (pa + PAGE_2M_SIZE - structsize sz);
         count = (PAGE_2M_SIZE - PAGE_2M_SIZE div sz div 8 - sizeof_Slab) div sz in
     \<lparr>sl_page = pg, sl_using = 0, sl_free = count, sl_address = Phy_To_Virt pa,
      color_length = color_length_of count, color_count = count, color_map = fresh_map (unat count),
      sl_self = self, sl_map = self + sizeof_Slab\<rparr>)"

definition far_slab :: "u64 \<Rightarrow> nat \<Rightarrow> u64 \<Rightarrow> u64 \<Rightarrow> pmm \<Rightarrow> slab" where
  "far_slab sz pg self mp m =
    (let count = PAGE_2M_SIZE div sz in
     \<lparr>sl_page = pg, sl_using = 0, sl_free = count,
      sl_address = Phy_To_Virt (phy_address (pages_struct m pg)),
      color_length = color_length_of count, color_count = count, color_map = fresh_map (unat count),
      sl_self = self, sl_map = mp\<rparr>)"

definition kmalloc_create :: "u64 \<Rightarrow> slabs \<Rightarrow> (slab option \<times> slabs) option" where
  "kmalloc_create sz st0 =
    (if kmalloc_creating st0 then Some (None, st0) else
     let st = st0\<lparr>kmalloc_creating := True\<rparr> in
     case alloc_pages ZONE_NORMAL 1 (sl_frames st) of
       None \<Rightarrow> None
     | Some (None, m) \<Rightarrow> Some (None, st\<lparr>sl_frames := m, kmalloc_creating := False\<rparr>)
     | Some (Some pg, m) \<Rightarrow>
       (case page_init pg PG_Kernel m of None \<Rightarrow> None
        | Some m1 \<Rightarrow>
          let st1 = st\<lparr>sl_frames := m1\<rparr> in
          if sz \<in> set small_sizes then
            Some (Some (in_page_slab sz pg m1), st1\<lparr>kmalloc_creating := False\<rparr>)
          else if sz \<in> set large_sizes then
            (case kmalloc_nested sizeof_Slab st1 of None \<Rightarrow> None
             | Some (self, st2) \<Rightarrow>
               if self = 0 then None else
               (case kmalloc_nested (color_length_of (PAGE_2M_SIZE div sz)) st2 of None \<Rightarrow> None
                | Some (mp, st3) \<Rightarrow>
                  if mp = 0 then None else
                  Some (Some (far_slab sz pg self mp (sl_frames st3)), st3\<lparr>kmalloc_creating := False\<rparr>)))
          else
            map_option (\<lambda>m2. (None, st1\<lparr>sl_frames := m2, kmalloc_creating := False\<rparr>))
              (free_pages (Some pg) 1 m1)))"

definition kmalloc :: "u64 \<Rightarrow> slabs \<Rightarrow> (u64 \<times> slabs) option" where
  "kmalloc = kmalloc_with kmalloc_create"

definition kzalloc :: "u64 \<Rightarrow> slabs \<Rightarrow> (u64 \<times> slabs) option" where
  "kzalloc sz st = kmalloc sz st"

section \<open>ksize and kfree\<close>

text \<open>Both walk the caches in order, and each ring from \<open>cache_pool\<close>, for the slab at an address.\<close>

definition locate :: "u64 \<Rightarrow> slabs \<Rightarrow> (nat \<times> nat) option" where
  "locate base st =
    List.find (\<lambda>(i, k). sl_address (c_slabs (kmalloc_cache_size st ! i) ! k) = base)
      (concat (map (\<lambda>i. map (Pair i) [0..<length (c_slabs (kmalloc_cache_size st ! i))])
        [0..<length (kmalloc_cache_size st)]))"

definition ksize :: "u64 \<Rightarrow> slabs \<Rightarrow> u64" where
  "ksize address st =
    (if address = 0 then 0
     else case locate (address AND PAGE_2M_MASK) st of
       None \<Rightarrow> 0 | Some (i, k) \<Rightarrow> c_size (kmalloc_cache_size st ! i))"

definition unmark_object :: "nat \<Rightarrow> slab \<Rightarrow> slab" where
  "unmark_object j s = s\<lparr>color_map := bm_clear (color_map s) j, sl_free := sl_free s + 1, sl_using := sl_using s - 1\<rparr>"

definition put_object :: "nat \<Rightarrow> nat \<Rightarrow> nat \<Rightarrow> slabs \<Rightarrow> slabs" where
  "put_object i k j = upd_cache i (\<lambda>c. c\<lparr>c_slabs := (c_slabs c)[k := unmark_object j (c_slabs c ! k)],
     total_free := total_free c + 1, total_using := total_using c - 1\<rparr>)"

definition drop_slab :: "nat \<Rightarrow> nat \<Rightarrow> slabs \<Rightarrow> slabs" where
  "drop_slab i k = upd_cache i (\<lambda>c. c\<lparr>c_slabs := take k (c_slabs c) @ drop (Suc k) (c_slabs c),
     total_free := total_free c - color_count (c_slabs c ! k)\<rparr>)"

definition release_page :: "nat \<Rightarrow> slabs \<Rightarrow> slabs option" where
  "release_page pg st =
    map_option (\<lambda>m. st\<lparr>sl_frames := m\<rparr>) (Option.bind (page_clean pg (sl_frames st)) (free_pages (Some pg) 1))"

definition kfree_with ::
  "(u64 \<Rightarrow> slabs \<Rightarrow> (u64 \<times> slabs) option) \<Rightarrow> u64 \<Rightarrow> slabs \<Rightarrow> (u64 \<times> slabs) option" where
  "kfree_with free address st =
    (if address = 0 then Some (0, st)
     else case locate (address AND PAGE_2M_MASK) st of
       None \<Rightarrow> Some (0, st)
     | Some (i, k) \<Rightarrow>
       let c = kmalloc_cache_size st ! i; s = c_slabs c ! k;
           index = unat (ucast ((address - sl_address s) div c_size c) :: u32) in
       if \<not> bm_test (color_map s) index then Some (1, st)
       else
         let st1 = put_object i k index st; c1 = kmalloc_cache_size st1 ! i; s1 = c_slabs c1 ! k in
         if sl_using s1 = 0 \<and> total_free c1 \<ge> color_count s1 * 3 div 2 \<and> k \<noteq> 0 then
           let st2 = drop_slab i k st1 in
           if c_size c \<in> set small_sizes then map_option (Pair 1) (release_page (sl_page s1) st2)
           else Option.bind (free (sl_map s1) st2) (\<lambda>(_, st3).
             Option.bind (release_page (sl_page s1) st3) (\<lambda>st4.
               map_option (\<lambda>(_, st5). (1, st5)) (free (sl_self s1) st4)))
         else Some (1, st1))"

text \<open>
  The nested calls free a descriptor (72 bytes) and a bit array (at most 256 bytes), whose slabs are
  in-page, so they do not recurse again.
\<close>

definition kfree_nested :: "u64 \<Rightarrow> slabs \<Rightarrow> (u64 \<times> slabs) option" where
  "kfree_nested = kfree_with (\<lambda>_ _. None)"

definition kfree :: "u64 \<Rightarrow> slabs \<Rightarrow> (u64 \<times> slabs) option" where
  "kfree = kfree_with kfree_nested"

section \<open>slab_init\<close>

definition cache_sizes :: "u64 list" where "cache_sizes = small_sizes @ large_sizes"

definition empty_caches :: "slab_cache list" where
  "empty_caches = map (\<lambda>sz. \<lparr>c_size = sz, total_using = 0, total_free = 0, c_slabs = []\<rparr>) cache_sizes"

text \<open>
  \<open>stale i\<close> is what the fields \<open>page\<close> and \<open>address\<close> of descriptor \<open>i\<close> hold beforehand: the loop
  does not write them, and the last loop writes those of the first eight only.
\<close>

definition init_head :: "nat \<times> u64 \<Rightarrow> nat \<Rightarrow> u64 \<Rightarrow> u64 \<Rightarrow> slab" where
  "init_head stale i self sz =
    (let n = PAGE_2M_SIZE div sz in
     \<lparr>sl_page = fst stale, sl_using = 0, sl_free = (if i < 8 then n else 0), sl_address = snd stale,
      color_length = color_length_of n, color_count = n, color_map = fresh_map (unat n),
      sl_self = self, sl_map = self + sizeof_Slab + 8 * 10\<rparr>)"

definition init_cache :: "(nat \<Rightarrow> nat \<times> u64) \<Rightarrow> nat \<Rightarrow> slabs \<Rightarrow> slabs" where
  "init_cache stale i st =
    (let sz = c_size (kmalloc_cache_size st ! i); self = end_of_struct (sl_frames st);
         h = init_head (stale i) i self sz in
     upd_cache i (\<lambda>c. c\<lparr>c_slabs := [h], total_free := (if i < 8 then color_count h else 0), total_using := 0\<rparr>)
       (st\<lparr>sl_frames := (sl_frames st)\<lparr>end_of_struct :=
          (self + sizeof_Slab + 8 * 10 + color_length h + 8 * 10) AND NOT (8 - 1)\<rparr>\<rparr>))"

definition slab_reserve :: "nat \<Rightarrow> pmm \<Rightarrow> pmm option" where
  "slab_reserve pg m =
    (if bm_test (bits_map m) pg then Some m
     else case zone_struct (pages_struct m pg) of None \<Rightarrow> None
     | Some z \<Rightarrow> page_init pg (PG_PTable_Mapped OR PG_Kernel_Init OR PG_Kernel)
         (upd_zone z (\<lambda>z. z\<lparr>page_using_count := page_using_count z + 1, page_free_count := page_free_count z - 1\<rparr>)
           (m\<lparr>bits_map := bm_set (bits_map m) pg\<rparr>)))"

fun slab_reserve_meta :: "nat list \<Rightarrow> pmm \<Rightarrow> pmm option" where
  "slab_reserve_meta [] m = Some m"
| "slab_reserve_meta (j # js) m =
    Option.bind (slab_reserve (Phy_to_2M_Page m (push_bit 21 (of_nat j))) m) (slab_reserve_meta js)"

fun slab_reserve_pools :: "u64 \<Rightarrow> nat list \<Rightarrow> slabs \<Rightarrow> slabs option" where
  "slab_reserve_pools start [] st = Some st"
| "slab_reserve_pools start (i # is) st =
    (let va = start + of_nat i * PAGE_2M_SIZE; pg = Phy_to_2M_Page (sl_frames st) (Virt_To_Phy va) in
     case slab_reserve pg (sl_frames st) of None \<Rightarrow> None
     | Some m \<Rightarrow> slab_reserve_pools start is
         (upd_cache i (\<lambda>c. c\<lparr>c_slabs := (c_slabs c)[0 := (c_slabs c ! 0)\<lparr>sl_page := pg, sl_address := va\<rparr>]\<rparr>)
           (st\<lparr>sl_frames := m\<rparr>)))"

definition PAGE_2M_ALIGN :: "u64 \<Rightarrow> u64" where
  "PAGE_2M_ALIGN a = (a + PAGE_2M_SIZE - 1) AND PAGE_2M_MASK"

text \<open>\<open>bound\<close> is the answer of \<open>PMMngr_end_of_struct_upper_bound\<close>; exceeding it halts.\<close>

definition slab_init :: "(nat \<Rightarrow> nat \<times> u64) \<Rightarrow> u64 \<Rightarrow> pmm \<Rightarrow> slabs option" where
  "slab_init stale bound m =
    (let tmp_address = end_of_struct m;
         st1 = fold (init_cache stale) [0..<16]
           \<lparr>kmalloc_cache_size = empty_caches, kmalloc_creating = False, sl_frames = m\<rparr>;
         top = end_of_struct (sl_frames st1);
         first = unat (drop_bit 21 (PAGE_2M_ALIGN (Virt_To_Phy tmp_address)));
         last = unat (drop_bit 21 (Virt_To_Phy top)) in
     case slab_reserve_meta [first..<Suc last] (sl_frames st1) of None \<Rightarrow> None
     | Some m1 \<Rightarrow>
       (case slab_reserve_pools ((top + PAGE_2M_SIZE - 1) AND PAGE_2M_MASK) [0..<8] (st1\<lparr>sl_frames := m1\<rparr>) of
          None \<Rightarrow> None
        | Some st2 \<Rightarrow> if end_of_struct (sl_frames st2) > bound then None else Some st2))"

record slab_layout =
  meta_bytes :: u64
  reserved_2m_pages :: u64

definition slab_layout_compute :: slab_layout where
  "slab_layout_compute =
    \<lparr>meta_bytes = fold (\<lambda>sz meta. meta + (sizeof_Slab + 10 * 8 + ((PAGE_2M_SIZE div sz div 8 + 7) div 8) * 8 + 10 * 8))
       cache_sizes 0,
     reserved_2m_pages = 8\<rparr>"

section \<open>The search for a free object\<close>

lemma color_scan_eq:
  "j mod 64 = 0 \<or> m (j div 64) \<noteq> - 1 \<Longrightarrow>
    color_scan m n j = List.find (\<lambda>i. \<not> bm_test m i) [j..<n]"
proof (induction m n j rule: color_scan.induct)
  case (1 m n j)
  show ?case
  proof (cases "j < n")
    case True
    show ?thesis
    proof (cases "m (j div 64) = - 1")
      case full: True
      with "1.prems" have j: "j mod 64 = 0" by simp
      have set: "bm_test m i" if "j \<le> i" "i < j + 64" for i
      proof -
        from j obtain q where "j = 64 * q" by (auto elim: dvdE simp: mod_eq_0_iff_dvd)
        with that have "i div 64 = j div 64" by (simp add: div_nat_eqI)
        then show ?thesis using full by (simp add: bm_test_bit word_full_iff)
      qed
      have "[j..<n] = [j..<min n (j + 64)] @ [j + 64..<n]"
      proof (cases "j + 64 \<le> n")
        case le: True
        then obtain d where n: "n = j + 64 + d" using le_Suc_ex by blast
        show ?thesis unfolding n using upt_add_eq_append [of j "j + 64" d] by (simp add: min_def)
      qed (simp add: min_def)
      moreover have "List.find (\<lambda>i. \<not> bm_test m i) [j..<min n (j + 64)] = None"
        by (auto simp: find_None_iff set)
      ultimately have "List.find (\<lambda>i. \<not> bm_test m i) [j..<n] = List.find (\<lambda>i. \<not> bm_test m i) [j + 64..<n]"
        by (simp add: find_append)
      moreover have "color_scan m n (j + 63 + 1) = List.find (\<lambda>i. \<not> bm_test m i) [j + 63 + 1..<n]"
        using j by (intro "1.IH"(1) [OF True full]) (simp add: mod_simps)
      ultimately show ?thesis using True full by (subst color_scan.simps) (simp add: add.commute)
    next
      case nfull: False
      show ?thesis
      proof (cases "bm_test m j")
        case set: True
        have "(j + 1) mod 64 = 0 \<or> (j + 1) div 64 = j div 64" by (simp add: div_Suc)
        then have "(j + 1) mod 64 = 0 \<or> m ((j + 1) div 64) \<noteq> - 1" using nfull by metis
        from "1.IH"(2) [OF True nfull _ this] set have
          "color_scan m n (j + 1) = List.find (\<lambda>i. \<not> bm_test m i) [j + 1..<n]" by simp
        then show ?thesis
          using True nfull set by (subst color_scan.simps) (simp add: upt_conv_Cons)
      next
        case False
        then show ?thesis using True nfull by (subst color_scan.simps) (simp add: upt_conv_Cons)
      qed
    qed
  qed (subst color_scan.simps, simp)
qed

lemma color_scan_0: "color_scan m n 0 = List.find (\<lambda>i. \<not> bm_test m i) [0..<n]"
  by (rule color_scan_eq) simp

lemma fresh_map_test: "bm_test (fresh_map n) i \<longleftrightarrow> n \<le> i"
proof (induction n arbitrary: i)
  case 0
  show ?case by (simp add: fresh_map_def bm_test_bit)
next
  case (Suc n)
  have "fresh_map (Suc n) = bm_flip (fresh_map n) n" by (simp add: fresh_map_def)
  then show ?case by (simp only: bm_test_flip Suc.IH fun_upd_apply) auto
qed

section \<open>The invariant\<close>

text \<open>
  A slab's free count is the number of clear bits among its objects, and its objects fit its frame.
  The first slabs of caches 8 to 15 are \<^emph>\<open>dormant\<close>: they have a bit array and no frame, their
  counters are zero, and their \<open>address\<close> field is not a kernel address.
\<close>

definition dormant :: "nat \<Rightarrow> nat \<Rightarrow> bool" where "dormant i k = (8 \<le> i \<and> k = 0)"

definition slab_ok :: "u64 \<Rightarrow> slab \<Rightarrow> bool" where
  "slab_ok sz s = (unat (sl_free s) = count_clear (bm_test (color_map s)) 0 (unat (color_count s))
     \<and> unat (sl_using s) + unat (sl_free s) = unat (color_count s)
     \<and> 0 < unat (color_count s) \<and> unat sz * unat (color_count s) \<le> 2 ^ 21)"

definition cache_ok :: "nat \<Rightarrow> slab_cache \<Rightarrow> bool" where
  "cache_ok i c = (c_slabs c \<noteq> []
     \<and> total_free c = sum_list (map sl_free (c_slabs c))
     \<and> total_using c = sum_list (map sl_using (c_slabs c))
     \<and> list_all (\<lambda>k. if dormant i k
          then sl_free (c_slabs c ! k) = 0 \<and> sl_using (c_slabs c ! k) = 0 \<and> sl_address (c_slabs c ! k) < PAGE_OFFSET
          else slab_ok (c_size c) (c_slabs c ! k)) [0..<length (c_slabs c)])"

abbreviation slab_at :: "slabs \<Rightarrow> nat \<Rightarrow> nat \<Rightarrow> slab" where
  "slab_at st i k \<equiv> c_slabs (kmalloc_cache_size st ! i) ! k"

definition active_list :: "slabs \<Rightarrow> (nat \<times> nat) list" where
  "active_list st = filter (\<lambda>(i, k). \<not> dormant i k)
     (concat (map (\<lambda>i. map (Pair i) [0..<length (c_slabs (kmalloc_cache_size st ! i))]) [0..<16]))"

definition active :: "slabs \<Rightarrow> nat \<Rightarrow> nat \<Rightarrow> bool" where
  "active st i k \<longleftrightarrow> i < 16 \<and> k < length (c_slabs (kmalloc_cache_size st ! i)) \<and> \<not> dormant i k"

definition frame_ok :: "pmm \<Rightarrow> slab \<Rightarrow> bool" where
  "frame_ok m s \<longleftrightarrow> sl_page s < unat (pages_size m) \<and> zone_struct (pages_struct m (sl_page s)) \<noteq> None
     \<and> bm_test (bits_map m) (sl_page s) \<and> sl_address s = Phy_To_Virt (phy_address (pages_struct m (sl_page s)))"

definition heap_frames :: "u64 \<Rightarrow> pmm \<Rightarrow> bool" where
  "heap_frames lowest m \<longleftrightarrow> pmm_wf m \<and> linear_frames lowest m \<and> unat lowest mod 2 ^ 21 = 0
     \<and> unat lowest + unat (pages_size m) * 2 ^ 21 \<le> 2 ^ 47"

definition slabs_wf :: "u64 \<Rightarrow> slabs \<Rightarrow> bool" where
  "slabs_wf lowest st \<longleftrightarrow> heap_frames lowest (sl_frames st) \<and> map c_size (kmalloc_cache_size st) = cache_sizes
     \<and> list_all (\<lambda>i. cache_ok i (kmalloc_cache_size st ! i)) [0..<16]
     \<and> list_all (\<lambda>(i, k). frame_ok (sl_frames st) (slab_at st i k)) (active_list st)
     \<and> distinct (map (\<lambda>(i, k). sl_page (slab_at st i k)) (active_list st))"

definition in_use :: "slabs \<Rightarrow> nat \<Rightarrow> nat \<Rightarrow> nat \<Rightarrow> bool" where
  "in_use st i k j \<longleftrightarrow> active st i k \<and> j < unat (color_count (slab_at st i k)) \<and> bm_test (color_map (slab_at st i k)) j"

definition obj_addr :: "slabs \<Rightarrow> nat \<Rightarrow> nat \<Rightarrow> nat \<Rightarrow> u64" where
  "obj_addr st i k j = sl_address (slab_at st i k) + c_size (kmalloc_cache_size st ! i) * of_nat j"

lemma active_list_set [simp]: "(i, k) \<in> set (active_list st) \<longleftrightarrow> active st i k"
  by (auto simp: active_list_def active_def image_iff)

lemma distinct_pairs: "distinct xs \<Longrightarrow> distinct (concat (map (\<lambda>i. map (Pair i) [0..<f i]) xs))"
  by (induction xs) (auto simp: distinct_map inj_on_def)

lemma active_list_distinct [simp]: "distinct (active_list st)"
  unfolding active_list_def by (intro distinct_filter distinct_pairs) simp

lemma slabs_wf_iff:
  "slabs_wf lowest st \<longleftrightarrow> heap_frames lowest (sl_frames st) \<and> map c_size (kmalloc_cache_size st) = cache_sizes
     \<and> (\<forall>i<16. cache_ok i (kmalloc_cache_size st ! i))
     \<and> (\<forall>i k. active st i k \<longrightarrow> frame_ok (sl_frames st) (slab_at st i k))
     \<and> (\<forall>i k i' k'. active st i k \<longrightarrow> active st i' k' \<longrightarrow>
          sl_page (slab_at st i k) = sl_page (slab_at st i' k') \<longrightarrow> i = i' \<and> k = k')"
proof -
  have "list_all (\<lambda>(i, k). frame_ok (sl_frames st) (slab_at st i k)) (active_list st)
      \<longleftrightarrow> (\<forall>i k. active st i k \<longrightarrow> frame_ok (sl_frames st) (slab_at st i k))"
    by (auto simp: list_all_iff)
  moreover have "distinct (map (\<lambda>(i, k). sl_page (slab_at st i k)) (active_list st))
      \<longleftrightarrow> (\<forall>i k i' k'. active st i k \<longrightarrow> active st i' k' \<longrightarrow>
          sl_page (slab_at st i k) = sl_page (slab_at st i' k') \<longrightarrow> i = i' \<and> k = k')"
    unfolding distinct_map inj_on_def Ball_def split_paired_All active_list_set by simp
  moreover have "list_all (\<lambda>i. cache_ok i (kmalloc_cache_size st ! i)) [0..<16]
      \<longleftrightarrow> (\<forall>i<16. cache_ok i (kmalloc_cache_size st ! i))"
    unfolding list_all_iff set_upt by auto
  ultimately show ?thesis unfolding slabs_wf_def by simp
qed

lemma slabs_wfD:
  assumes "slabs_wf lowest st"
  shows "heap_frames lowest (sl_frames st)" "length (kmalloc_cache_size st) = 16"
    "i < 16 \<Longrightarrow> c_size (kmalloc_cache_size st ! i) = cache_sizes ! i"
    "i < 16 \<Longrightarrow> cache_ok i (kmalloc_cache_size st ! i)"
    "active st i k \<Longrightarrow> frame_ok (sl_frames st) (slab_at st i k)"
    "active st i k \<Longrightarrow> slab_ok (cache_sizes ! i) (slab_at st i k)"
    "active st i k \<Longrightarrow> active st i' k' \<Longrightarrow> sl_page (slab_at st i k) = sl_page (slab_at st i' k') \<Longrightarrow> i = i' \<and> k = k'"
proof -
  note wf = assms [unfolded slabs_wf_iff]
  from wf have sizes: "map c_size (kmalloc_cache_size st) = cache_sizes" by blast
  then have "length (map c_size (kmalloc_cache_size st)) = length cache_sizes" by (rule arg_cong)
  then show len: "length (kmalloc_cache_size st) = 16" by (simp add: cache_sizes_def small_sizes_def large_sizes_def)
  show size: "i < 16 \<Longrightarrow> c_size (kmalloc_cache_size st ! i) = cache_sizes ! i" for i
    using len by (simp add: sizes [symmetric])
  show cok: "i < 16 \<Longrightarrow> cache_ok i (kmalloc_cache_size st ! i)" for i using wf by blast
  show "active st i k \<Longrightarrow> slab_ok (cache_sizes ! i) (slab_at st i k)"
    using cok [of i] size [of i] by (auto simp: active_def cache_ok_def list_all_iff dest!: bspec [where x = k])
qed (use assms [unfolded slabs_wf_iff] in blast)+

text \<open>The two states have the same slabs; bits and counters may differ.\<close>

definition slab_shape :: "slab \<Rightarrow> nat \<times> u64 \<times> u64 \<times> u64 \<times> u64" where
  "slab_shape s = (sl_page s, sl_address s, color_count s, sl_self s, sl_map s)"

definition same_shape :: "slabs \<Rightarrow> slabs \<Rightarrow> bool" where
  "same_shape st st' \<longleftrightarrow> sl_frames st' = sl_frames st \<and> kmalloc_creating st' = kmalloc_creating st
     \<and> map c_size (kmalloc_cache_size st') = map c_size (kmalloc_cache_size st)
     \<and> (\<forall>i<length (kmalloc_cache_size st). map slab_shape (c_slabs (kmalloc_cache_size st' ! i)) = map slab_shape (c_slabs (kmalloc_cache_size st ! i)))"

lemma same_shape_refl [simp]: "same_shape st st"
  by (simp add: same_shape_def)

lemma same_shape_trans [trans]: "same_shape a b \<Longrightarrow> same_shape b c \<Longrightarrow> same_shape a c"
  unfolding same_shape_def by (metis length_map)

lemma sum_list_replace:
  fixes f :: "'a \<Rightarrow> 'b::ab_group_add"
  shows "k < length xs \<Longrightarrow> sum_list (map f (xs[k := y])) = sum_list (map f xs) - f (xs ! k) + f y"
proof (induction xs arbitrary: k)
  case (Cons x xs)
  then show ?case by (cases k) simp_all
qed simp

lemma upd_cache_nth [simp]:
  "i < length (kmalloc_cache_size st) \<Longrightarrow>
     kmalloc_cache_size (upd_cache i f st) ! i' = (if i' = i then f (kmalloc_cache_size st ! i) else kmalloc_cache_size st ! i')"
  "length (kmalloc_cache_size (upd_cache i f st)) = length (kmalloc_cache_size st)"
  "sl_frames (upd_cache i f st) = sl_frames st"
  "kmalloc_creating (upd_cache i f st) = kmalloc_creating st"
  by (simp_all add: upd_cache_def)

text \<open>Replacing slab \<open>k\<close> of cache \<open>i\<close> by one of the same shape, the cache's totals following.\<close>

definition put_slab :: "nat \<Rightarrow> nat \<Rightarrow> slab \<Rightarrow> slabs \<Rightarrow> slabs" where
  "put_slab i k s = upd_cache i (\<lambda>c. c\<lparr>c_slabs := (c_slabs c)[k := s],
     total_free := total_free c - sl_free (c_slabs c ! k) + sl_free s,
     total_using := total_using c - sl_using (c_slabs c ! k) + sl_using s\<rparr>)"

lemma put_slab_wf:
  assumes wf: "slabs_wf lowest st" and act: "active st i k"
    and shape: "slab_shape s = slab_shape (slab_at st i k)" and ok: "slab_ok (cache_sizes ! i) s"
  shows "slabs_wf lowest (put_slab i k s st)" "same_shape st (put_slab i k s st)"
    "slab_at (put_slab i k s st) i' k' = (if i' = i \<and> k' = k then s else slab_at st i' k')"
    "active (put_slab i k s st) = active st"
proof -
  let ?st = "put_slab i k s st"
  note D = slabs_wfD [OF wf]
  from act have i: "i < 16" and k: "k < length (c_slabs (kmalloc_cache_size st ! i))" and nd: "\<not> dormant i k"
    by (simp_all add: active_def)
  have nth: "kmalloc_cache_size ?st ! i' = (if i' = i then (kmalloc_cache_size st ! i)\<lparr>
      c_slabs := (c_slabs (kmalloc_cache_size st ! i))[k := s],
      total_free := total_free (kmalloc_cache_size st ! i) - sl_free (slab_at st i k) + sl_free s,
      total_using := total_using (kmalloc_cache_size st ! i) - sl_using (slab_at st i k) + sl_using s\<rparr>
      else kmalloc_cache_size st ! i')" for i'
    using i D(2) by (simp add: put_slab_def)
  show at: "slab_at ?st i' k' = (if i' = i \<and> k' = k then s else slab_at st i' k')" for i' k'
    using k by (simp add: nth)
  show active: "active ?st = active st" by (simp add: fun_eq_iff active_def nth)
  have sizes: "map c_size (kmalloc_cache_size ?st) = map c_size (kmalloc_cache_size st)"
    using i D(2) by (intro nth_equalityI) (simp_all add: put_slab_def)
  have frames: "sl_frames ?st = sl_frames st" by (simp add: put_slab_def)
  from shape have "map slab_shape ((c_slabs (kmalloc_cache_size st ! i))[k := s]) = map slab_shape (c_slabs (kmalloc_cache_size st ! i))"
    by (simp add: map_update) (metis k list_update_id map_update nth_map)
  then show "same_shape st ?st" using frames sizes by (simp add: same_shape_def nth) (simp add: put_slab_def)
  have sub: "sl_page s = sl_page (slab_at st i k)" "sl_address s = sl_address (slab_at st i k)"
    using shape by (simp_all add: slab_shape_def)
  have "cache_ok i (kmalloc_cache_size ?st ! i)"
    using D(4) [OF i] D(3) [OF i] ok k nd
    by (auto simp: cache_ok_def nth list_all_iff nth_list_update sum_list_replace split: if_splits)
  then have "\<forall>i'<16. cache_ok i' (kmalloc_cache_size ?st ! i')" using D(4) by (simp add: nth)
  moreover have "\<forall>i' k'. active st i' k' \<longrightarrow> frame_ok (sl_frames st) (slab_at ?st i' k')"
    using D(5) sub by (simp add: at frame_ok_def)
  moreover have "sl_page (slab_at ?st i' k') = sl_page (slab_at st i' k')" for i' k' using sub by (simp add: at)
  ultimately show "slabs_wf lowest ?st"
    using wf unfolding slabs_wf_iff active frames sizes by presburger
qed

section \<open>Taking an object\<close>

lemma slab_ok_mark:
  assumes ok: "slab_ok sz s" and j: "j < unat (color_count s)" "\<not> bm_test (color_map s) j"
  shows "slab_ok sz (mark_object j s)"
proof -
  note cnt = bm.count_mark [of 0 j "unat (color_count s)" "color_map s"]
  from ok j cnt have free: "Suc (count_clear (bm_test (bm_set (color_map s) j)) 0 (unat (color_count s))) = unat (sl_free s)"
    by (simp add: slab_ok_def)
  then have "sl_free s \<noteq> 0" by auto
  then have 1: "unat (sl_free s - 1) = unat (sl_free s) - 1" by (rule unat_minus_1)
  have "unat (sl_using s) < unat (color_count s)" using ok free by (simp add: slab_ok_def)
  then have 2: "unat (sl_using s + 1) = unat (sl_using s) + 1"
    using unat_less_2p64 [of "color_count s"] by (intro unat_plus_one) simp_all
  show ?thesis using ok free 1 2 by (simp add: slab_ok_def mark_object_def)
qed

lemma slab_ok_unmark:
  assumes ok: "slab_ok sz s" and j: "j < unat (color_count s)" "bm_test (color_map s) j"
  shows "slab_ok sz (unmark_object j s)" "sl_using s \<noteq> 0"
proof -
  note cnt = bm.count_unmark [of 0 j "unat (color_count s)" "color_map s"]
  from ok j cnt have free: "count_clear (bm_test (bm_clear (color_map s) j)) 0 (unat (color_count s)) = Suc (unat (sl_free s))"
    by (simp add: slab_ok_def)
  then have less: "unat (sl_free s) < unat (color_count s)"
    using count_clear_le [of "bm_test (bm_clear (color_map s) j)" 0 "unat (color_count s)"] by simp
  then have 1: "unat (sl_free s + 1) = unat (sl_free s) + 1"
    using unat_less_2p64 [of "color_count s"] by (intro unat_plus_one) simp_all
  have "0 < unat (sl_using s)" using ok less by (simp add: slab_ok_def)
  then show u: "sl_using s \<noteq> 0" by auto
  then have 2: "unat (sl_using s - 1) = unat (sl_using s) - 1" by (rule unat_minus_1)
  show "slab_ok sz (unmark_object j s)"
    using ok free less 1 2 by (simp add: slab_ok_def unmark_object_def)
qed

lemma mark_object_shape [simp]: "slab_shape (mark_object j s) = slab_shape s"
  by (simp add: slab_shape_def mark_object_def)

lemma unmark_object_shape [simp]: "slab_shape (unmark_object j s) = slab_shape s"
  by (simp add: slab_shape_def unmark_object_def)

text \<open>Slot \<open>(i, k, j)\<close> of the heap is in use after the step, and nothing else has changed.\<close>

definition takes_slot :: "slabs \<Rightarrow> nat \<Rightarrow> nat \<Rightarrow> nat \<Rightarrow> slabs \<Rightarrow> bool" where
  "takes_slot st i k j st' \<longleftrightarrow> active st i k \<and> j < unat (color_count (slab_at st i k)) \<and> \<not> in_use st i k j
     \<and> (\<forall>i' k' j'. in_use st' i' k' j' \<longleftrightarrow> in_use st i' k' j' \<or> i' = i \<and> k' = k \<and> j' = j)"

lemma take_object_takes:
  assumes wf: "slabs_wf lowest st" and act: "active st i k" and free: "sl_free (slab_at st i k) \<noteq> 0"
  obtains j st' where "take_object i k st = (obj_addr st i k j, st')" "takes_slot st i k j st'"
    "slabs_wf lowest st'" "same_shape st st'"
proof -
  let ?s = "slab_at st i k"
  note ok = slabs_wfD(6) [OF wf act]
  have "0 < count_clear (bm_test (color_map ?s)) 0 (unat (color_count ?s))"
    using ok free unfolding slab_ok_def by (metis gr0I unat_eq_zero)
  then have "\<exists>x\<in>set [0..<unat (color_count ?s)]. \<not> bm_test (color_map ?s) x" by (auto simp: count_clear_pos)
  then obtain j where scan: "color_scan (color_map ?s) (unat (color_count ?s)) 0 = Some j"
    unfolding color_scan_0 by (cases "List.find (\<lambda>i. \<not> bm_test (color_map ?s) i) [0..<unat (color_count ?s)]")
      (auto simp: find_None_iff)
  then have j: "j < unat (color_count ?s)" "\<not> bm_test (color_map ?s) j"
    unfolding color_scan_0 by (auto simp: find_Some_iff)
  let ?t = "mark_object j ?s"
  have eq: "snd (take_object i k st) = put_slab i k ?t st"
    using slabs_wfD(2) [OF wf] act scan
    by (simp add: take_object_def put_slab_def Let_def mark_object_def upd_cache_def active_def algebra_simps)
  note P = put_slab_wf [OF wf act mark_object_shape slab_ok_mark [OF ok j]]
  have "takes_slot st i k j (put_slab i k ?t st)"
    unfolding takes_slot_def in_use_def P(3,4) using act j
    by (auto simp: mark_object_def bm_test_set)
  then show ?thesis
    using P(1,2) scan eq that [of j "put_slab i k ?t st"]
    by (simp add: take_object_def Let_def obj_addr_def)
qed

lemma sum_list_word_nonzero: "sum_list (map f xs) \<noteq> (0 :: u64) \<Longrightarrow> \<exists>k<length xs. f (xs ! k) \<noteq> 0"
proof (induction xs)
  case (Cons x xs)
  then show ?case by (cases "f x = 0") (auto intro: exI [of _ 0])
qed simp

lemma pick_slab_free:
  assumes ok: "cache_ok i c" and free: "total_free c \<noteq> 0"
  shows "pick_slab c < length (c_slabs c)" "sl_free (c_slabs c ! pick_slab c) \<noteq> 0" "\<not> dormant i (pick_slab c)"
proof -
  from ok free have "\<exists>k<length (c_slabs c). sl_free (c_slabs c ! k) \<noteq> 0"
    by (intro sum_list_word_nonzero) (simp add: cache_ok_def)
  then obtain k where "List.find (\<lambda>k. sl_free (c_slabs c ! k) \<noteq> 0) [0..<length (c_slabs c)] = Some k"
    by (cases "List.find (\<lambda>k. sl_free (c_slabs c ! k) \<noteq> 0) [0..<length (c_slabs c)]") (auto simp: find_None_iff)
  note f = this
  have k: "pick_slab c = k" "k < length (c_slabs c)" "sl_free (c_slabs c ! k) \<noteq> 0"
    using f f [unfolded find_Some_iff] by (auto simp: pick_slab_def)
  then show "pick_slab c < length (c_slabs c)" "sl_free (c_slabs c ! pick_slab c) \<noteq> 0" by simp_all
  show "\<not> dormant i (pick_slab c)" using ok k by (auto simp: cache_ok_def list_all_iff)
qed

section \<open>Adding a slab\<close>

definition unowned :: "slabs \<Rightarrow> nat \<Rightarrow> bool" where
  "unowned st pg \<longleftrightarrow> (\<forall>i k. active st i k \<longrightarrow> sl_page (slab_at st i k) \<noteq> pg)"

definition fresh_slab :: "u64 \<Rightarrow> slab \<Rightarrow> bool" where
  "fresh_slab sz s \<longleftrightarrow> slab_ok sz s \<and> sl_using s = 0 \<and> sl_free s = color_count s"

lemma fresh_slab_unused: "fresh_slab sz s \<Longrightarrow> j < unat (color_count s) \<Longrightarrow> \<not> bm_test (color_map s) j"
proof
  assume f: "fresh_slab sz s" and j: "j < unat (color_count s)" "bm_test (color_map s) j"
  from f have "slab_ok sz s" "sl_using s = 0" by (simp_all add: fresh_slab_def)
  with slab_ok_unmark(2) [OF _ j] show False by simp
qed

lemma add_slab_wf:
  assumes wf: "slabs_wf lowest st" and i: "i < 16" and s: "fresh_slab (cache_sizes ! i) s"
    and fr: "frame_ok (sl_frames st) s" "unowned st (sl_page s)"
  defines "n \<equiv> length (c_slabs (kmalloc_cache_size st ! i))"
  shows "slabs_wf lowest (add_slab i s st)"
    "slab_at (add_slab i s st) i' k' = (if i' = i \<and> k' = n then s else slab_at st i' k') \<or> \<not> active (add_slab i s st) i' k'"
    "active (add_slab i s st) i' k' \<longleftrightarrow> active st i' k' \<or> i' = i \<and> k' = n"
    "in_use (add_slab i s st) = in_use st"
proof -
  let ?st = "add_slab i s st"
  note D = slabs_wfD [OF wf]
  have nth: "kmalloc_cache_size ?st ! i' = (if i' = i then (kmalloc_cache_size st ! i)\<lparr>
      total_free := total_free (kmalloc_cache_size st ! i) + color_count s,
      c_slabs := c_slabs (kmalloc_cache_size st ! i) @ [s]\<rparr> else kmalloc_cache_size st ! i')" for i'
    using i D(2) by (simp add: add_slab_def)
  have n: "n \<noteq> 0" using D(4) [OF i] by (simp add: cache_ok_def n_def)
  show active: "active ?st i' k' \<longleftrightarrow> active st i' k' \<or> i' = i \<and> k' = n" for i' k'
    using n i by (auto simp: active_def nth n_def dormant_def)
  have at: "active st i' k' \<Longrightarrow> slab_at ?st i' k' = slab_at st i' k'" "slab_at ?st i n = s" for i' k'
    by (auto simp: nth n_def nth_append active_def)
  have nact: "\<not> active st i n" by (simp add: active_def n_def)
  show "slab_at ?st i' k' = (if i' = i \<and> k' = n then s else slab_at st i' k') \<or> \<not> active ?st i' k'" for i' k'
    using at active by metis
  have "in_use ?st i' k' j' \<longleftrightarrow> in_use st i' k' j'" for i' k' j'
    unfolding in_use_def active using at(1) [of i' k'] at(2) fresh_slab_unused [OF s] nact by auto
  then show "in_use ?st = in_use st" by (simp add: fun_eq_iff)
  have sizes: "map c_size (kmalloc_cache_size ?st) = map c_size (kmalloc_cache_size st)"
    using i D(2) by (intro nth_equalityI) (simp_all add: add_slab_def)
  have frames: "sl_frames ?st = sl_frames st" by (simp add: add_slab_def)
  have "cache_ok i (kmalloc_cache_size ?st ! i)"
    using D(4) [OF i] D(3) [OF i] s n
    by (auto simp: cache_ok_def nth fresh_slab_def list_all_iff nth_append n_def dormant_def split: if_splits)
  then have "\<forall>i'<16. cache_ok i' (kmalloc_cache_size ?st ! i')" using D(4) by (simp add: nth)
  moreover have "\<forall>i' k'. active ?st i' k' \<longrightarrow> frame_ok (sl_frames st) (slab_at ?st i' k')"
    using D(5) fr(1) at active by metis
  moreover have "\<forall>i' k' i'' k''. active ?st i' k' \<longrightarrow> active ?st i'' k'' \<longrightarrow>
      sl_page (slab_at ?st i' k') = sl_page (slab_at ?st i'' k'') \<longrightarrow> i' = i'' \<and> k' = k''"
    using D(7) fr(2) at active unfolding unowned_def by metis
  ultimately show "slabs_wf lowest ?st"
    using wf unfolding slabs_wf_iff frames sizes by blast
qed

lemma count_clear_none: "(\<And>i. i < n \<Longrightarrow> \<not> P i) \<Longrightarrow> count_clear P 0 n = n"
  by (simp add: count_clear_all)

lemma fresh_map_slab:
  assumes "0 < unat (color_count s)" "unat sz * unat (color_count s) \<le> 2 ^ 21"
    "sl_free s = color_count s" "sl_using s = 0" "color_map s = fresh_map (unat (color_count s))"
  shows "fresh_slab sz s"
  using assms by (simp add: fresh_slab_def slab_ok_def count_clear_none fresh_map_test)

section \<open>Steps that only touch frames\<close>

lemma pmm_wf_same:
  assumes "pmm_wf s" "same_geom s s'" "bits_map s' = bits_map s"
    "\<And>y. page_free_count (zones_struct s' y) = page_free_count (zones_struct s y)
      \<and> page_using_count (zones_struct s' y) = page_using_count (zones_struct s y)"
  shows "pmm_wf s'"
proof -
  note D = same_geomD [OF assms(2)]
  have "zone_ok s' = zone_ok s" "page_ok s' = page_ok s"
    by (rule ext, simp add: zone_ok_def page_ok_def Let_def D assms(3,4) split: option.split)+
  with assms(1) show ?thesis by (simp add: pmm_wf_def D)
qed

lemma page_clean_Some:
  assumes "zone_struct (pages_struct s i) = Some z"
  obtains s' where "page_clean i s = Some s'" "same_geom s s'" "bits_map s' = bits_map s"
    "\<And>y. page_free_count (zones_struct s' y) = page_free_count (zones_struct s y)
      \<and> page_using_count (zones_struct s' y) = page_using_count (zones_struct s y)"
  using assms
  by (intro that [of "the (page_clean i s)"]) (simp_all add: page_clean_def Let_def upd_page_def upd_zone_def
      same_geom_def zone_geom_def page_geom_def)

lemma heap_frames_step:
  assumes "heap_frames lowest m" "pmm_wf m'" "same_geom m m'"
  shows "heap_frames lowest m'"
  using assms by (simp add: heap_frames_def linear_frames_geom same_geomD)

lemma slabs_wf_frames:
  assumes wf: "slabs_wf lowest st" and m: "pmm_wf m" "same_geom (sl_frames st) m"
    and bits: "\<And>i k. active st i k \<Longrightarrow> bm_test (bits_map m) (sl_page (slab_at st i k))"
  shows "slabs_wf lowest (st\<lparr>sl_frames := m\<rparr>)"
proof -
  note D = slabs_wfD [OF wf]
  have "active (st\<lparr>sl_frames := m\<rparr>) = active st" by (simp add: fun_eq_iff active_def)
  moreover have "frame_ok m (slab_at st i k)" if "active st i k" for i k
    using D(5) [OF that] bits [OF that] by (simp add: frame_ok_def same_geomD [OF m(2)])
  moreover note heap_frames_step [OF D(1) m]
  ultimately show ?thesis using wf unfolding slabs_wf_iff by simp
qed

lemma slabs_wf_creating [simp]: "slabs_wf lowest (st\<lparr>kmalloc_creating := b\<rparr>) = slabs_wf lowest st"
  by (simp add: slabs_wf_def active_list_def)

lemma in_use_update [simp]:
  "in_use (st\<lparr>kmalloc_creating := b\<rparr>) = in_use st" "in_use (st\<lparr>sl_frames := m\<rparr>) = in_use st"
  "active (st\<lparr>kmalloc_creating := b\<rparr>) = active st" "active (st\<lparr>sl_frames := m\<rparr>) = active st"
  "unowned (st\<lparr>kmalloc_creating := b\<rparr>) = unowned st" "unowned (st\<lparr>sl_frames := m\<rparr>) = unowned st"
  "obj_addr (st\<lparr>kmalloc_creating := b\<rparr>) = obj_addr st" "obj_addr (st\<lparr>sl_frames := m\<rparr>) = obj_addr st"
  by (simp_all add: fun_eq_iff in_use_def active_def unowned_def obj_addr_def)

text \<open>Objects in use stay in use, where they are.\<close>

definition grows :: "slabs \<Rightarrow> slabs \<Rightarrow> bool" where
  "grows st st' \<longleftrightarrow> (\<forall>i k j. in_use st i k j \<longrightarrow> in_use st' i k j \<and> obj_addr st' i k j = obj_addr st i k j)"

lemma grows_refl [simp]: "grows st st"
  by (simp add: grows_def)

lemma grows_trans [trans]: "grows a b \<Longrightarrow> grows b c \<Longrightarrow> grows a c"
  unfolding grows_def by metis

lemma same_shapeD:
  assumes "same_shape st st'" "length (kmalloc_cache_size st) = 16"
  shows "active st' i k = active st i k" "unowned st' = unowned st"
    "active st i k \<Longrightarrow> obj_addr st' i k j = obj_addr st i k j"
    "sl_frames st' = sl_frames st" "kmalloc_creating st' = kmalloc_creating st"
proof -
  from assms(1) have "length (map c_size (kmalloc_cache_size st')) = length (map c_size (kmalloc_cache_size st))"
    unfolding same_shape_def by metis
  then have len: "length (kmalloc_cache_size st') = 16" using assms(2) by simp
  have sh: "map slab_shape (c_slabs (kmalloc_cache_size st' ! i)) = map slab_shape (c_slabs (kmalloc_cache_size st ! i))"
    if "i < 16" for i using assms that by (simp add: same_shape_def)
  then have l: "i < 16 \<Longrightarrow> length (c_slabs (kmalloc_cache_size st' ! i)) = length (c_slabs (kmalloc_cache_size st ! i))" for i
    by (metis length_map)
  show act: "active st' i k = active st i k" for i k using l by (auto simp: active_def)
  have slab: "slab_shape (slab_at st' i k) = slab_shape (slab_at st i k)" if "active st i k" for i k
    using that sh [of i] l [of i] by (metis active_def nth_map)
  then show "unowned st' = unowned st" by (auto simp: fun_eq_iff unowned_def act slab_shape_def)
  have "c_size (kmalloc_cache_size st' ! i) = c_size (kmalloc_cache_size st ! i)" if "i < 16" for i
    using assms len that unfolding same_shape_def by (metis nth_map)
  then show "active st i k \<Longrightarrow> obj_addr st' i k j = obj_addr st i k j"
    using slab by (simp add: obj_addr_def slab_shape_def active_def)
qed (use assms in \<open>simp_all add: same_shape_def\<close>)

lemma takes_slot_grows:
  assumes "takes_slot st i k j st'" "same_shape st st'" "length (kmalloc_cache_size st) = 16"
  shows "grows st st'"
  using assms same_shapeD(3) [OF assms(2,3)] by (simp add: grows_def takes_slot_def) (auto simp: in_use_def)

lemma frame_facts:
  assumes wf: "slabs_wf lowest st" and s: "slab_at st i k = s" "active st i k"
  obtains z where "sl_page s < unat (pages_size (sl_frames st))" "zone_struct (pages_struct (sl_frames st) (sl_page s)) = Some z"
    "bm_test (bits_map (sl_frames st)) (sl_page s)"
  using slabs_wfD(5) [OF wf s(2)] s(1) by (auto simp: frame_ok_def)

section \<open>Addresses of objects\<close>

lemma unat_PAGE_OFFSET: "unat PAGE_OFFSET = 2 ^ 64 - 2 ^ 47"
  by (simp add: PAGE_OFFSET_def)

lemma slab_address:
  assumes wf: "slabs_wf lowest st" and act: "active st i k"
  shows "unat (sl_address (slab_at st i k)) = 2 ^ 64 - 2 ^ 47 + unat lowest + sl_page (slab_at st i k) * 2 ^ 21"
    "unat (sl_address (slab_at st i k)) + 2 ^ 21 \<le> 2 ^ 64"
    "unat (sl_address (slab_at st i k)) mod 2 ^ 21 = 0"
proof -
  let ?s = "slab_at st i k" and ?m = "sl_frames st"
  from slabs_wfD(5) [OF wf act] have f: "sl_page ?s < unat (pages_size ?m)" "zone_struct (pages_struct ?m (sl_page ?s)) \<noteq> None"
    "sl_address ?s = Phy_To_Virt (phy_address (pages_struct ?m (sl_page ?s)))" by (simp_all add: frame_ok_def)
  from slabs_wfD(1) [OF wf] have h: "linear_frames lowest ?m" "unat lowest mod 2 ^ 21 = 0"
    "unat lowest + unat (pages_size ?m) * 2 ^ 21 \<le> 2 ^ 47" by (simp_all add: heap_frames_def)
  have "Suc (sl_page ?s) * 2 ^ 21 \<le> unat (pages_size ?m) * 2 ^ 21" using f(1) by (intro mult_le_mono1) simp
  with h(3) have top: "unat lowest + sl_page ?s * 2 ^ 21 + 2 ^ 21 \<le> 2 ^ 47" by simp
  note pa = linear_frames_unat(1) [OF h(1) f(1,2)]
  show a: "unat (sl_address ?s) = 2 ^ 64 - 2 ^ 47 + unat lowest + sl_page ?s * 2 ^ 21"
    unfolding f(3) Phy_To_Virt_def using top pa unat_PAGE_OFFSET by (subst unat_add_small) simp_all
  show "unat (sl_address ?s) + 2 ^ 21 \<le> 2 ^ 64" using a top by simp
  have "(2 ^ 21 :: nat) dvd 2 ^ 64 - 2 ^ 47" "(2 ^ 21 :: nat) dvd unat lowest" "(2 ^ 21 :: nat) dvd sl_page ?s * 2 ^ 21"
    using h(2) by (simp_all add: mod_eq_0_iff_dvd)
  then show "unat (sl_address ?s) mod 2 ^ 21 = 0" unfolding a by (metis dvd_add mod_eq_0_iff_dvd)
qed

lemma obj_addr_unat:
  assumes wf: "slabs_wf lowest st" and act: "active st i k" and j: "j < unat (color_count (slab_at st i k))"
  shows "unat (obj_addr st i k j) = unat (sl_address (slab_at st i k)) + unat (cache_sizes ! i) * j"
    "unat (cache_sizes ! i) * j + unat (cache_sizes ! i) \<le> 2 ^ 21" "obj_addr st i k j \<noteq> 0"
proof -
  let ?sz = "unat (cache_sizes ! i)"
  note ad = slab_address [OF wf act]
  from act have i: "i < 16" by (simp add: active_def)
  have "?sz * Suc j \<le> ?sz * unat (color_count (slab_at st i k))" using j by (intro mult_le_mono2) simp
  also have "\<dots> \<le> 2 ^ 21" using slabs_wfD(6) [OF wf act] by (simp add: slab_ok_def)
  finally show fit: "?sz * j + ?sz \<le> 2 ^ 21" by simp
  have pos: "0 < ?sz" using i by (simp add: cache_sizes_def small_sizes_def large_sizes_def less_Suc_eq numeral_eq_Suc) auto
  have "j \<le> ?sz * j" using pos by simp
  with fit pos have "j < 2 ^ 21" by linarith
  then have "unat (of_nat j :: u64) = j" by (simp add: unsigned_of_nat take_bit_nat_eq_self)
  with fit pos have m: "unat (cache_sizes ! i * of_nat j) = ?sz * j" by (simp add: unat_word_ariths)
  show eq: "unat (obj_addr st i k j) = unat (sl_address (slab_at st i k)) + ?sz * j"
    unfolding obj_addr_def slabs_wfD(3) [OF wf i] using fit pos ad(2) m by (subst unat_add_small) simp_all
  show "obj_addr st i k j \<noteq> 0"
  proof
    assume "obj_addr st i k j = 0"
    with eq ad(1) show False by simp
  qed
qed

section \<open>kmalloc\<close>

lemma cache_sizes_facts: "length cache_sizes = 16" "cache_sizes ! 15 = 1048576"
  by (simp_all add: cache_sizes_def small_sizes_def large_sizes_def)

lemma cache_index_ok:
  assumes wf: "slabs_wf lowest st" and sz: "\<not> sz > 1048576"
  shows "cache_index sz st < 16" "sz \<le> cache_sizes ! cache_index sz st"
    "i' < cache_index sz st \<Longrightarrow> cache_sizes ! i' < sz"
proof -
  let ?P = "\<lambda>c. \<not> c_size c \<ge> sz" and ?cs = "kmalloc_cache_size st"
  note D = slabs_wfD [OF wf]
  have last: "c_size (?cs ! 15) = 1048576" using D(3) [of 15] by (simp add: cache_sizes_facts)
  have "?cs ! 15 \<in> set ?cs" using D(2) by simp
  with last sz have "takeWhile ?P ?cs \<noteq> ?cs" unfolding takeWhile_eq_all_conv by force
  then have "length (takeWhile ?P ?cs) \<noteq> length ?cs"
    using takeWhile_eq_take [of ?P ?cs] by (metis take_all order_refl)
  with length_takeWhile_le [of ?P ?cs] have l: "length (takeWhile ?P ?cs) < length ?cs" by simp
  then show i: "cache_index sz st < 16" using D(2) by (simp add: cache_index_def)
  from nth_length_takeWhile [OF l] show "sz \<le> cache_sizes ! cache_index sz st"
    using D(3) [OF i] by (simp add: cache_index_def)
  assume less: "i' < cache_index sz st"
  then have "?cs ! i' \<in> set (takeWhile ?P ?cs)"
    using takeWhile_nth [of i' ?P ?cs] by (metis cache_index_def nth_mem)
  then have "?P (?cs ! i')" by (rule set_takeWhileD [THEN conjunct2])
  with D(3) [of i'] less i show "cache_sizes ! i' < sz" by simp
qed

lemma take_free:
  assumes wf: "slabs_wf lowest st" and sz: "\<not> sz > 1048576"
    and free: "total_free (kmalloc_cache_size st ! cache_index sz st) \<noteq> 0"
  obtains k j st' where "kmalloc_with create sz st = Some (obj_addr st (cache_index sz st) k j, st')"
    "takes_slot st (cache_index sz st) k j st'" "slabs_wf lowest st'" "same_shape st st'"
proof -
  let ?i = "cache_index sz st"
  note i = cache_index_ok(1) [OF wf sz]
  note p = pick_slab_free [OF slabs_wfD(4) [OF wf i] free]
  then have act: "active st ?i (pick_slab (kmalloc_cache_size st ! ?i))" using i by (simp add: active_def)
  from take_object_takes [OF wf act p(2)] obtain j st' where
    "take_object ?i (pick_slab (kmalloc_cache_size st ! ?i)) st = (obj_addr st ?i (pick_slab (kmalloc_cache_size st ! ?i)) j, st')"
    "takes_slot st ?i (pick_slab (kmalloc_cache_size st ! ?i)) j st'" "slabs_wf lowest st'" "same_shape st st'" by metis
  then show ?thesis using that free sz by (simp add: kmalloc_with_def Let_def)
qed

lemma kmalloc_nested_ok:
  assumes wf: "slabs_wf lowest st" and cr: "kmalloc_creating st" and sz: "\<not> sz > 1048576"
  obtains a st' where "kmalloc_nested sz st = Some (a, st')" "slabs_wf lowest st'" "same_shape st st'" "grows st st'"
    "a = 0 \<longleftrightarrow> total_free (kmalloc_cache_size st ! cache_index sz st) = 0"
proof (cases "total_free (kmalloc_cache_size st ! cache_index sz st) = 0")
  case True
  with cr sz have "kmalloc_nested sz st = Some (0, st)"
    by (simp add: kmalloc_nested_def kmalloc_with_def kmalloc_create_nested_def Let_def)
  then show ?thesis using that [of 0 st] wf True by simp
next
  case False
  from take_free [OF wf sz False] obtain k j st' where t:
    "kmalloc_with kmalloc_create_nested sz st = Some (obj_addr st (cache_index sz st) k j, st')"
    "takes_slot st (cache_index sz st) k j st'" "slabs_wf lowest st'" "same_shape st st'" by metis
  moreover have "obj_addr st (cache_index sz st) k j \<noteq> 0"
    using obj_addr_unat(3) [OF wf] t(2) by (simp add: takes_slot_def)
  ultimately show ?thesis
    using that False takes_slot_grows [OF t(2,4) slabs_wfD(2) [OF wf]] by (simp add: kmalloc_nested_def)
qed

end
