(* ===== verification/Heap.thy ===== *)
theory Heap
  imports Slab
begin

text \<open>
  The kernel heap as its clients see it: what \<open>kmalloc\<close>, \<open>kfree\<close> and \<open>ksize\<close> of
  \<^verbatim>\<open>kernel/memory/slab.c\<close> promise, and what \<open>slab_init\<close> establishes.
\<close>

section \<open>Creating a slab\<close>

lemma in_page_slab_fresh:
  assumes "sz \<in> set small_sizes"
  shows "fresh_slab sz (in_page_slab sz pg m)"
  using assms by (intro fresh_map_slab)
    (auto simp: in_page_slab_def Let_def small_sizes_def PAGE_2M_SIZE_def sizeof_Slab_def)

lemma far_slab_fresh:
  assumes "sz \<in> set large_sizes"
  shows "fresh_slab sz (far_slab sz pg self mp m)"
  using assms by (intro fresh_map_slab)
    (auto simp: far_slab_def Let_def large_sizes_def PAGE_2M_SIZE_def)

lemma new_frame:
  assumes "heap_frames lowest m"
  obtains r m1 where "alloc_pages ZONE_NORMAL 1 m = Some (r, m1)" "pmm_wf m1" "same_geom m m1" "r = None \<Longrightarrow> m1 = m"
    "\<And>pg. r = Some pg \<Longrightarrow> \<not> bm_test (bits_map m) pg \<and> (\<exists>m2. page_init pg flags m1 = Some m2 \<and> pmm_wf m2
      \<and> same_geom m m2 \<and> bm_test (bits_map m2) = (bm_test (bits_map m))(pg := True)
      \<and> pg < unat (pages_size m2) \<and> zone_struct (pages_struct m2 pg) \<noteq> None)"
proof -
  from assms have wf: "pmm_wf m" by (simp add: heap_frames_def)
  from alloc_normal [OF wf] obtain r m1 where a: "alloc_pages ZONE_NORMAL 1 m = Some (r, m1)" "pmm_wf m1" "same_geom m m1"
    "case r of None \<Rightarrow> m1 = m | Some p \<Rightarrow> p < unat (pages_size m) \<and> zone_struct (pages_struct m p) \<noteq> None
       \<and> \<not> bm_test (bits_map m) p \<and> bm_test (bits_map m1) = (bm_test (bits_map m))(p := True)" by blast
  have "\<not> bm_test (bits_map m) pg \<and> (\<exists>m2. page_init pg flags m1 = Some m2 \<and> pmm_wf m2 \<and> same_geom m m2
      \<and> bm_test (bits_map m2) = (bm_test (bits_map m))(pg := True)
      \<and> pg < unat (pages_size m2) \<and> zone_struct (pages_struct m2 pg) \<noteq> None)" if r: "r = Some pg" for pg
  proof -
    from a(4) r have p: "pg < unat (pages_size m)" "zone_struct (pages_struct m pg) \<noteq> None"
      "\<not> bm_test (bits_map m) pg" "bm_test (bits_map m1) = (bm_test (bits_map m))(pg := True)" by simp_all
    from p(2) obtain z where "zone_struct (pages_struct m1 pg) = Some z" using same_geomD(6) [OF a(3)] by auto
    from page_init_Some [OF this] obtain m2 where m2: "page_init pg flags m1 = Some m2" "same_geom m1 m2"
      "bits_map m2 = bits_map m1" "\<And>y. page_free_count (zones_struct m2 y) = page_free_count (zones_struct m1 y)
      \<and> page_using_count (zones_struct m2 y) = page_using_count (zones_struct m1 y)" by metis
    have "same_geom m m2" by (rule same_geom_trans [OF a(3) m2(2)])
    moreover have "pmm_wf m2" by (rule pmm_wf_same [OF a(2) m2(2-4)])
    moreover from \<open>same_geom m m2\<close> have "pg < unat (pages_size m2) \<and> zone_struct (pages_struct m2 pg) \<noteq> None"
      using p(1,2) by (simp add: same_geomD)
    ultimately show ?thesis using p(3,4) m2(1,3) by simp
  qed
  moreover have "m1 = m" if "r = None" using a(4) that by simp
  ultimately show ?thesis using that [OF a(1-3)] by blast
qed

lemma kmalloc_create_far:
  assumes wf: "slabs_wf lowest st" and cr: "kmalloc_creating st" and sz: "sz \<in> set large_sizes"
    and pg: "pg < unat (pages_size (sl_frames st))" "zone_struct (pages_struct (sl_frames st) pg) \<noteq> None"
      "bm_test (bits_map (sl_frames st)) pg" "unowned st pg"
    and self: "kmalloc_nested sizeof_Slab st = Some (self, st2)"
    and mp: "kmalloc_nested (color_length_of (PAGE_2M_SIZE div sz)) st2 = Some (mp, st3)"
  shows "slabs_wf lowest st3" "same_shape st st3" "grows st st3" "frame_ok (sl_frames st3) (far_slab sz pg self mp (sl_frames st3))"
    "unowned st3 pg"
proof -
  have n: "\<not> sizeof_Slab > 1048576" "\<not> color_length_of (PAGE_2M_SIZE div sz) > 1048576"
    using sz by (auto simp: sizeof_Slab_def color_length_of_def large_sizes_def PAGE_2M_SIZE_def)
  from kmalloc_nested_ok [OF wf cr n(1)] self have s2: "slabs_wf lowest st2" "same_shape st st2" "grows st st2" by auto
  note d2 = same_shapeD [OF s2(2) slabs_wfD(2) [OF wf]]
  from kmalloc_nested_ok [OF s2(1) _ n(2)] mp cr d2(5) have s3: "slabs_wf lowest st3" "same_shape st2 st3" "grows st2 st3"
    by auto
  note d3 = same_shapeD [OF s3(2) slabs_wfD(2) [OF s2(1)]]
  show "slabs_wf lowest st3" "same_shape st st3" "grows st st3"
    using s3 s2 same_shape_trans grows_trans by blast+
  show "unowned st3 pg" using pg(4) d2(2) d3(2) by simp
  show "frame_ok (sl_frames st3) (far_slab sz pg self mp (sl_frames st3))"
    using pg(1-3) by (simp add: frame_ok_def far_slab_def Let_def d2(4) d3(4))
qed

text \<open>What \<open>kmalloc_create\<close> promises when it returns.\<close>

text \<open>A frame taken from the allocator that no slab owns.\<close>

definition spare :: "slabs \<Rightarrow> nat \<Rightarrow> bool" where
  "spare st pg \<longleftrightarrow> pg < unat (pages_size (sl_frames st)) \<and> zone_struct (pages_struct (sl_frames st) pg) \<noteq> None
     \<and> bm_test (bits_map (sl_frames st)) pg \<and> unowned st pg"

text \<open>The frames keep their addresses, and those that other components hold stay theirs.\<close>

definition keeps_frames :: "slabs \<Rightarrow> slabs \<Rightarrow> bool" where
  "keeps_frames st st' \<longleftrightarrow> same_geom (sl_frames st) (sl_frames st') \<and> (\<forall>pg. spare st pg \<longrightarrow> spare st' pg)"

lemma keeps_frames_refl [simp]: "keeps_frames st st"
  by (simp add: keeps_frames_def)

lemma keeps_frames_trans: "keeps_frames a b \<Longrightarrow> keeps_frames b c \<Longrightarrow> keeps_frames a c"
  using same_geom_trans by (auto simp: keeps_frames_def)

lemma keeps_frames_shape: "same_shape st st' \<Longrightarrow> length (kmalloc_cache_size st) = 16 \<Longrightarrow> keeps_frames st st'"
  by (simp add: keeps_frames_def spare_def same_shapeD(2,4))

lemma spare_creating [simp]: "spare (st\<lparr>kmalloc_creating := b\<rparr>) = spare st"
  by (simp add: fun_eq_iff spare_def unowned_def active_def)

lemma kmalloc_create_ok:
  assumes wf: "slabs_wf lowest st" and sz: "sz \<in> set cache_sizes" and cr: "\<not> kmalloc_creating st"
    and run: "kmalloc_create sz st = Some (r, st')"
  shows "slabs_wf lowest st' \<and> \<not> kmalloc_creating st' \<and> grows st st' \<and> keeps_frames st st' \<and>
    (\<forall>s. r = Some s \<longrightarrow> fresh_slab sz s \<and> frame_ok (sl_frames st') s \<and> unowned st' (sl_page s)
      \<and> \<not> spare st (sl_page s))"
proof -
  let ?m = "sl_frames st"
  note D = slabs_wfD [OF wf]
  obtain r0 m1 where m1: "alloc_pages ZONE_NORMAL 1 ?m = Some (r0, m1)" "pmm_wf m1" "same_geom ?m m1"
    "r0 = None \<Longrightarrow> m1 = ?m" "\<And>pg. r0 = Some pg \<Longrightarrow> \<not> bm_test (bits_map ?m) pg \<and> (\<exists>m2. page_init pg PG_Kernel m1 = Some m2
      \<and> pmm_wf m2 \<and> same_geom ?m m2 \<and> bm_test (bits_map m2) = (bm_test (bits_map ?m))(pg := True)
      \<and> pg < unat (pages_size m2) \<and> zone_struct (pages_struct m2 pg) \<noteq> None)"
    by (rule new_frame [OF D(1), of PG_Kernel]) blast
  show ?thesis
  proof (cases r0)
    case None
    with m1 run cr wf show ?thesis by (auto simp: kmalloc_create_def grows_def keeps_frames_def)
  next
    case (Some pg)
    from m1(5) [OF Some] obtain m2 where m2: "\<not> bm_test (bits_map ?m) pg" "page_init pg PG_Kernel m1 = Some m2" "pmm_wf m2"
      "same_geom ?m m2" "bm_test (bits_map m2) = (bm_test (bits_map ?m))(pg := True)" "pg < unat (pages_size m2)"
      "zone_struct (pages_struct m2 pg) \<noteq> None" by blast
    define st1 where "st1 = st\<lparr>kmalloc_creating := True, sl_frames := m2\<rparr>"
    have st1: "active st1 = active st" "in_use st1 = in_use st" "obj_addr st1 = obj_addr st" "unowned st1 = unowned st"
      "kmalloc_creating st1" "sl_frames st1 = m2" "kmalloc_cache_size st1 = kmalloc_cache_size st" by (simp_all add: st1_def)
    have un: "unowned st pg" using D(5) m2(1) by (auto simp: unowned_def frame_ok_def)
    have wf1: "slabs_wf lowest st1" unfolding st1_def
      by (rule slabs_wf_frames) (use wf m2 D(5) in \<open>simp_all add: frame_ok_def\<close>)
    have sp: "\<not> spare st pg" "keeps_frames st st1"
      using m2 by (simp_all add: spare_def keeps_frames_def st1 same_geomD [OF m2(4)])
    show ?thesis
    proof (cases "sz \<in> set small_sizes")
      case True
      with run cr m1(1) Some m2(2) have "r = Some (in_page_slab sz pg m2)" "st' = st1\<lparr>kmalloc_creating := False\<rparr>"
        by (auto simp: kmalloc_create_def Let_def st1_def)
      moreover have "frame_ok m2 (in_page_slab sz pg m2)" "sl_page (in_page_slab sz pg m2) = pg"
        using m2 by (simp_all add: frame_ok_def in_page_slab_def Let_def)
      ultimately show ?thesis using True wf1 un sp by (simp add: in_page_slab_fresh grows_def st1 keeps_frames_def)
    next
      case False
      with sz have large: "sz \<in> set large_sizes" by (simp add: cache_sizes_def)
      from run cr m1(1) Some m2(2) False large obtain self st2 mp st3 where
        n: "kmalloc_nested sizeof_Slab st1 = Some (self, st2)"
          "kmalloc_nested (color_length_of (PAGE_2M_SIZE div sz)) st2 = Some (mp, st3)" and
        res: "r = Some (far_slab sz pg self mp (sl_frames st3))" "st' = st3\<lparr>kmalloc_creating := False\<rparr>"
        by (auto simp: kmalloc_create_def Let_def st1_def split: option.splits if_splits)
      note F = kmalloc_create_far [OF wf1 st1(5) large _ _ _ _ n, of pg]
      have st3: "slabs_wf lowest st3" "same_shape st1 st3" "grows st1 st3"
        "frame_ok (sl_frames st3) (far_slab sz pg self mp (sl_frames st3))" "unowned st3 pg"
        using F m2 un by (simp_all add: st1)
      moreover have "keeps_frames st st3"
        using keeps_frames_shape [OF st3(2)] D(2) by (intro keeps_frames_trans [OF sp(2)]) (simp add: st1)
      moreover have "sl_page (far_slab sz pg self mp (sl_frames st3)) = pg" by (simp add: far_slab_def Let_def)
      ultimately show ?thesis using res far_slab_fresh [OF large] sp(1)
        by (simp add: grows_def st1 keeps_frames_def)
    qed
  qed
qed

section \<open>kmalloc\<close>

lemma kmalloc_new_slab:
  assumes wf: "slabs_wf lowest st" and i: "i < 16" and s: "fresh_slab (cache_sizes ! i) s"
    and fr: "frame_ok (sl_frames st) s" "unowned st (sl_page s)"
  defines "n \<equiv> length (c_slabs (kmalloc_cache_size st ! i))"
  obtains j st' where "take_object i n (add_slab i s st) = (obj_addr st' i n j, st')" "slabs_wf lowest st'" "grows st st'"
    "in_use st' i n j" "\<not> in_use st i n j" "kmalloc_creating st' = kmalloc_creating st"
    "\<And>pg. spare st pg \<Longrightarrow> pg \<noteq> sl_page s \<Longrightarrow> spare st' pg" "sl_frames st' = sl_frames st"
proof -
  let ?st = "add_slab i s st"
  note A = add_slab_wf [OF wf i s fr, folded n_def]
  have act: "active ?st i n" using A(3) by simp
  then have at: "slab_at ?st i n = s" using A(2) [of i n] by simp
  have "sl_free s \<noteq> 0" using s by (auto simp: fresh_slab_def slab_ok_def)
  from take_object_takes [OF A(1) act] at this obtain j st' where t: "take_object i n ?st = (obj_addr ?st i n j, st')"
    "takes_slot ?st i n j st'" "slabs_wf lowest st'" "same_shape ?st st'" by metis
  note len = slabs_wfD(2) [OF A(1)]
  note sd = same_shapeD [OF t(4) len]
  have "\<not> active st i n" by (simp add: active_def n_def)
  have keep: "obj_addr ?st i' k' j' = obj_addr st i' k' j'" if "in_use st i' k' j'" for i' k' j'
  proof -
    have "active st i' k'" using that by (simp add: in_use_def)
    with \<open>\<not> active st i n\<close> A(2) [of i' k'] A(3) [of i' k'] have "slab_at ?st i' k' = slab_at st i' k'" by auto
    moreover have "c_size (kmalloc_cache_size ?st ! i') = c_size (kmalloc_cache_size st ! i')"
      using slabs_wfD(3) [OF wf] slabs_wfD(3) [OF A(1)] \<open>active st i' k'\<close> by (simp add: active_def)
    ultimately show ?thesis by (simp add: obj_addr_def)
  qed
  have "grows st st'"
    using takes_slot_grows [OF t(2,4) len] keep by (simp add: grows_def A(4))
  moreover have "in_use st' i n j" "\<not> in_use st i n j"
    using t(2) A(4) by (simp_all add: takes_slot_def)
  moreover have "kmalloc_creating st' = kmalloc_creating st" using sd(5) by (simp add: add_slab_def)
  moreover have fr: "sl_frames st' = sl_frames st" using sd(4) by (simp add: add_slab_def upd_cache_def)
  moreover have "spare st' pg" if pg: "spare st pg" "pg \<noteq> sl_page s" for pg
    using pg A(2,3) at unfolding spare_def fr sd(2) unowned_def by metis
  ultimately show ?thesis using that [of st' j] t(1,3) sd(3) [OF act] by simp
qed

lemma kmalloc_cases:
  assumes wf: "slabs_wf lowest st" and cr: "\<not> kmalloc_creating st" and run: "kmalloc sz st = Some (a, st')"
  shows "slabs_wf lowest st' \<and> \<not> kmalloc_creating st' \<and> grows st st' \<and> keeps_frames st st' \<and>
    (a = 0 \<or> (\<exists>i k j. in_use st' i k j \<and> \<not> in_use st i k j \<and> a = obj_addr st' i k j
      \<and> i < 16 \<and> sz \<le> cache_sizes ! i \<and> (\<forall>i'<i. cache_sizes ! i' < sz)))"
proof (cases "sz > 1048576")
  case True
  with run wf cr show ?thesis by (auto simp: kmalloc_def kmalloc_with_def)
next
  case sz: False
  let ?i = "cache_index sz st"
  note I = cache_index_ok [OF wf sz]
  show ?thesis
  proof (cases "total_free (kmalloc_cache_size st ! ?i) = 0")
    case False
    from take_free [OF wf sz this] obtain k j st1 where t: "kmalloc sz st = Some (obj_addr st ?i k j, st1)"
      "takes_slot st ?i k j st1" "slabs_wf lowest st1" "same_shape st st1" unfolding kmalloc_def by metis
    note len = slabs_wfD(2) [OF wf]
    note sd = same_shapeD [OF t(4) len]
    have "in_use st1 ?i k j" "\<not> in_use st ?i k j" "active st ?i k" using t(2) by (simp_all add: takes_slot_def)
    moreover from this have "obj_addr st ?i k j = obj_addr st1 ?i k j" by (simp add: sd(3))
    moreover have "a = obj_addr st ?i k j" "st' = st1" using run t(1) by simp_all
    ultimately show ?thesis
      using t(3) takes_slot_grows [OF t(2,4) len] keeps_frames_shape [OF t(4) len] I cr sd(5) by blast
  next
    case True
    let ?c = "c_size (kmalloc_cache_size st ! ?i)"
    have c: "?c = cache_sizes ! ?i" by (rule slabs_wfD(3) [OF wf I(1)])
    from run sz True obtain r st1 where cre: "kmalloc_create ?c st = Some (r, st1)"
      by (auto simp: kmalloc_def kmalloc_with_def Let_def split: option.splits)
    have "?c \<in> set cache_sizes" unfolding c using I(1) by (simp add: cache_sizes_facts)
    note C = kmalloc_create_ok [OF wf this cr cre]
    show ?thesis
    proof (cases r)
      case None
      with C cre run sz True show ?thesis by (auto simp: kmalloc_def kmalloc_with_def Let_def)
    next
      case (Some s)
      let ?n = "length (c_slabs (kmalloc_cache_size st1 ! ?i))"
      from C Some have s: "fresh_slab (cache_sizes ! ?i) s" "frame_ok (sl_frames st1) s" "unowned st1 (sl_page s)"
        and w: "slabs_wf lowest st1" "\<not> kmalloc_creating st1" "grows st st1" "keeps_frames st st1" "\<not> spare st (sl_page s)"
        by (simp_all add: c)
      from kmalloc_new_slab [OF w(1) I(1) s] obtain j st2 where t: "take_object ?i ?n (add_slab ?i s st1) = (obj_addr st2 ?i ?n j, st2)"
        "slabs_wf lowest st2" "grows st1 st2" "in_use st2 ?i ?n j" "\<not> in_use st1 ?i ?n j"
        "kmalloc_creating st2 = kmalloc_creating st1" "\<And>pg. spare st1 pg \<Longrightarrow> pg \<noteq> sl_page s \<Longrightarrow> spare st2 pg"
        "sl_frames st2 = sl_frames st1" by metis
      have "a = obj_addr st2 ?i ?n j" "st' = st2"
        using run sz True cre Some t(1) by (auto simp: kmalloc_def kmalloc_with_def Let_def)
      moreover have "\<not> in_use st ?i ?n j" using t(5) w(3) by (auto simp: grows_def)
      moreover have "keeps_frames st st2" using t(7,8) w(4,5) by (auto simp: keeps_frames_def)
      ultimately show ?thesis using t(2-6) w(1-3) I grows_trans by blast
    qed
  qed
qed

text \<open>
  C16. When \<open>kmalloc\<close> returns, the invariant holds again and every object handed out before is
  still handed out at the same address. A non-NULL answer is the address of an object that was
  free, in the cache with the smallest object size that is at least the request.
\<close>

theorem kmalloc_fresh:
  assumes "slabs_wf lowest st" "\<not> kmalloc_creating st" "kmalloc sz st = Some (a, st')"
  shows "slabs_wf lowest st' \<and> \<not> kmalloc_creating st' \<and> grows st st' \<and>
    (a = 0 \<or> (\<exists>i k j. in_use st' i k j \<and> \<not> in_use st i k j \<and> a = obj_addr st' i k j
      \<and> i < 16 \<and> sz \<le> cache_sizes ! i \<and> (\<forall>i'<i. cache_sizes ! i' < sz)))"
  using kmalloc_cases [OF assms] by simp

section \<open>Objects do not overlap\<close>

lemma apart_in_slab:
  fixes sz j j' :: nat
  assumes "j \<noteq> j'"
  shows "sz * j + sz \<le> sz * j' \<or> sz * j' + sz \<le> sz * j"
proof -
  have "sz * Suc j \<le> sz * j' \<or> sz * Suc j' \<le> sz * j"
    using assms by (metis Suc_leI linorder_neq_iff mult_le_mono2)
  then show ?thesis by (simp add: add.commute)
qed

lemma apart_frames:
  assumes wf: "slabs_wf lowest st" and act: "active st i k" "active st i' k'" and ne: "\<not> (i = i' \<and> k = k')"
  shows "unat (sl_address (slab_at st i k)) + 2 ^ 21 \<le> unat (sl_address (slab_at st i' k'))
    \<or> unat (sl_address (slab_at st i' k')) + 2 ^ 21 \<le> unat (sl_address (slab_at st i k))"
proof -
  let ?p = "sl_page (slab_at st i k)" and ?q = "sl_page (slab_at st i' k')"
  have "?p \<noteq> ?q" using slabs_wfD(7) [OF wf act] ne by blast
  then have "?p * 2 ^ 21 + 2 ^ 21 \<le> ?q * 2 ^ 21 \<or> ?q * 2 ^ 21 + 2 ^ 21 \<le> ?p * 2 ^ 21"
    using apart_in_slab [OF \<open>?p \<noteq> ?q\<close>, of "2 ^ 21"] by (simp only: mult.commute)
  then show ?thesis unfolding slab_address(1) [OF wf act(1)] slab_address(1) [OF wf act(2)] by linarith
qed

lemma objects_disjoint:
  assumes wf: "slabs_wf lowest st" and used: "in_use st i k j" "in_use st i' k' j'" and ne: "(i, k, j) \<noteq> (i', k', j')"
  shows "(unat (obj_addr st i k j) + unat (cache_sizes ! i) \<le> unat (obj_addr st i' k' j')
      \<or> unat (obj_addr st i' k' j') + unat (cache_sizes ! i') \<le> unat (obj_addr st i k j))
    \<and> unat (obj_addr st i k j) + unat (cache_sizes ! i) \<le> 2 ^ 64"
proof -
  from used have act: "active st i k" "active st i' k'" and j: "j < unat (color_count (slab_at st i k))"
    "j' < unat (color_count (slab_at st i' k'))" by (simp_all add: in_use_def)
  note A = obj_addr_unat [OF wf act(1) j(1)] and B = obj_addr_unat [OF wf act(2) j(2)]
  have top: "unat (obj_addr st i k j) + unat (cache_sizes ! i) \<le> 2 ^ 64"
    using A(1,2) slab_address(2) [OF wf act(1)] by linarith
  show ?thesis
  proof (cases "i = i' \<and> k = k'")
    case True
    with ne have "j \<noteq> j'" by simp
    from apart_in_slab [OF this, of "unat (cache_sizes ! i)"] show ?thesis using True A(1) B(1) top by auto
  next
    case False
    from apart_frames [OF wf act this] show ?thesis
      using A(1,2) B(1,2) top by linarith
  qed
qed




section \<open>Finding the slab of an object\<close>

lemma find_unique:
  assumes "x \<in> set xs" "P x" "\<And>y. y \<in> set xs \<Longrightarrow> P y \<Longrightarrow> y = x"
  shows "List.find P xs = Some x"
proof (cases "List.find P xs")
  case None
  then show ?thesis using assms(1,2) by (auto simp: find_None_iff)
next
  case (Some y)
  then have "y \<in> set xs" "P y" by (auto simp: find_Some_iff)
  then show ?thesis using assms(3) Some by simp
qed

lemma locate_slab:
  assumes wf: "slabs_wf lowest st" and act: "active st i k"
  shows "locate (sl_address (slab_at st i k)) st = Some (i, k)"
  unfolding locate_def
proof (rule find_unique, goal_cases)
  case 1
  then show ?case using act slabs_wfD(2) [OF wf] by (auto simp: active_def image_iff)
next
  case 2
  then show ?case by simp
next
  case (3 y)
  obtain i' k' where y: "y = (i', k')" by (cases y)
  with 3 slabs_wfD(2) [OF wf] have i': "i' < 16" "k' < length (c_slabs (kmalloc_cache_size st ! i'))"
    and eq: "sl_address (slab_at st i' k') = sl_address (slab_at st i k)" by auto
  show ?case
  proof (cases "dormant i' k'")
    case True
    then have "sl_address (slab_at st i' k') < PAGE_OFFSET"
      using slabs_wfD(4) [OF wf i'(1)] i'(2) by (auto simp: cache_ok_def list_all_iff)
    then have "unat (sl_address (slab_at st i' k')) < 2 ^ 64 - 2 ^ 47"
      unfolding word_less_nat_alt unat_PAGE_OFFSET .
    with slab_address(1) [OF wf act] eq show ?thesis by simp
  next
    case False
    with i' have act': "active st i' k'" by (simp add: active_def)
    show ?thesis using apart_frames [OF wf act' act] eq y by auto
  qed
qed

lemma object_lookup:
  assumes wf: "slabs_wf lowest st" and act: "active st i k" and j: "j < unat (color_count (slab_at st i k))"
  shows "locate (obj_addr st i k j AND PAGE_2M_MASK) st = Some (i, k)"
    "unat (ucast ((obj_addr st i k j - sl_address (slab_at st i k)) div c_size (kmalloc_cache_size st ! i)) :: u32) = j"
proof -
  note A = obj_addr_unat [OF wf act j] and B = slab_address [OF wf act]
  let ?sz = "unat (cache_sizes ! i)" and ?b = "sl_address (slab_at st i k)"
  have pos: "0 < ?sz" using act
    by (simp add: active_def cache_sizes_def small_sizes_def large_sizes_def less_Suc_eq numeral_eq_Suc) auto
  have lt: "?sz * j < 2 ^ 21" using A(2) pos by linarith
  have "unat (obj_addr st i k j) mod 2 ^ 21 = ?sz * j"
    unfolding A(1) using B(3) lt by (metis add.left_neutral mod_add_left_eq mod_less)
  moreover have "PAGE_2M_MASK = NOT (mask 21)" by (simp add: PAGE_2M_MASK_def PAGE_2M_SIZE_def mask_eq_decr_exp)
  ultimately have "unat (obj_addr st i k j AND PAGE_2M_MASK) = unat ?b"
    using unat_and_not_mask [of "obj_addr st i k j" 21] A(1) by simp
  then have "obj_addr st i k j AND PAGE_2M_MASK = ?b" by (simp add: word_unat_eq_iff)
  then show "locate (obj_addr st i k j AND PAGE_2M_MASK) st = Some (i, k)" using locate_slab [OF wf act] by simp
  have "?b \<le> obj_addr st i k j" unfolding word_le_nat_alt A(1) by simp
  then have "unat (obj_addr st i k j - ?b) = ?sz * j" using A(1) by (simp add: unat_sub_small)
  moreover have "c_size (kmalloc_cache_size st ! i) = cache_sizes ! i" using slabs_wfD(3) [OF wf] act by (simp add: active_def)
  ultimately have "unat ((obj_addr st i k j - ?b) div c_size (kmalloc_cache_size st ! i)) = j"
    using pos by (simp add: unat_div)
  moreover have "j < 2 ^ 32"
  proof -
    have "j \<le> ?sz * j" using pos by simp
    then have "j < 2 ^ 21" using lt by (rule le_less_trans)
    then show ?thesis by simp
  qed
  ultimately show "unat (ucast ((obj_addr st i k j - ?b) div c_size (kmalloc_cache_size st ! i)) :: u32) = j"
    by (simp add: unsigned_ucast_eq take_bit_nat_eq_self)
qed

section \<open>Releasing a slab\<close>

lemma release_page_ok:
  assumes wf: "slabs_wf lowest st" and sp: "spare st pg"
  obtains m where "release_page pg st = Some (st\<lparr>sl_frames := m\<rparr>)" "slabs_wf lowest (st\<lparr>sl_frames := m\<rparr>)"
    "\<And>pg'. spare st pg' \<Longrightarrow> pg' \<noteq> pg \<Longrightarrow> spare (st\<lparr>sl_frames := m\<rparr>) pg'" "same_geom (sl_frames st) m"
proof -
  let ?m = "sl_frames st"
  note pg = sp [unfolded spare_def, THEN conjunct1] sp [unfolded spare_def, THEN conjunct2, THEN conjunct1]
    sp [unfolded spare_def, THEN conjunct2, THEN conjunct2, THEN conjunct1]
    sp [unfolded spare_def, THEN conjunct2, THEN conjunct2, THEN conjunct2]
  from slabs_wfD(1) [OF wf] have mwf: "pmm_wf ?m" by (simp add: heap_frames_def)
  from pg(2) obtain z where z: "zone_struct (pages_struct ?m pg) = Some z" by auto
  from page_clean_Some [OF z] obtain m1 where m1: "page_clean pg ?m = Some m1" "same_geom ?m m1" "bits_map m1 = bits_map ?m"
    "\<And>y. page_free_count (zones_struct m1 y) = page_free_count (zones_struct ?m y)
      \<and> page_using_count (zones_struct m1 y) = page_using_count (zones_struct ?m y)" by metis
  note D = same_geomD [OF m1(2)]
  have "pmm_wf m1" by (rule pmm_wf_same [OF mwf m1(2-4)])
  from pmm_wf_free_frame [OF this, of pg z] pg(1,3) z obtain m where m: "free_frame pg m1 = Some m" "pmm_wf m" "same_geom m1 m"
    "bits_map m = bm_clear (bits_map m1) pg" by (auto simp: D m1(3))
  have bits: "bm_test (bits_map m) = (bm_test (bits_map ?m))(pg := False)" by (simp add: m(4) m1(3) bm_test_clear)
  have "slabs_wf lowest (st\<lparr>sl_frames := m\<rparr>)"
  proof (rule slabs_wf_frames [OF wf m(2) same_geom_trans [OF m1(2) m(3)]])
    fix i k assume "active st i k"
    with slabs_wfD(5) [OF wf this] pg(4) show "bm_test (bits_map m) (sl_page (slab_at st i k))"
      by (auto simp: bits frame_ok_def unowned_def)
  qed
  moreover have "release_page pg st = Some (st\<lparr>sl_frames := m\<rparr>)"
    using m1(1) m(1) by (simp add: release_page_def free_pages_def)
  moreover have "spare (st\<lparr>sl_frames := m\<rparr>) pg'" if "spare st pg'" "pg' \<noteq> pg" for pg'
    using that by (simp add: spare_def bits same_geomD [OF same_geom_trans [OF m1(2) m(3)]])
  ultimately show ?thesis using that same_geom_trans [OF m1(2) m(3)] by blast
qed

lemma nth_drop_one:
  "n < length xs \<Longrightarrow> (take n xs @ drop (Suc n) xs) ! k = xs ! (if k < n then k else Suc k) \<or> \<not> k < length xs - 1"
  by (auto simp: nth_append min_def)

lemma sum_list_drop_one:
  fixes f :: "'a \<Rightarrow> 'b::ab_group_add"
  assumes "n < length xs"
  shows "sum_list (map f (take n xs @ drop (Suc n) xs)) = sum_list (map f xs) - f (xs ! n)"
proof -
  have "sum_list (map f xs) = sum_list (map f (take n xs @ xs ! n # drop (Suc n) xs))"
    using id_take_nth_drop [OF assms] by simp
  then show ?thesis by simp
qed

text \<open>Address \<open>a\<close> is that of an object in use, in one of the first \<open>n\<close> caches.\<close>

definition live :: "nat \<Rightarrow> slabs \<Rightarrow> u64 \<Rightarrow> bool" where
  "live n st a \<longleftrightarrow> (\<exists>i k j. i < n \<and> in_use st i k j \<and> a = obj_addr st i k j)"

text \<open>Removing slab \<open>k \<noteq> 0\<close> of cache \<open>i\<close>: later slabs of the cache move down by one.\<close>

definition reindex :: "nat \<Rightarrow> nat \<Rightarrow> nat \<Rightarrow> nat \<Rightarrow> nat" where
  "reindex i k i' k' = (if i' = i \<and> \<not> k' < k then Suc k' else k')"

lemma reindex_facts:
  "reindex i k i' k' \<noteq> k \<or> i' \<noteq> i" "reindex i k i' k' = reindex i k i' k'' \<Longrightarrow> k' = k''"
  "\<not> (i' = i \<and> k' = k) \<Longrightarrow> \<exists>k''. k' = reindex i k i' k''" "k \<noteq> 0 \<Longrightarrow> dormant i' (reindex i k i' k') = dormant i' k'"
proof -
  show "\<exists>k''. k' = reindex i k i' k''" if "\<not> (i' = i \<and> k' = k)"
  proof (cases "i' = i \<and> k < k'")
    case True
    then show ?thesis by (intro exI [of _ "k' - 1"]) (auto simp: reindex_def)
  next
    case False
    with that show ?thesis by (intro exI [of _ k']) (auto simp: reindex_def)
  qed
qed (auto simp: reindex_def dormant_def split: if_splits)

lemma drop_slab_view:
  assumes wf: "slabs_wf lowest st" and act: "active st i k" and k: "k \<noteq> 0"
  shows "active (drop_slab i k st) i' k' \<longleftrightarrow> active st i' (reindex i k i' k')"
    "k' < length (c_slabs (kmalloc_cache_size (drop_slab i k st) ! i')) \<Longrightarrow>
      slab_at (drop_slab i k st) i' k' = slab_at st i' (reindex i k i' k') \<and>
      reindex i k i' k' < length (c_slabs (kmalloc_cache_size st ! i'))"
    "i' \<noteq> i \<Longrightarrow> kmalloc_cache_size (drop_slab i k st) ! i' = kmalloc_cache_size st ! i'"
    "map c_size (kmalloc_cache_size (drop_slab i k st)) = map c_size (kmalloc_cache_size st)"
proof -
  let ?st = "drop_slab i k st" and ?c = "kmalloc_cache_size st ! i"
  note D = slabs_wfD [OF wf]
  from act have i: "i < 16" and kl: "k < length (c_slabs ?c)" by (simp_all add: active_def)
  have nth: "kmalloc_cache_size ?st ! i' = (if i' = i then ?c\<lparr>c_slabs := take k (c_slabs ?c) @ drop (Suc k) (c_slabs ?c),
      total_free := total_free ?c - color_count (slab_at st i k)\<rparr> else kmalloc_cache_size st ! i')" for i'
    using i D(2) by (simp add: drop_slab_def)
  have len: "length (c_slabs (kmalloc_cache_size ?st ! i')) = (if i' = i then length (c_slabs ?c) - 1
      else length (c_slabs (kmalloc_cache_size st ! i')))" for i' using kl by (simp add: nth)
  show "slab_at ?st i' k' = slab_at st i' (reindex i k i' k') \<and> reindex i k i' k' < length (c_slabs (kmalloc_cache_size st ! i'))"
    if "k' < length (c_slabs (kmalloc_cache_size ?st ! i'))"
    using that nth_drop_one [OF kl, of k'] kl by (auto simp: nth len reindex_def)
  show "active ?st i' k' \<longleftrightarrow> active st i' (reindex i k i' k')"
    unfolding active_def len reindex_facts(4) [OF k] using kl by (auto simp: reindex_def)
  show "i' \<noteq> i \<Longrightarrow> kmalloc_cache_size ?st ! i' = kmalloc_cache_size st ! i'" by (simp add: nth)
  show "map c_size (kmalloc_cache_size ?st) = map c_size (kmalloc_cache_size st)"
    using i D(2) by (intro nth_equalityI) (simp_all add: drop_slab_def)
qed

lemma drop_slab_wf:
  assumes wf: "slabs_wf lowest st" and act: "active st i k" and k: "k \<noteq> 0" and u: "sl_using (slab_at st i k) = 0"
  shows "slabs_wf lowest (drop_slab i k st)" "live n (drop_slab i k st) = live n st"
    "unowned (drop_slab i k st) (sl_page (slab_at st i k))"
proof -
  let ?st = "drop_slab i k st" and ?g = "reindex i k"
  let ?c = "kmalloc_cache_size st ! i" and ?c' = "kmalloc_cache_size (drop_slab i k st) ! i"
  note D = slabs_wfD [OF wf] and V = drop_slab_view [OF wf act k] and G = reindex_facts [where i = i and k = k]
  from act have i: "i < 16" and kl: "k < length (c_slabs ?c)" by (simp_all add: active_def)
  have ok: "slab_ok (cache_sizes ! i) (slab_at st i k)" by (rule D(6) [OF act])
  with u have full: "sl_free (slab_at st i k) = color_count (slab_at st i k)" by (simp add: slab_ok_def word_unat_eq_iff)
  with ok u have unused: "\<not> in_use st i k j" for j
    by (auto simp: in_use_def dest!: fresh_slab_unused [of "cache_sizes ! i" _ j, rotated] simp: fresh_slab_def)
  have at: "slab_at ?st i' k' = slab_at st i' (?g i' k')" if "active ?st i' k'" for i' k'
    using that V(2) by (simp add: active_def)
  show "unowned ?st (sl_page (slab_at st i k))"
    unfolding unowned_def using D(7) [OF _ act] V(1) at G(1) by metis
  have size: "c_size (kmalloc_cache_size ?st ! i') = c_size (kmalloc_cache_size st ! i')" if "i' < 16" for i'
    using V(4) D(2) that by (metis length_map nth_map)
  have use: "in_use ?st i' k' j' \<longleftrightarrow> in_use st i' (?g i' k') j'" for i' k' j'
    using V(1) at unfolding in_use_def by metis
  have addr: "obj_addr ?st i' k' j' = obj_addr st i' (?g i' k') j'" if "in_use ?st i' k' j'" for i' k' j'
    using that at size by (auto simp: in_use_def obj_addr_def active_def)
  show "live n ?st = live n st" unfolding live_def using use addr unused G(3) by (fastforce simp: fun_eq_iff)
  have "cache_ok i ?c'"
  proof -
    have c': "c_slabs ?c' = take k (c_slabs ?c) @ drop (Suc k) (c_slabs ?c)"
      "total_free ?c' = total_free ?c - color_count (slab_at st i k)" "total_using ?c' = total_using ?c"
      using i D(2) by (simp_all add: drop_slab_def)
    have "c_slabs ?c' \<noteq> []" using k kl unfolding c' by auto
    moreover have "total_free ?c' = sum_list (map sl_free (c_slabs ?c'))" "total_using ?c' = sum_list (map sl_using (c_slabs ?c'))"
      using D(4) [OF i] full u unfolding c' sum_list_drop_one [OF kl] by (simp_all add: cache_ok_def)
    moreover have "list_all (\<lambda>k. if dormant i k then sl_free (c_slabs ?c' ! k) = 0 \<and> sl_using (c_slabs ?c' ! k) = 0
        \<and> sl_address (c_slabs ?c' ! k) < PAGE_OFFSET else slab_ok (c_size ?c') (c_slabs ?c' ! k)) [0..<length (c_slabs ?c')]"
      unfolding list_all_iff set_upt
    proof
      fix k' assume k': "k' \<in> {0..<length (c_slabs ?c')}"
      then have v: "c_slabs ?c' ! k' = c_slabs ?c ! ?g i k'" "?g i k' < length (c_slabs ?c)" using V(2) by simp_all
      have "if dormant i (?g i k') then sl_free (c_slabs ?c ! ?g i k') = 0 \<and> sl_using (c_slabs ?c ! ?g i k') = 0
        \<and> sl_address (c_slabs ?c ! ?g i k') < PAGE_OFFSET else slab_ok (c_size ?c) (c_slabs ?c ! ?g i k')"
        using D(4) [OF i] v(2) by (simp add: cache_ok_def list_all_iff)
      then show "if dormant i k' then sl_free (c_slabs ?c' ! k') = 0 \<and> sl_using (c_slabs ?c' ! k') = 0
        \<and> sl_address (c_slabs ?c' ! k') < PAGE_OFFSET else slab_ok (c_size ?c') (c_slabs ?c' ! k')"
        unfolding v(1) size [OF i] G(4) [OF k] .
    qed
    ultimately show ?thesis by (simp add: cache_ok_def)
  qed
  then have "\<forall>i'<16. cache_ok i' (kmalloc_cache_size ?st ! i')" using D(4) V(3) by metis
  moreover have "\<forall>i' k'. active ?st i' k' \<longrightarrow> frame_ok (sl_frames st) (slab_at ?st i' k')"
    using D(5) at V(1) by metis
  moreover have "\<forall>i' k' i'' k''. active ?st i' k' \<longrightarrow> active ?st i'' k'' \<longrightarrow>
      sl_page (slab_at ?st i' k') = sl_page (slab_at ?st i'' k'') \<longrightarrow> i' = i'' \<and> k' = k''"
    using D(7) at V(1) G(2) by metis
  ultimately show "slabs_wf lowest ?st"
    using wf unfolding slabs_wf_iff V(4) by (simp add: drop_slab_def)
qed

section \<open>kfree\<close>

lemma cache_size_pos: "i < 16 \<Longrightarrow> 0 < unat (cache_sizes ! i)"
  by (simp add: cache_sizes_def small_sizes_def large_sizes_def less_Suc_eq numeral_eq_Suc) auto

lemma cache_size_small: "i < 16 \<Longrightarrow> cache_sizes ! i \<in> set small_sizes \<longleftrightarrow> i < 5"
  by (simp add: cache_sizes_def small_sizes_def large_sizes_def less_Suc_eq numeral_eq_Suc) auto

lemma obj_addr_inj:
  assumes wf: "slabs_wf lowest st" and used: "in_use st i k j" "in_use st i' k' j'" and eq: "obj_addr st i k j = obj_addr st i' k' j'"
  shows "(i, k, j) = (i', k', j')"
proof (rule ccontr)
  assume "(i, k, j) \<noteq> (i', k', j')"
  from objects_disjoint [OF wf used this] eq cache_size_pos [of i] cache_size_pos [of i'] used
  show False by (auto simp: in_use_def active_def)
qed

lemma put_object_step:
  assumes wf: "slabs_wf lowest st" and use: "in_use st i k j"
  shows "slabs_wf lowest (put_object i k j st)" "same_shape st (put_object i k j st)"
    "slab_at (put_object i k j st) i k = unmark_object j (slab_at st i k)"
    "active (put_object i k j st) = active st"
    "live n (put_object i k j st) x \<longleftrightarrow> live n st x \<and> x \<noteq> obj_addr st i k j"
proof -
  let ?s = "slab_at st i k" and ?st = "put_object i k j st"
  from use have act: "active st i k" and j: "j < unat (color_count ?s)" "bm_test (color_map ?s) j" by (simp_all add: in_use_def)
  have eq: "?st = put_slab i k (unmark_object j ?s) st"
    using slabs_wfD(2) [OF wf] act
    by (simp add: put_object_def put_slab_def unmark_object_def upd_cache_def active_def algebra_simps)
  note P = put_slab_wf [OF wf act unmark_object_shape slab_ok_unmark(1) [OF slabs_wfD(6) [OF wf act] j]]
  show "slabs_wf lowest ?st" "same_shape st ?st" "slab_at ?st i k = unmark_object j ?s" "active ?st = active st"
    unfolding eq using P by simp_all
  have use': "in_use ?st i' k' j' \<longleftrightarrow> in_use st i' k' j' \<and> (i', k', j') \<noteq> (i, k, j)" for i' k' j'
    unfolding eq in_use_def P(3,4) by (auto simp: unmark_object_def bm_test_clear)
  have addr: "obj_addr ?st i' k' j' = obj_addr st i' k' j'" if "in_use st i' k' j'" for i' k' j'
    using same_shapeD(3) [OF P(2) slabs_wfD(2) [OF wf]] that by (simp add: eq in_use_def)
  show "live n ?st x \<longleftrightarrow> live n st x \<and> x \<noteq> obj_addr st i k j"
  proof
    assume "live n ?st x"
    then obtain i' k' j' where o: "i' < n" "in_use ?st i' k' j'" "x = obj_addr ?st i' k' j'" by (auto simp: live_def)
    from o(2) have "in_use st i' k' j'" "(i', k', j') \<noteq> (i, k, j)" by (simp_all add: use')
    with o show "live n st x \<and> x \<noteq> obj_addr st i k j"
      using addr obj_addr_inj [OF wf _ use] by (auto simp: live_def)
  next
    assume "live n st x \<and> x \<noteq> obj_addr st i k j"
    then obtain i' k' j' where o: "i' < n" "in_use st i' k' j'" "x = obj_addr st i' k' j'" "x \<noteq> obj_addr st i k j"
      by (auto simp: live_def)
    then have "in_use ?st i' k' j'" by (auto simp: use')
    with o addr [OF o(2)] show "live n ?st x" unfolding live_def by metis
  qed
qed

definition released :: "slabs \<Rightarrow> nat \<Rightarrow> nat \<Rightarrow> bool" where
  "released st i k \<longleftrightarrow> sl_using (slab_at st i k) = 0
     \<and> total_free (kmalloc_cache_size st ! i) \<ge> color_count (slab_at st i k) * 3 div 2 \<and> k \<noteq> 0"

lemma kfree_with_object:
  assumes wf: "slabs_wf lowest st" and use: "in_use st i k j"
  defines "st1 \<equiv> put_object i k j st" and "s \<equiv> slab_at st i k"
  shows "kfree_with free (obj_addr st i k j) st =
    (if released st1 i k then
       if i < 5 then map_option (Pair 1) (release_page (sl_page s) (drop_slab i k st1))
       else Option.bind (free (sl_map s) (drop_slab i k st1)) (\<lambda>(_, st3).
         Option.bind (release_page (sl_page s) st3) (\<lambda>st4. map_option (\<lambda>(_, st5). (1, st5)) (free (sl_self s) st4)))
     else Some (1, st1))"
proof -
  from use have act: "active st i k" and j: "j < unat (color_count s)" "bm_test (color_map s) j" by (simp_all add: in_use_def s_def)
  note L = object_lookup [OF wf act j(1) [unfolded s_def]]
  have i: "i < 16" using act by (simp add: active_def)
  have sh: "sl_page (slab_at st1 i k) = sl_page s" "sl_map (slab_at st1 i k) = sl_map s" "sl_self (slab_at st1 i k) = sl_self s"
    using put_object_step(3) [OF wf use] by (simp_all add: st1_def s_def unmark_object_def)
  show ?thesis
    unfolding kfree_with_def L(1) released_def
    using obj_addr_unat(3) [OF wf act j(1) [unfolded s_def]] L(2) j(2) sh cache_size_small [OF i] slabs_wfD(3) [OF wf i]
    by (simp add: Let_def st1_def s_def)
qed

lemma drop_slab_spare:
  assumes wf: "slabs_wf lowest st" and act: "active st i k" and rel: "released st i k"
  shows "spare (drop_slab i k st) (sl_page (slab_at st i k))" "spare st pg \<Longrightarrow> spare (drop_slab i k st) pg"
    "spare st pg \<Longrightarrow> pg \<noteq> sl_page (slab_at st i k)"
proof -
  from rel have u: "sl_using (slab_at st i k) = 0" "k \<noteq> 0" by (simp_all add: released_def)
  note R = drop_slab_wf [OF wf act u(2,1)] and V = drop_slab_view [OF wf act u(2)]
  have fr: "sl_frames (drop_slab i k st) = sl_frames st" by (simp add: drop_slab_def)
  have at: "slab_at (drop_slab i k st) i' k' = slab_at st i' (reindex i k i' k')" if "active (drop_slab i k st) i' k'" for i' k'
    using that V(2) by (simp add: active_def)
  show "spare (drop_slab i k st) (sl_page (slab_at st i k))"
    using R(3) slabs_wfD(5) [OF wf act] by (simp add: spare_def fr frame_ok_def)
  show "spare st pg \<Longrightarrow> spare (drop_slab i k st) pg"
    using V(1) at unfolding spare_def fr unowned_def by metis
  show "spare st pg \<Longrightarrow> pg \<noteq> sl_page (slab_at st i k)" using act by (auto simp: spare_def unowned_def)
qed

lemma put_object_spare:
  assumes "slabs_wf lowest st" "in_use st i k j"
  shows "spare (put_object i k j st) = spare st"
  using same_shapeD(2,4) [OF put_object_step(2) [OF assms] slabs_wfD(2) [OF assms(1)]]
  by (simp add: fun_eq_iff spare_def)

lemma live_frames [simp]: "live n (st\<lparr>sl_frames := m\<rparr>) = live n st"
  by (simp add: live_def fun_eq_iff)

lemma kfree_small:
  assumes wf: "slabs_wf lowest st" and use: "live 5 st a"
  obtains st' where "kfree_with free a st = Some (1, st')" "slabs_wf lowest st'"
    "kmalloc_creating st' = kmalloc_creating st" "\<And>n x. live n st' x \<longleftrightarrow> live n st x \<and> x \<noteq> a"
    "\<And>pg. spare st pg \<Longrightarrow> spare st' pg" "same_geom (sl_frames st) (sl_frames st')"
proof -
  from use obtain i k j where o: "i < 5" "in_use st i k j" "a = obj_addr st i k j" by (auto simp: live_def)
  let ?st1 = "put_object i k j st" and ?s = "slab_at st i k"
  note P = put_object_step [OF wf o(2)] and S = put_object_spare [OF wf o(2)]
  note K = kfree_with_object [OF wf o(2), of free, folded o(3)]
  have cr: "kmalloc_creating ?st1 = kmalloc_creating st" "sl_frames ?st1 = sl_frames st" "sl_frames (drop_slab i k ?st1) = sl_frames st"
    by (simp_all add: put_object_def drop_slab_def upd_cache_def)
  have act: "active ?st1 i k" using o(2) P(4) by (simp add: in_use_def)
  have pg: "sl_page (slab_at ?st1 i k) = sl_page ?s" using P(3) by (simp add: unmark_object_def)
  show ?thesis
  proof (cases "released ?st1 i k")
    case False
    with K that [of ?st1] P(1,5) S cr o(3) show ?thesis by simp
  next
    case True
    note R = drop_slab_spare [OF P(1) act True, unfolded pg]
    from True have u: "sl_using (slab_at ?st1 i k) = 0" "k \<noteq> 0" by (simp_all add: released_def)
    note W = drop_slab_wf [OF P(1) act u(2,1)]
    obtain m where m: "release_page (sl_page ?s) (drop_slab i k ?st1) = Some (drop_slab i k ?st1\<lparr>sl_frames := m\<rparr>)"
      "slabs_wf lowest (drop_slab i k ?st1\<lparr>sl_frames := m\<rparr>)"
      "\<And>pg'. spare (drop_slab i k ?st1) pg' \<Longrightarrow> pg' \<noteq> sl_page ?s \<Longrightarrow> spare (drop_slab i k ?st1\<lparr>sl_frames := m\<rparr>) pg'"
      "same_geom (sl_frames st) m"
      unfolding cr(3) [symmetric] using release_page_ok [OF W(1) R(1)] by blast
    show ?thesis
    proof (rule that [of "drop_slab i k ?st1\<lparr>sl_frames := m\<rparr>"])
      show "kfree_with free a st = Some (1, drop_slab i k ?st1\<lparr>sl_frames := m\<rparr>)" using K True o(1) m(1) by simp
      show "live n (drop_slab i k ?st1\<lparr>sl_frames := m\<rparr>) x \<longleftrightarrow> live n st x \<and> x \<noteq> a" for n x
        using W(2) P(5) o(3) by simp
      show "spare (drop_slab i k ?st1\<lparr>sl_frames := m\<rparr>) pg" if "spare st pg" for pg
        using that R(2,3) S m(3) by metis
      show "kmalloc_creating (drop_slab i k ?st1\<lparr>sl_frames := m\<rparr>) = kmalloc_creating st"
        using cr by (simp add: drop_slab_def)
    qed (use m(2,4) in simp_all)
  qed
qed

lemma kfree_large:
  assumes wf: "slabs_wf lowest st" and use: "in_use st i k j" and i: "\<not> i < 5" and rel: "released (put_object i k j st) i k"
    and m: "live 5 st (sl_map (slab_at st i k))" "live 5 st (sl_self (slab_at st i k))"
      "sl_map (slab_at st i k) \<noteq> sl_self (slab_at st i k)"
  obtains st' where "kfree (obj_addr st i k j) st = Some (1, st')" "slabs_wf lowest st'"
    "\<And>x. live 16 st' x \<longleftrightarrow> live 16 st x \<and> x \<noteq> obj_addr st i k j
      \<and> x \<noteq> sl_map (slab_at st i k) \<and> x \<noteq> sl_self (slab_at st i k)"
proof -
  let ?a = "obj_addr st i k j" and ?st1 = "put_object i k j st" and ?s = "slab_at st i k" and ?st2 = "drop_slab i k (put_object i k j st)"
  note P = put_object_step [OF wf use] and K = kfree_with_object [OF wf use, of kfree_nested, folded kfree_def]
  have act: "active ?st1 i k" using use P(4) by (simp add: in_use_def)
  from rel have u: "sl_using (slab_at ?st1 i k) = 0" "k \<noteq> 0" by (simp_all add: released_def)
  note W = drop_slab_wf [OF P(1) act u(2,1)] and R = drop_slab_spare [OF P(1) act rel]
  have pg: "sl_page (slab_at ?st1 i k) = sl_page ?s" using P(3) by (simp add: unmark_object_def)
  have ne: "x \<noteq> ?a" if "live 5 st x" for x
    using that obj_addr_inj [OF wf use] i unfolding live_def by (metis Pair_inject)
  have L2: "live n ?st2 x \<longleftrightarrow> live n st x \<and> x \<noteq> ?a" for n x using W(2) P(5) by simp
  from m(1) ne have "live 5 ?st2 (sl_map ?s)" by (simp add: L2)
  from kfree_small [OF W(1) this, of "\<lambda>_ _. None", folded kfree_nested_def] obtain st3 where
    st3: "kfree_nested (sl_map ?s) ?st2 = Some (1, st3)" "slabs_wf lowest st3"
      "\<And>n x. live n st3 x \<longleftrightarrow> live n ?st2 x \<and> x \<noteq> sl_map ?s" "\<And>pg. spare ?st2 pg \<Longrightarrow> spare st3 pg" by metis
  have "spare st3 (sl_page ?s)" using R(1) st3(4) pg by simp
  from release_page_ok [OF st3(2) this] obtain mm where
    st4: "release_page (sl_page ?s) st3 = Some (st3\<lparr>sl_frames := mm\<rparr>)" "slabs_wf lowest (st3\<lparr>sl_frames := mm\<rparr>)" by metis
  have "live 5 (st3\<lparr>sl_frames := mm\<rparr>) (sl_self ?s)" using m ne by (simp add: st3(3) L2)
  from kfree_small [OF st4(2) this, of "\<lambda>_ _. None", folded kfree_nested_def] obtain st5 where
    st5: "kfree_nested (sl_self ?s) (st3\<lparr>sl_frames := mm\<rparr>) = Some (1, st5)" "slabs_wf lowest st5"
      "\<And>n x. live n st5 x \<longleftrightarrow> live n (st3\<lparr>sl_frames := mm\<rparr>) x \<and> x \<noteq> sl_self ?s" by metis
  have "kfree ?a st = Some (1, st5)" unfolding K using rel i st3(1) st4(1) st5(1) by simp
  then show ?thesis using that [of st5] st5(2,3) by (simp add: st3(3) L2)
qed

text \<open>
  C19. Freeing an object in use returns 1 and frees it; every other object stays in use at its
  address, and the invariant is kept, whether or not the slab's frame goes back to the page
  allocator. Only the descriptor and the bit array of a released slab of a large cache are freed
  with it (they are objects of small caches that the allocator holds for itself).
\<close>

theorem kfree_exact:
  assumes wf: "slabs_wf lowest st" and use: "in_use st i k j"
    and meta: "i < 5 \<or> k = 0 \<or> live 5 st (sl_map (slab_at st i k)) \<and> live 5 st (sl_self (slab_at st i k))
      \<and> sl_map (slab_at st i k) \<noteq> sl_self (slab_at st i k)"
  shows "\<exists>st'. kfree (obj_addr st i k j) st = Some (1, st') \<and> slabs_wf lowest st'
    \<and> (\<forall>x. live 16 st' x \<longrightarrow> live 16 st x \<and> x \<noteq> obj_addr st i k j)
    \<and> (\<forall>x. live 16 st x \<longrightarrow> x \<noteq> obj_addr st i k j \<longrightarrow>
        5 \<le> i \<and> k \<noteq> 0 \<and> x \<in> {sl_map (slab_at st i k), sl_self (slab_at st i k)} \<or> live 16 st' x)"
proof -
  let ?a = "obj_addr st i k j" and ?st1 = "put_object i k j st" and ?s = "slab_at st i k"
  note P = put_object_step [OF wf use] and K = kfree_with_object [OF wf use, of kfree_nested, folded kfree_def]
  show ?thesis
  proof (cases "i < 5 \<or> \<not> released ?st1 i k")
    case True
    then show ?thesis
    proof
      assume "i < 5"
      then have "live 5 st ?a" using use by (auto simp: live_def)
      from kfree_small [OF wf this, of kfree_nested] show ?thesis unfolding kfree_def by metis
    next
      assume "\<not> released ?st1 i k"
      with K P(1,5) show ?thesis by simp
    qed
  next
    case False
    then have rel: "released ?st1 i k" and i: "\<not> i < 5" by simp_all
    then have k: "k \<noteq> 0" by (simp add: released_def)
    with meta i have m: "live 5 st (sl_map ?s)" "live 5 st (sl_self ?s)" "sl_map ?s \<noteq> sl_self ?s" by simp_all
    obtain st' where "kfree ?a st = Some (1, st')" "slabs_wf lowest st'"
      "\<And>x. live 16 st' x \<longleftrightarrow> live 16 st x \<and> x \<noteq> ?a \<and> x \<noteq> sl_map ?s \<and> x \<noteq> sl_self ?s"
      using kfree_large [OF wf use i rel m] by metis
    then show ?thesis using i k by auto
  qed
qed

section \<open>A concrete heap\<close>

text \<open>
  Sixteen frames from 2 MiB on, of which the first eight are the first slabs of the first eight
  caches. Every slab has six objects; the caches of \<open>full\<close> have all in use.
\<close>

definition demo_heap_pmm :: pmm where
  "demo_heap_pmm = (demo_pmm (- 0x10000 + 0xff) 8)\<lparr>
    pages_struct := (\<lambda>i. \<lparr>zone_struct = (if i < 16 then Some 0 else None),
      phy_address = (if i < 16 then 0x200000 + of_nat i * 0x200000 else 0),
      pg_attribute = 0, reference_count = 0, age = 0\<rparr>),
    pages_size := 16, pages_length := 640,
    zones_struct := (\<lambda>_. \<lparr>pages_group = 0, z_pages_length = 16, zone_start_address = 0x200000,
        zone_end_address = 0x2200000, zone_length = 0x2000000, z_attribute = 0,
        page_using_count = 8, page_free_count = 8, total_pages_link = 0\<rparr>),
    zones_size := 1, ZONE_NORMAL_INDEX := 0\<rparr>"

definition demo_head :: "nat list \<Rightarrow> nat \<Rightarrow> slab" where
  "demo_head full i = \<lparr>sl_page = i, sl_using = (if i \<in> set full then 6 else 0),
     sl_free = (if i < 8 \<and> i \<notin> set full then 6 else 0),
     sl_address = (if i < 8 then Phy_To_Virt (0x200000 + of_nat i * 0x200000) else 0),
     color_length = 8, color_count = 6, color_map = (\<lambda>_. if i \<in> set full then - 1 else - 64), sl_self = 0, sl_map = 0\<rparr>"

definition demo_heap :: "nat list \<Rightarrow> slabs" where
  "demo_heap full = \<lparr>kmalloc_cache_size = map (\<lambda>i. \<lparr>c_size = cache_sizes ! i, total_using = sl_using (demo_head full i),
     total_free = sl_free (demo_head full i), c_slabs = [demo_head full i]\<rparr>) [0..<16],
     kmalloc_creating = False, sl_frames = demo_heap_pmm\<rparr>"

lemma demo_heap_wf:
  assumes "set full \<subseteq> {0..<8}"
  shows "slabs_wf 0x200000 (demo_heap full)"
proof -
  have "pmm_wf demo_heap_pmm" by code_simp
  moreover have "linear_frames 0x200000 demo_heap_pmm"
    by (simp add: linear_frames_def demo_heap_pmm_def demo_pmm_def list_all_iff PAGE_2M_SIZE_def)
  ultimately have hf: "heap_frames 0x200000 demo_heap_pmm"
    by (simp add: heap_frames_def) (simp add: demo_heap_pmm_def)
  have at: "kmalloc_cache_size (demo_heap full) ! i = \<lparr>c_size = cache_sizes ! i, total_using = sl_using (demo_head full i),
     total_free = sl_free (demo_head full i), c_slabs = [demo_head full i]\<rparr>" if "i < 16" for i
    using that by (simp add: demo_heap_def)
  have ok: "slab_ok (cache_sizes ! i) (demo_head full i)" if "i < 8" for i
  proof -
    have "list_all (\<lambda>i. unat (cache_sizes ! i) * 6 \<le> 2 ^ 21) [0..<8]"
      by (simp add: cache_sizes_def small_sizes_def large_sizes_def upt_rec)
    then have "unat (cache_sizes ! i) * 6 \<le> 2 ^ 21" using that by (simp add: list_all_iff)
    moreover have "count_clear (bm_test (\<lambda>_. - 64)) 0 6 = 6" "count_clear (bm_test (\<lambda>_. - 1)) 0 6 = 0" by code_simp+
    ultimately show ?thesis using that by (simp add: slab_ok_def demo_head_def mult.commute)
  qed
  have cok: "cache_ok i (kmalloc_cache_size (demo_heap full) ! i)" if "i < 16" for i
    using ok [of i] assms that unfolding cache_ok_def at [OF that]
    by (auto simp: dormant_def demo_head_def PAGE_OFFSET_def list_all_iff)
  have act: "active (demo_heap full) i k \<longleftrightarrow> i < 8 \<and> k = 0" for i k
    by (auto simp: active_def at dormant_def)
  have fr: "frame_ok demo_heap_pmm (demo_head full i)" if "i < 8" for i
  proof -
    have "list_all (bm_test (bits_map demo_heap_pmm)) [0..<8]" by code_simp
    with that have "bm_test (bits_map demo_heap_pmm) i" unfolding list_all_iff by simp
    with that show ?thesis
      by (simp add: frame_ok_def demo_head_def) (simp add: demo_heap_pmm_def)
  qed
  show ?thesis
    unfolding slabs_wf_iff
  proof (intro conjI allI impI)
    show "map c_size (kmalloc_cache_size (demo_heap full)) = cache_sizes"
      by (rule nth_equalityI) (simp_all add: demo_heap_def cache_sizes_facts)
    fix i k assume "active (demo_heap full) i k"
    then show "frame_ok (sl_frames (demo_heap full)) (slab_at (demo_heap full) i k)"
      using fr [of i] by (simp add: act at) (simp add: demo_heap_def)
  next
    fix i k i' k'
    assume "active (demo_heap full) i k" "active (demo_heap full) i' k'"
      "sl_page (slab_at (demo_heap full) i k) = sl_page (slab_at (demo_heap full) i' k')"
    then have "i < 8" "k = 0" "i' < 8" "k' = 0" "i = i'" by (simp_all add: act at demo_head_def)
    then show "i = i'" "k = k'" by simp_all
  qed (use hf cok in \<open>simp_all add: demo_heap_def\<close>)
qed

section \<open>Concrete runs\<close>

theorem kmalloc_fresh_witness:
  "\<exists>st'. kmalloc 100 (demo_heap [5]) = Some (0xffff800000600000, st') \<and> slabs_wf 0x200000 st' \<and> grows (demo_heap [5]) st'"
proof -
  have "map_option fst (kmalloc 100 (demo_heap [5])) = Some 0xffff800000600000" by code_simp
  then obtain st' where k: "kmalloc 100 (demo_heap [5]) = Some (0xffff800000600000, st')" by auto
  have wf: "slabs_wf 0x200000 (demo_heap [5])" by (rule demo_heap_wf) simp
  have "\<not> kmalloc_creating (demo_heap [5])" by (simp add: demo_heap_def)
  from kmalloc_fresh [OF wf this k] k show ?thesis by blast
qed

lemma demo_in_use: "in_use (demo_heap [2]) 2 0 0" "in_use (demo_heap [2]) 2 0 1"
  by code_simp+


theorem kfree_exact_witness:
  "\<exists>st'. kfree (obj_addr (demo_heap [2]) 2 0 1) (demo_heap [2]) = Some (1, st') \<and> slabs_wf 0x200000 st'"
proof -
  have wf: "slabs_wf 0x200000 (demo_heap [2])" by (rule demo_heap_wf) simp
  have "(2 :: nat) < 5 \<or> (0 :: nat) = 0 \<or> live 5 (demo_heap [2]) (sl_map (slab_at (demo_heap [2]) 2 0))
      \<and> live 5 (demo_heap [2]) (sl_self (slab_at (demo_heap [2]) 2 0))
      \<and> sl_map (slab_at (demo_heap [2]) 2 0) \<noteq> sl_self (slab_at (demo_heap [2]) 2 0)" by simp
  from kfree_exact [OF wf demo_in_use(2) this] show ?thesis by blast
qed


end
