(* ===== verification/Heap_Init.thy ===== *)
theory Heap_Init
  imports Heap
begin

text \<open>
  \<open>slab_init\<close> of \<^verbatim>\<open>kernel/memory/slab.c\<close>: it lays out the sixteen cache descriptors behind the page
  allocator's tables, reserves the frames they fill and one frame for each of the first eight
  caches, and thereby establishes the heap invariant.
\<close>

section \<open>The descriptors\<close>

definition meta_size :: "u64 \<Rightarrow> u64" where
  "meta_size sz = sizeof_Slab + 8 * 10 + color_length_of (PAGE_2M_SIZE div sz) + 8 * 10"

lemma aligned_add:
  fixes x y :: u64
  assumes "take_bit 3 x = 0" "take_bit 3 y = 0"
  shows "take_bit 3 (x + y) = 0" "(x + y) AND NOT 7 = x + y"
proof -
  have "unat x mod 2 ^ 3 = 0" "unat y mod 2 ^ 3 = 0"
    unfolding unat_take_bit_mod [symmetric] assms by simp_all
  then have "(unat x + unat y) mod 2 ^ 64 mod 2 ^ 3 = 0"
    by (simp add: mod_mod_cancel mod_eq_0_iff_dvd)
  then have "unat (take_bit 3 (x + y)) = 0" by (simp add: unat_take_bit_mod unat_word_ariths)
  then show t: "take_bit 3 (x + y) = 0" by (simp only: unat_eq_zero)
  have "(7 :: u64) = mask 3" by (simp add: mask_eq_decr_exp)
  then show "(x + y) AND NOT 7 = x + y" by (simp only: and_not_mask_eq t diff_zero)
qed

lemma take_bit_meta: "take_bit 3 (meta_size sz) = 0"
proof -
  have "take_bit 3 (color_length_of (PAGE_2M_SIZE div sz)) = 0" by (simp add: color_length_of_def take_bit_push_bit)
  moreover have "meta_size sz = color_length_of (PAGE_2M_SIZE div sz) + 232"
    by (simp add: meta_size_def sizeof_Slab_def)
  ultimately show ?thesis by (simp add: aligned_add(1))
qed

lemma init_cache_eq:
  assumes "take_bit 3 (end_of_struct (sl_frames st)) = 0"
  shows "init_cache stale i st = upd_cache i (\<lambda>c. c\<lparr>c_slabs := [init_head (stale i) i (end_of_struct (sl_frames st)) (c_size (kmalloc_cache_size st ! i))],
       total_free := (if i < 8 then PAGE_2M_SIZE div c_size (kmalloc_cache_size st ! i) else 0), total_using := 0\<rparr>)
     (st\<lparr>sl_frames := (sl_frames st)\<lparr>end_of_struct := end_of_struct (sl_frames st) + meta_size (c_size (kmalloc_cache_size st ! i))\<rparr>\<rparr>)"
proof -
  note A = aligned_add(2) [OF assms take_bit_meta, of "c_size (kmalloc_cache_size st ! i)"]
  have h: "color_length (init_head (stale i) i e sz) = color_length_of (PAGE_2M_SIZE div sz)"
    "color_count (init_head (stale i) i e sz) = PAGE_2M_SIZE div sz" for e sz by (simp_all add: init_head_def Let_def)
  show ?thesis
    unfolding init_cache_def Let_def h using A by (simp add: meta_size_def add.assoc)
qed

definition boot_heap :: "pmm \<Rightarrow> slabs" where
  "boot_heap m = \<lparr>kmalloc_cache_size = empty_caches, kmalloc_creating = False, sl_frames = m\<rparr>"

lemma init_caches:
  assumes "take_bit 3 (end_of_struct m) = 0" "n \<le> 16"
  defines "e \<equiv> \<lambda>n. end_of_struct m + sum_list (map meta_size (take n cache_sizes))"
  shows "fold (init_cache stale) [0..<n] (boot_heap m) = \<lparr>kmalloc_cache_size = map (\<lambda>i.
      if i < n then \<lparr>c_size = cache_sizes ! i, total_using = 0, total_free = (if i < 8 then PAGE_2M_SIZE div cache_sizes ! i else 0),
        c_slabs = [init_head (stale i) i (e i) (cache_sizes ! i)]\<rparr>
      else empty_caches ! i) [0..<16], kmalloc_creating = False, sl_frames = m\<lparr>end_of_struct := e n\<rparr>\<rparr> \<and> take_bit 3 (e n) = 0"
  using assms(2)
proof (induction n)
  case 0
  have "map (\<lambda>i. empty_caches ! i) [0..<16] = empty_caches"
    using map_nth [of empty_caches] by (simp add: empty_caches_def cache_sizes_facts)
  then show ?case using assms(1) by (simp add: boot_heap_def e_def)
next
  case (Suc n)
  then have IH: "fold (init_cache stale) [0..<n] (boot_heap m) = \<lparr>kmalloc_cache_size = map (\<lambda>i.
      if i < n then \<lparr>c_size = cache_sizes ! i, total_using = 0, total_free = (if i < 8 then PAGE_2M_SIZE div cache_sizes ! i else 0),
        c_slabs = [init_head (stale i) i (e i) (cache_sizes ! i)]\<rparr>
      else empty_caches ! i) [0..<16], kmalloc_creating = False, sl_frames = m\<lparr>end_of_struct := e n\<rparr>\<rparr>" "take_bit 3 (e n) = 0"
    and n: "n < 16" by simp_all
  have en: "e (Suc n) = e n + meta_size (cache_sizes ! n)"
    using n by (simp add: e_def take_Suc_conv_app_nth cache_sizes_facts add.assoc)
  have emp: "empty_caches ! n = \<lparr>c_size = cache_sizes ! n, total_using = 0, total_free = 0, c_slabs = []\<rparr>"
    using n by (simp add: empty_caches_def cache_sizes_facts)
  have "take_bit 3 (e (Suc n)) = 0" unfolding en by (rule aligned_add(1) [OF IH(2) take_bit_meta])
  moreover have "fold (init_cache stale) [0..<Suc n] (boot_heap m) = init_cache stale n (fold (init_cache stale) [0..<n] (boot_heap m))"
    by simp
  ultimately show ?case
    unfolding IH(1) using IH(2) n
    by (simp add: init_cache_eq en emp upd_cache_def del: upt_Suc) (auto intro!: nth_equalityI simp: nth_list_update)
qed

section \<open>Reserving frames\<close>

lemma page_init_end_of_struct: "page_init i f s = Some s' \<Longrightarrow> end_of_struct s' = end_of_struct s"
  by (auto simp: page_init_def Let_def upd_page_def upd_zone_def split: if_splits)

lemma slab_reserve_ok:
  assumes wf: "pmm_wf m" and pg: "pg < unat (pages_size m)" "zone_struct (pages_struct m pg) \<noteq> None"
  obtains m' where "slab_reserve pg m = Some m'" "pmm_wf m'" "same_geom m m'"
    "bm_test (bits_map m') = (bm_test (bits_map m))(pg := True)" "end_of_struct m' = end_of_struct m"
proof (cases "bm_test (bits_map m) pg")
  case True
  then show ?thesis using that [of m] wf by (simp add: slab_reserve_def fun_upd_idem)
next
  case False
  from pg(2) obtain z where z: "zone_struct (pages_struct m pg) = Some z" by auto
  define m1 where "m1 = upd_zone z (\<lambda>z. z\<lparr>page_using_count := page_using_count z + 1, page_free_count := page_free_count z - 1\<rparr>)
           (m\<lparr>bits_map := bm_set (bits_map m) pg\<rparr>)"
  have m1: "same_geom m m1" "bits_map m1 = bm_set (bits_map m) pg" "end_of_struct m1 = end_of_struct m"
    by (simp_all add: m1_def upd_zone_def same_geom_def zone_geom_def page_geom_def)
  have wf1: "pmm_wf m1"
    by (rule pmm_wf_mark [OF wf pg(1) z False m1(1,2)]) (simp add: m1_def upd_zone_def)
  have z1: "zone_struct (pages_struct m1 pg) = Some z" using z by (simp add: m1_def upd_zone_def)
  from page_init_Some [OF z1] obtain m2 where m2: "page_init pg (PG_PTable_Mapped OR PG_Kernel_Init OR PG_Kernel) m1 = Some m2"
    "same_geom m1 m2" "bits_map m2 = bits_map m1" "\<And>y. page_free_count (zones_struct m2 y) = page_free_count (zones_struct m1 y)
      \<and> page_using_count (zones_struct m2 y) = page_using_count (zones_struct m1 y)" by metis
  show ?thesis
  proof (rule that [of m2])
    show "slab_reserve pg m = Some m2" using False z m2(1) by (simp add: slab_reserve_def m1_def)
    show "pmm_wf m2" by (rule pmm_wf_same [OF wf1 m2(2-4)])
    show "same_geom m m2" by (rule same_geom_trans [OF m1(1) m2(2)])
    show "end_of_struct m2 = end_of_struct m" using page_init_end_of_struct [OF m2(1)] m1(3) by simp
  qed (simp add: m2(3) m1(2) bm_test_set)
qed

text \<open>The frame of a physical address above \<open>lowest\<close>, the address of frame 0.\<close>

lemma frame_index:
  assumes "phy_address (pages_struct m 0) = lowest" "lowest \<le> pa"
  shows "Phy_to_2M_Page m pa = (unat pa - unat lowest) div 2 ^ 21"
  unfolding Phy_to_2M_Page_def assms(1) by (rule unat_shift_sub [OF assms(2)])

lemma slab_reserve_meta_ok:
  assumes "pmm_wf m" "phy_address (pages_struct m 0) = lowest" "unat lowest mod 2 ^ 21 = 0"
    "\<And>j. j \<in> set js \<Longrightarrow> unat lowest div 2 ^ 21 \<le> j \<and> j < 2 ^ 43 \<and> j - unat lowest div 2 ^ 21 < unat (pages_size m)
       \<and> zone_struct (pages_struct m (j - unat lowest div 2 ^ 21)) \<noteq> None"
  shows "\<exists>m'. slab_reserve_meta js m = Some m' \<and> pmm_wf m' \<and> same_geom m m' \<and> end_of_struct m' = end_of_struct m"
  using assms
proof (induction js arbitrary: m)
  case (Cons j js)
  let ?l = "unat lowest div 2 ^ 21"
  have l: "unat lowest = ?l * 2 ^ 21" using Cons.prems(3) by (metis add.right_neutral div_mult_mod_eq)
  from Cons.prems(4) [of j] have j: "?l \<le> j" "j < 2 ^ 43" "j - ?l < unat (pages_size m)"
    "zone_struct (pages_struct m (j - ?l)) \<noteq> None" by simp_all
  have "j * 2 ^ 21 < 2 ^ 43 * 2 ^ 21" using j(2) by (rule mult_less_mono1) simp
  then have "unat (push_bit 21 (of_nat j) :: u64) = j * 2 ^ 21"
    using j(2) by (simp add: push_bit_eq_mult unat_word_ariths unsigned_of_nat take_bit_nat_eq_self)
  moreover from this have "lowest \<le> push_bit 21 (of_nat j)" using l j(1) by (simp add: word_le_nat_alt)
  ultimately have ix: "Phy_to_2M_Page m (push_bit 21 (of_nat j)) = j - ?l"
    using frame_index [OF Cons.prems(2), of "push_bit 21 (of_nat j)"] l by (simp flip: diff_mult_distrib)
  from slab_reserve_ok [OF Cons.prems(1) j(3,4)] obtain m1 where m1: "slab_reserve (j - ?l) m = Some m1" "pmm_wf m1"
    "same_geom m m1" "end_of_struct m1 = end_of_struct m" by metis
  note D = same_geomD [OF m1(3)]
  have "\<exists>m'. slab_reserve_meta js m1 = Some m' \<and> pmm_wf m' \<and> same_geom m1 m' \<and> end_of_struct m' = end_of_struct m1"
    by (rule Cons.IH [OF m1(2)]) (use Cons.prems D in \<open>simp_all\<close>)
  then show ?case using m1 ix same_geom_trans [OF m1(3)] by auto
qed simp

lemma slab_reserve_pools_ok:
  assumes "pmm_wf (sl_frames st)" "length (kmalloc_cache_size st) = 16" "n \<le> 8" "i0 \<le> n"
    and fr: "\<And>i. i < n \<Longrightarrow> Phy_to_2M_Page (sl_frames st) (Virt_To_Phy (start + of_nat i * PAGE_2M_SIZE)) = p0 + i
      \<and> p0 + i < unat (pages_size (sl_frames st)) \<and> zone_struct (pages_struct (sl_frames st) (p0 + i)) \<noteq> None"
  shows "\<exists>m. slab_reserve_pools start [i0..<n] st = Some (st\<lparr>sl_frames := m, kmalloc_cache_size :=
      map (\<lambda>i. if i0 \<le> i \<and> i < n then (kmalloc_cache_size st ! i)\<lparr>c_slabs := (c_slabs (kmalloc_cache_size st ! i))[0 :=
          (c_slabs (kmalloc_cache_size st ! i) ! 0)\<lparr>sl_page := p0 + i, sl_address := start + of_nat i * PAGE_2M_SIZE\<rparr>]\<rparr>
        else kmalloc_cache_size st ! i) [0..<16]\<rparr>)
    \<and> pmm_wf m \<and> same_geom (sl_frames st) m \<and> end_of_struct m = end_of_struct (sl_frames st)
    \<and> (\<forall>p. bm_test (bits_map m) p = (bm_test (bits_map (sl_frames st)) p \<or> p0 + i0 \<le> p \<and> p < p0 + n))"
  using assms
proof (induction "n - i0" arbitrary: i0 st)
  case 0
  have "map ((!) (kmalloc_cache_size st)) [0..<16] = kmalloc_cache_size st"
    using map_nth [of "kmalloc_cache_size st"] 0 by simp
  moreover from 0 have "n = i0" by simp
  moreover have no: "(i0 \<le> i \<and> i < i0) = False" "(p0 + i0 \<le> i \<and> i < p0 + i0) = False" for i by auto
  ultimately show ?case using 0 by (intro exI [of _ "sl_frames st"]) (simp add: no)
next
  case (Suc d)
  then have i0: "i0 < n" "[i0..<n] = i0 # [Suc i0..<n]" by (simp_all add: upt_conv_Cons)
  note F = Suc.prems(5) [OF i0(1)]
  from slab_reserve_ok [of "sl_frames st" "p0 + i0"] F Suc.prems(1) obtain m1 where
    m1: "slab_reserve (p0 + i0) (sl_frames st) = Some m1" "pmm_wf m1" "same_geom (sl_frames st) m1"
      "bm_test (bits_map m1) = (bm_test (bits_map (sl_frames st)))(p0 + i0 := True)" "end_of_struct m1 = end_of_struct (sl_frames st)"
    by metis
  note D = same_geomD [OF m1(3)]
  define st1 where "st1 = upd_cache i0 (\<lambda>c. c\<lparr>c_slabs := (c_slabs c)[0 := (c_slabs c ! 0)\<lparr>sl_page := p0 + i0,
    sl_address := start + of_nat i0 * PAGE_2M_SIZE\<rparr>]\<rparr>) (st\<lparr>sl_frames := m1\<rparr>)"
  have st1: "sl_frames st1 = m1" "length (kmalloc_cache_size st1) = 16"
    "kmalloc_cache_size st1 ! i = (if i = i0 then (kmalloc_cache_size st ! i)\<lparr>c_slabs := (c_slabs (kmalloc_cache_size st ! i))[0 :=
          (c_slabs (kmalloc_cache_size st ! i) ! 0)\<lparr>sl_page := p0 + i, sl_address := start + of_nat i * PAGE_2M_SIZE\<rparr>]\<rparr>
       else kmalloc_cache_size st ! i)" for i
    using Suc.prems i0 by (simp_all add: st1_def upd_cache_def nth_list_update)
  have step: "slab_reserve_pools start [i0..<n] st = slab_reserve_pools start [Suc i0..<n] st1"
    unfolding i0(2) using F m1(1) by (simp add: Let_def st1_def)
  have "Phy_to_2M_Page m1 pa = Phy_to_2M_Page (sl_frames st) pa" for pa by (simp add: Phy_to_2M_Page_def D)
  moreover have dd: "d = n - Suc i0" using Suc.hyps(2) by simp
  ultimately obtain m where m: "slab_reserve_pools start [Suc i0..<n] st1 = Some (st1\<lparr>sl_frames := m, kmalloc_cache_size :=
      map (\<lambda>i. if Suc i0 \<le> i \<and> i < n then (kmalloc_cache_size st1 ! i)\<lparr>c_slabs := (c_slabs (kmalloc_cache_size st1 ! i))[0 :=
          (c_slabs (kmalloc_cache_size st1 ! i) ! 0)\<lparr>sl_page := p0 + i, sl_address := start + of_nat i * PAGE_2M_SIZE\<rparr>]\<rparr>
        else kmalloc_cache_size st1 ! i) [0..<16]\<rparr>)" "pmm_wf m" "same_geom m1 m" "end_of_struct m = end_of_struct m1"
    "\<And>p. bm_test (bits_map m) p = (bm_test (bits_map m1) p \<or> p0 + Suc i0 \<le> p \<and> p < p0 + n)"
    using Suc.hyps(1) [OF dd, of st1] Suc.prems i0 m1(2) by (auto simp: st1 D)
  have e1: "st1\<lparr>sl_frames := m, kmalloc_cache_size := cs\<rparr> = st\<lparr>sl_frames := m, kmalloc_cache_size := cs\<rparr>" for cs
    by (simp add: st1_def upd_cache_def)
  have e2: "map (\<lambda>i. if Suc i0 \<le> i \<and> i < n then (kmalloc_cache_size st1 ! i)\<lparr>c_slabs := (c_slabs (kmalloc_cache_size st1 ! i))[0 :=
          (c_slabs (kmalloc_cache_size st1 ! i) ! 0)\<lparr>sl_page := p0 + i, sl_address := start + of_nat i * PAGE_2M_SIZE\<rparr>]\<rparr>
        else kmalloc_cache_size st1 ! i) [0..<16]
    = map (\<lambda>i. if i0 \<le> i \<and> i < n then (kmalloc_cache_size st ! i)\<lparr>c_slabs := (c_slabs (kmalloc_cache_size st ! i))[0 :=
          (c_slabs (kmalloc_cache_size st ! i) ! 0)\<lparr>sl_page := p0 + i, sl_address := start + of_nat i * PAGE_2M_SIZE\<rparr>]\<rparr>
        else kmalloc_cache_size st ! i) [0..<16]"
    using i0(1) by (intro map_cong refl) (auto simp: st1(3))
  have "bm_test (bits_map m) p = (bm_test (bits_map (sl_frames st)) p \<or> p0 + i0 \<le> p \<and> p < p0 + n)" for p
    using i0(1) by (auto simp: m(5) m1(4))
  then show ?case
    unfolding step m(1) e1 e2 using m(2,4) m1(5) same_geom_trans [OF m1(3) m(3)] by (intro exI [of _ m]) simp
qed

lemma pools_from_zero:
  assumes "kmalloc_cache_size st = cs" "sl_frames st = m1" "pmm_wf m1" "length cs = 16"
    "\<And>i. i < 8 \<Longrightarrow> Phy_to_2M_Page m1 (Virt_To_Phy (start + of_nat i * PAGE_2M_SIZE)) = p0 + i
      \<and> p0 + i < unat (pages_size m1) \<and> zone_struct (pages_struct m1 (p0 + i)) \<noteq> None"
  shows "\<exists>m. slab_reserve_pools start [0..<8] st = Some (st\<lparr>sl_frames := m, kmalloc_cache_size :=
      map (\<lambda>i. if 0 \<le> i \<and> i < 8 then (cs ! i)\<lparr>c_slabs := (c_slabs (cs ! i))[0 :=
          (c_slabs (cs ! i) ! 0)\<lparr>sl_page := p0 + i, sl_address := start + of_nat i * PAGE_2M_SIZE\<rparr>]\<rparr>
        else cs ! i) [0..<16]\<rparr>)
    \<and> pmm_wf m \<and> same_geom m1 m \<and> end_of_struct m = end_of_struct m1
    \<and> (\<forall>p. bm_test (bits_map m) p = (bm_test (bits_map m1) p \<or> p0 + 0 \<le> p \<and> p < p0 + 8))"
  using assms(3-5) unfolding assms(1,2) [symmetric] by (intro slab_reserve_pools_ok) simp_all

section \<open>The boot heap\<close>

lemma meta_total: "sum_list (map meta_size cache_sizes) = meta_bytes slab_layout_compute + 16"
  "sum_list (map meta_size cache_sizes) = 20128"
  by (simp_all add: meta_size_def slab_layout_compute_def cache_sizes_def small_sizes_def large_sizes_def PAGE_2M_SIZE_def
    sizeof_Slab_def color_length_of_def)

text \<open>The first eight caches after boot have one slab each, without objects in use; the others are dormant.\<close>

definition boot_caches :: "(nat \<Rightarrow> nat \<times> u64) \<Rightarrow> (nat \<Rightarrow> u64) \<Rightarrow> nat \<Rightarrow> u64 \<Rightarrow> slab_cache list" where
  "boot_caches stale e p0 start = map (\<lambda>i. \<lparr>c_size = cache_sizes ! i, total_using = 0,
     total_free = (if i < 8 then PAGE_2M_SIZE div cache_sizes ! i else 0),
     c_slabs = [if i < 8 then (init_head (stale i) i (e i) (cache_sizes ! i))\<lparr>sl_page := p0 + i, sl_address := start + of_nat i * PAGE_2M_SIZE\<rparr>
       else init_head (stale i) i (e i) (cache_sizes ! i)]\<rparr>) [0..<16]"

lemma size_bound: "i < 16 \<Longrightarrow> unat (cache_sizes ! i) * unat (PAGE_2M_SIZE div cache_sizes ! i) \<le> 2 ^ 21
    \<and> 0 < unat (PAGE_2M_SIZE div cache_sizes ! i)"
proof -
  have "list_all (\<lambda>sz. unat sz * unat (PAGE_2M_SIZE div sz) \<le> 2 ^ 21 \<and> 0 < unat (PAGE_2M_SIZE div sz)) cache_sizes"
    by (simp add: cache_sizes_def small_sizes_def large_sizes_def PAGE_2M_SIZE_def)
  then show "i < 16 \<Longrightarrow> unat (cache_sizes ! i) * unat (PAGE_2M_SIZE div cache_sizes ! i) \<le> 2 ^ 21
    \<and> 0 < unat (PAGE_2M_SIZE div cache_sizes ! i)" by (simp add: list_all_length cache_sizes_facts)
qed

lemma boot_heap_wf:
  assumes hf: "heap_frames lowest m" and cs: "kmalloc_cache_size st = boot_caches stale e p0 start" "sl_frames st = m"
    and stale: "\<And>i. 8 \<le> i \<Longrightarrow> snd (stale i) < PAGE_OFFSET"
    and fr: "\<And>i. i < 8 \<Longrightarrow> p0 + i < unat (pages_size m) \<and> zone_struct (pages_struct m (p0 + i)) \<noteq> None
      \<and> bm_test (bits_map m) (p0 + i) \<and> start + of_nat i * PAGE_2M_SIZE = Phy_To_Virt (phy_address (pages_struct m (p0 + i)))"
  shows "slabs_wf lowest st" "\<not> in_use st i k j"
proof -
  have at: "i < 16 \<Longrightarrow> kmalloc_cache_size st ! i = \<lparr>c_size = cache_sizes ! i, total_using = 0,
     total_free = (if i < 8 then PAGE_2M_SIZE div cache_sizes ! i else 0),
     c_slabs = [if i < 8 then (init_head (stale i) i (e i) (cache_sizes ! i))\<lparr>sl_page := p0 + i, sl_address := start + of_nat i * PAGE_2M_SIZE\<rparr>
       else init_head (stale i) i (e i) (cache_sizes ! i)]\<rparr>" for i
    by (simp add: cs boot_caches_def)
  have act: "active st i k \<longleftrightarrow> i < 8 \<and> k = 0" for i k by (auto simp: active_def at dormant_def)
  have fresh: "fresh_slab (cache_sizes ! i) (slab_at st i 0)" if "i < 8" for i
    using that size_bound [of i] by (intro fresh_map_slab) (simp_all add: at init_head_def Let_def)
  have "cache_ok i (kmalloc_cache_size st ! i)" if i: "i < 16" for i
  proof (cases "i < 8")
    case True
    with fresh [OF True] show ?thesis
      by (simp add: cache_ok_def at fresh_slab_def dormant_def) (simp add: init_head_def Let_def)
  next
    case False
    with i stale [of i] show ?thesis by (simp add: cache_ok_def at dormant_def init_head_def Let_def)
  qed
  moreover have "frame_ok (sl_frames st) (slab_at st i k)" if "active st i k" for i k
    using that fr [of i] by (simp add: act at cs(2) frame_ok_def)
  moreover have "map c_size (kmalloc_cache_size st) = cache_sizes"
    by (rule nth_equalityI) (simp_all add: cs boot_caches_def cache_sizes_facts)
  moreover have "i = i' \<and> k = k'" if "active st i k" "active st i' k'" "sl_page (slab_at st i k) = sl_page (slab_at st i' k')" for i k i' k'
    using that by (simp add: act at)
  ultimately show "slabs_wf lowest st" using hf unfolding slabs_wf_iff cs(2) by blast
  show "\<not> in_use st i k j" using fresh_slab_unused [OF fresh] by (auto simp: in_use_def act)
qed

text \<open>Where the boot heap lies, in frames above \<open>lowest\<close>.\<close>

lemma round_shift: "a * n + z - (a * n + z) mod n = (a + z div n) * n" for a n z :: nat
  unfolding minus_mod_eq_div_mult by (cases "n = 0") simp_all

lemma boot_positions:
  fixes lowest e :: u64
  assumes l: "unat lowest mod 2 ^ 21 = 0" and lo: "2 ^ 64 - 2 ^ 47 + unat lowest \<le> unat e"
    and q: "q = (unat e - (2 ^ 64 - 2 ^ 47) - unat lowest) div 2 ^ 21" and top: "unat lowest + (q + 10) * 2 ^ 21 \<le> 2 ^ 47"
  defines "t \<equiv> e + 20128" and "s \<equiv> (e + 20128 + PAGE_2M_SIZE - 1) AND PAGE_2M_MASK"
  obtains p0 where "q \<le> p0" "p0 \<le> q + 2" "unat s = 2 ^ 64 - 2 ^ 47 + unat lowest + p0 * 2 ^ 21"
    "unat lowest div 2 ^ 21 + q \<le> unat (drop_bit 21 (PAGE_2M_ALIGN (Virt_To_Phy e)))"
    "unat (drop_bit 21 (Virt_To_Phy t)) \<le> unat lowest div 2 ^ 21 + q + 1"
proof -
  let ?g = "2 ^ 21 :: nat" and ?O = "2 ^ 64 - 2 ^ 47 :: nat" and ?L = "unat lowest"
  define w r where "w = unat e - ?O - ?L" and "r = w mod ?g"
  have E: "unat e = ?O + ?L + w" using lo by (simp add: w_def)
  have w: "w = q * ?g + r" "r < ?g" using q by (simp_all add: w_def r_def)
  have L: "?L = (?L div ?g) * ?g" using l by (metis add.right_neutral div_mult_mod_eq)
  have big: "?L + q * ?g + 10 * ?g \<le> 2 ^ 47" using top by (simp add: algebra_simps)
  have t: "unat t = ?O + ?L + (w + 20128)"
    unfolding t_def using E w big by (subst unat_add_small) simp_all
  have s1: "unat (t + (PAGE_2M_SIZE - 1)) = ?O + ?L + (w + 20128) + (?g - 1)"
    using t w big by (subst unat_add_small) (simp_all add: PAGE_2M_SIZE_def)
  have mask: "PAGE_2M_MASK = NOT (mask 21)" by (simp add: PAGE_2M_MASK_def PAGE_2M_SIZE_def mask_eq_decr_exp)
  define z where "z = r + 20128 + (?g - 1)"
  have y: "?O + ?L + (w + 20128) + (?g - 1) = (2 ^ 43 - 2 ^ 26 + ?L div ?g + q) * ?g + z"
    using L w by (simp add: z_def algebra_simps)
  have "s = (t + (PAGE_2M_SIZE - 1)) AND NOT (mask 21)" by (simp add: s_def t_def mask algebra_simps)
  then have "unat s = ((2 ^ 43 - 2 ^ 26 + ?L div ?g + q) * ?g + z) - ((2 ^ 43 - 2 ^ 26 + ?L div ?g + q) * ?g + z) mod ?g"
    by (simp only: unat_and_not_mask s1 y)
  also have "\<dots> = (2 ^ 43 - 2 ^ 26 + ?L div ?g + q + z div ?g) * ?g" by (rule round_shift)
  finally have S: "unat s = ?O + ?L + (q + z div ?g) * ?g" using L by (simp add: algebra_simps)
  have z2: "z div ?g \<le> 2" using w(2) by (simp add: z_def)
  have pe: "unat (Virt_To_Phy e) = ?L + w"
    unfolding Virt_To_Phy_def using E unat_PAGE_OFFSET by (subst unat_sub_small) (simp_all add: word_le_nat_alt)
  have pt: "unat (Virt_To_Phy t) = ?L + (w + 20128)"
    unfolding Virt_To_Phy_def using t unat_PAGE_OFFSET by (subst unat_sub_small) (simp_all add: word_le_nat_alt)
  have Lw: "?L + w = (?L div ?g + q) * ?g + r" using L w(1) by (simp add: algebra_simps)
  have "unat (Virt_To_Phy e + (PAGE_2M_SIZE - 1)) = ?L + w + (?g - 1)"
    using pe w big by (subst unat_add_small) (simp_all add: PAGE_2M_SIZE_def)
  then have "unat (drop_bit 21 (PAGE_2M_ALIGN (Virt_To_Phy e))) = (?L + w + (?g - 1)) div ?g"
    unfolding PAGE_2M_ALIGN_def mask drop_bit_unat add_diff_eq [symmetric] unat_and_not_mask
    by (simp add: minus_mod_eq_div_mult)
  moreover have "\<dots> \<ge> ?L div ?g + q" unfolding Lw by simp
  moreover have "unat (drop_bit 21 (Virt_To_Phy t)) \<le> ?L div ?g + q + 1"
  proof -
    have "unat (drop_bit 21 (Virt_To_Phy t)) = ((?L div ?g + q) * ?g + (r + 20128)) div ?g"
      unfolding drop_bit_unat pt using Lw by (simp add: add.assoc [symmetric])
    also have "\<dots> = ?L div ?g + q + (r + 20128) div ?g" by simp
    also have "(r + 20128) div ?g \<le> 1" using w(2) by simp
    finally show ?thesis by simp
  qed
  ultimately show ?thesis using that [of "q + z div ?g"] S z2 by simp
qed

lemma pool_address:
  assumes S: "unat s = 2 ^ 64 - 2 ^ 47 + unat lowest + p0 * 2 ^ 21" and top: "unat lowest + (p0 + 8) * 2 ^ 21 \<le> 2 ^ 47" and i: "i < 8"
  shows "unat (s + of_nat i * PAGE_2M_SIZE) = 2 ^ 64 - 2 ^ 47 + unat lowest + (p0 + i) * 2 ^ 21"
    "unat (Virt_To_Phy (s + of_nat i * PAGE_2M_SIZE)) = unat lowest + (p0 + i) * 2 ^ 21"
proof -
  have m: "unat (of_nat i * PAGE_2M_SIZE) = i * 2 ^ 21"
    using i by (simp add: PAGE_2M_SIZE_def unat_word_ariths unsigned_of_nat take_bit_nat_eq_self)
  have dist: "(p0 + 8) * 2 ^ 21 = p0 * 2 ^ 21 + 8 * 2 ^ 21" "(p0 + i) * 2 ^ 21 = p0 * 2 ^ 21 + i * 2 ^ 21"
    by (simp_all add: add_mult_distrib)
  have "i * 2 ^ 21 < 8 * 2 ^ 21" using i by (rule mult_less_mono1) simp
  then have "unat s + unat (of_nat i * PAGE_2M_SIZE) < 2 ^ 64" using S top unfolding m dist by simp
  then have "unat s + unat (of_nat i * PAGE_2M_SIZE) < 2 ^ LENGTH(64)" by simp
  from unat_add_small [OF this] show a: "unat (s + of_nat i * PAGE_2M_SIZE) = 2 ^ 64 - 2 ^ 47 + unat lowest + (p0 + i) * 2 ^ 21"
    unfolding m dist using S by simp
  have "PAGE_OFFSET \<le> s + of_nat i * PAGE_2M_SIZE" unfolding word_le_nat_alt a unat_PAGE_OFFSET by simp
  from unat_sub_small [OF this] show "unat (Virt_To_Phy (s + of_nat i * PAGE_2M_SIZE)) = unat lowest + (p0 + i) * 2 ^ 21"
    unfolding Virt_To_Phy_def a unat_PAGE_OFFSET by simp
qed

lemma pmm_wf_end_of_struct [simp]: "pmm_wf (m\<lparr>end_of_struct := x\<rparr>) = pmm_wf m"
proof -
  have "zone_ok (m\<lparr>end_of_struct := x\<rparr>) = zone_ok m" "page_ok (m\<lparr>end_of_struct := x\<rparr>) = page_ok m"
    by (rule ext, simp add: zone_ok_def page_ok_def split: option.split)+
  then show ?thesis by (simp add: pmm_wf_def)
qed

text \<open>The two reservation loops, for a heap whose descriptors start in frame \<open>q\<close>.\<close>

lemma reserve_loops:
  assumes hf: "heap_frames lowest m" and p00: "phy_address (pages_struct m 0) = lowest"
    and ram: "\<And>p. q \<le> p \<Longrightarrow> p < q + 10 \<Longrightarrow> p < unat (pages_size m) \<and> zone_struct (pages_struct m p) \<noteq> None"
    and pos: "q \<le> p0" "p0 \<le> q + 2" "unat s = 2 ^ 64 - 2 ^ 47 + unat lowest + p0 * 2 ^ 21"
      "unat lowest div 2 ^ 21 + q \<le> fst0" "lst \<le> unat lowest div 2 ^ 21 + q + 1"
    and st: "sl_frames st = m" "length (kmalloc_cache_size st) = 16"
  shows "\<exists>m1 m2. slab_reserve_meta [fst0..<Suc lst] m = Some m1
    \<and> slab_reserve_pools s [0..<8] (st\<lparr>sl_frames := m1\<rparr>) = Some (st\<lparr>sl_frames := m2, kmalloc_cache_size :=
      map (\<lambda>i. if 0 \<le> i \<and> i < 8 then (kmalloc_cache_size st ! i)\<lparr>c_slabs := (c_slabs (kmalloc_cache_size st ! i))[0 :=
          (c_slabs (kmalloc_cache_size st ! i) ! 0)\<lparr>sl_page := p0 + i, sl_address := s + of_nat i * PAGE_2M_SIZE\<rparr>]\<rparr>
        else kmalloc_cache_size st ! i) [0..<16]\<rparr>)
    \<and> heap_frames lowest m2 \<and> end_of_struct m2 = end_of_struct m
    \<and> (\<forall>i<8. p0 + i < unat (pages_size m2) \<and> zone_struct (pages_struct m2 (p0 + i)) \<noteq> None
      \<and> bm_test (bits_map m2) (p0 + i) \<and> s + of_nat i * PAGE_2M_SIZE = Phy_To_Virt (phy_address (pages_struct m2 (p0 + i))))"
proof -
  let ?L = "unat lowest div 2 ^ 21"
  from hf have wf: "pmm_wf m" and lin: "linear_frames lowest m" and l0: "unat lowest mod 2 ^ 21 = 0"
    and size: "unat lowest + unat (pages_size m) * 2 ^ 21 \<le> 2 ^ 47" by (simp_all add: heap_frames_def)
  have L: "unat lowest = ?L * 2 ^ 21" using l0 by (metis add.right_neutral div_mult_mod_eq)
  have "q + 10 \<le> unat (pages_size m)" using ram [of "q + 9"] by simp
  then have "(q + 10) * 2 ^ 21 \<le> unat (pages_size m) * 2 ^ 21" by (rule mult_le_mono1)
  with size have top: "unat lowest + (q + 10) * 2 ^ 21 \<le> 2 ^ 47" by linarith
  have small: "?L + q + 10 \<le> 2 ^ 26" using top L by simp
  have "\<exists>m'. slab_reserve_meta [fst0..<Suc lst] m = Some m' \<and> pmm_wf m' \<and> same_geom m m' \<and> end_of_struct m' = end_of_struct m"
  proof (rule slab_reserve_meta_ok [OF wf p00 l0])
    fix j assume "j \<in> set [fst0..<Suc lst]"
    then have "?L + q \<le> j" "j \<le> ?L + q + 1" using pos(4,5) by auto
    with ram [of "j - ?L"] small show "?L \<le> j \<and> j < 2 ^ 43 \<and> j - ?L < unat (pages_size m)
       \<and> zone_struct (pages_struct m (j - ?L)) \<noteq> None" by simp
  qed
  then obtain m1 where m1: "slab_reserve_meta [fst0..<Suc lst] m = Some m1" "pmm_wf m1" "same_geom m m1"
    "end_of_struct m1 = end_of_struct m" by blast
  note D = same_geomD [OF m1(3)]
  have top8: "unat lowest + (p0 + 8) * 2 ^ 21 \<le> 2 ^ 47" using top pos(2) by simp
  note A = pool_address [OF pos(3) top8]
  have fr: "Phy_to_2M_Page m1 (Virt_To_Phy (s + of_nat i * PAGE_2M_SIZE)) = p0 + i
      \<and> p0 + i < unat (pages_size m1) \<and> zone_struct (pages_struct m1 (p0 + i)) \<noteq> None" if "i < 8" for i
  proof -
    have "lowest \<le> Virt_To_Phy (s + of_nat i * PAGE_2M_SIZE)" unfolding word_le_nat_alt A(2) [OF that] by simp
    then have "Phy_to_2M_Page m1 (Virt_To_Phy (s + of_nat i * PAGE_2M_SIZE)) = p0 + i"
      using frame_index [of m1 lowest] p00 A(2) [OF that] by (simp add: D)
    then show ?thesis using ram [of "p0 + i"] pos(1,2) that by (simp add: D)
  qed
  obtain m2 where m2: "slab_reserve_pools s [0..<8] (st\<lparr>sl_frames := m1\<rparr>) = Some (st\<lparr>sl_frames := m2, kmalloc_cache_size :=
      map (\<lambda>i. if 0 \<le> i \<and> i < 8 then (kmalloc_cache_size st ! i)\<lparr>c_slabs := (c_slabs (kmalloc_cache_size st ! i))[0 :=
          (c_slabs (kmalloc_cache_size st ! i) ! 0)\<lparr>sl_page := p0 + i, sl_address := s + of_nat i * PAGE_2M_SIZE\<rparr>]\<rparr>
        else kmalloc_cache_size st ! i) [0..<16]\<rparr>)" "pmm_wf m2" "same_geom m1 m2" "end_of_struct m2 = end_of_struct m1"
    "\<And>p. bm_test (bits_map m2) p = (bm_test (bits_map m1) p \<or> p0 + 0 \<le> p \<and> p < p0 + 8)"
    using pools_from_zero [of "st\<lparr>sl_frames := m1\<rparr>" "kmalloc_cache_size st" m1 s p0] m1(2) st(2) fr by auto
  have geom: "same_geom m m2" by (rule same_geom_trans [OF m1(3) m2(3)])
  note D2 = same_geomD [OF geom]
  have "s + of_nat i * PAGE_2M_SIZE = Phy_To_Virt (phy_address (pages_struct m2 (p0 + i)))" if "i < 8" for i
  proof -
    have "unat (phy_address (pages_struct m (p0 + i))) = unat lowest + (p0 + i) * 2 ^ 21"
      using linear_frames_unat(1) [OF lin] ram [of "p0 + i"] pos(1,2) that by simp
    moreover have "(p0 + i) * 2 ^ 21 < (p0 + 8) * 2 ^ 21" using that by simp
    ultimately have "unat (Phy_To_Virt (phy_address (pages_struct m2 (p0 + i)))) = unat (s + of_nat i * PAGE_2M_SIZE)"
      unfolding Phy_To_Virt_def A(1) [OF that] using top8 unat_PAGE_OFFSET by (subst unat_add_small) (simp_all add: D2)
    then show ?thesis by (simp add: word_unat_eq_iff)
  qed
  then show ?thesis
    using m1(1,4) m2(1,4,5) heap_frames_step [OF hf m2(2) geom] ram pos(1,2) by (intro exI [of _ m1] exI [of _ m2]) (simp add: D2)
qed

section \<open>slab_init\<close>

text \<open>The memory behind the page allocator's tables: ten RAM frames from the one they end in.\<close>

definition room_for_heap :: "u64 \<Rightarrow> pmm \<Rightarrow> bool" where
  "room_for_heap lowest m \<longleftrightarrow> heap_frames lowest m \<and> zone_struct (pages_struct m 0) \<noteq> None
     \<and> take_bit 3 (end_of_struct m) = 0 \<and> 2 ^ 64 - 2 ^ 47 + unat lowest \<le> unat (end_of_struct m)
     \<and> (let q = (unat (end_of_struct m) - (2 ^ 64 - 2 ^ 47) - unat lowest) div 2 ^ 21 in
        q + 10 \<le> unat (pages_size m) \<and> list_all (\<lambda>p. zone_struct (pages_struct m p) \<noteq> None) [q..<q + 10])"

lemma below_top:
  fixes g q w l o' t m c :: nat
  assumes "w < g + g * q" "l + (q + 10) * g \<le> t" "o' + t = m" "c < g"
  shows "o' + l + w + c < m"
proof -
  have "(q + 10) * g = g * q + 10 * g" by (simp add: add_mult_distrib)
  with assms show ?thesis by linarith
qed

lemma room_positions:
  assumes "room_for_heap lowest m"
  defines "m' \<equiv> m\<lparr>end_of_struct := end_of_struct m + 20128\<rparr>"
    and "s \<equiv> (end_of_struct m + 20128 + PAGE_2M_SIZE - 1) AND PAGE_2M_MASK"
  obtains q p0 where "heap_frames lowest m'" "phy_address (pages_struct m' 0) = lowest"
    "\<And>p. q \<le> p \<Longrightarrow> p < q + 10 \<Longrightarrow> p < unat (pages_size m') \<and> zone_struct (pages_struct m' p) \<noteq> None"
    "q \<le> p0" "p0 \<le> q + 2" "unat s = 2 ^ 64 - 2 ^ 47 + unat lowest + p0 * 2 ^ 21"
    "unat lowest div 2 ^ 21 + q \<le> unat (drop_bit 21 (PAGE_2M_ALIGN (Virt_To_Phy (end_of_struct m))))"
    "unat (drop_bit 21 (Virt_To_Phy (end_of_struct m + 20128))) \<le> unat lowest div 2 ^ 21 + q + 1"
    "unat (end_of_struct m) + 20128 < 2 ^ 64"
proof -
  define q where "q = (unat (end_of_struct m) - (2 ^ 64 - 2 ^ 47) - unat lowest) div 2 ^ 21"
  from assms(1) have hf: "heap_frames lowest m" and z0: "zone_struct (pages_struct m 0) \<noteq> None"
    and lo: "2 ^ 64 - 2 ^ 47 + unat lowest \<le> unat (end_of_struct m)"
    and qs: "q + 10 \<le> unat (pages_size m)" and qz: "list_all (\<lambda>p. zone_struct (pages_struct m p) \<noteq> None) [q..<q + 10]"
    by (simp_all add: room_for_heap_def q_def Let_def)
  have geom: "same_geom m m'" by (simp add: m'_def same_geom_def)
  have hf': "heap_frames lowest m'"
    by (rule heap_frames_step [OF hf _ geom]) (use hf in \<open>simp add: m'_def heap_frames_def\<close>)
  have p00: "phy_address (pages_struct m' 0) = lowest"
    using hf z0 qs by (auto simp: m'_def heap_frames_def linear_frames_def list_all_iff dest!: bspec [where x = 0])
  have ram: "p < unat (pages_size m') \<and> zone_struct (pages_struct m' p) \<noteq> None" if "q \<le> p" "p < q + 10" for p
    using that qs qz by (auto simp: m'_def list_all_iff)
  have "(q + 10) * 2 ^ 21 \<le> unat (pages_size m) * 2 ^ 21" using qs by (rule mult_le_mono1)
  then have top: "unat lowest + (q + 10) * 2 ^ 21 \<le> 2 ^ 47" using hf unfolding heap_frames_def by linarith
  have l0: "unat lowest mod 2 ^ 21 = 0" using hf by (simp add: heap_frames_def)
  from boot_positions [OF l0 lo q_def top, folded s_def] obtain p0 where pos: "q \<le> p0" "p0 \<le> q + 2"
    "unat s = 2 ^ 64 - 2 ^ 47 + unat lowest + p0 * 2 ^ 21"
    "unat lowest div 2 ^ 21 + q \<le> unat (drop_bit 21 (PAGE_2M_ALIGN (Virt_To_Phy (end_of_struct m))))"
    "unat (drop_bit 21 (Virt_To_Phy (end_of_struct m + 20128))) \<le> unat lowest div 2 ^ 21 + q + 1" by metis
  define w where "w = unat (end_of_struct m) - (2 ^ 64 - 2 ^ 47 + unat lowest)"
  have w: "unat (end_of_struct m) = 2 ^ 64 - 2 ^ 47 + unat lowest + w" unfolding w_def by (simp only: le_add_diff_inverse [OF lo])
  have qw: "q = w div 2 ^ 21" unfolding q_def w_def diff_diff_left ..
  have "w < 2 ^ 21 + 2 ^ 21 * q" unfolding qw by (rule dividend_less_times_div) simp
  then have fits: "unat (end_of_struct m) + 20128 < 2 ^ 64"
    unfolding w by (rule below_top [OF _ top]) simp_all
  show ?thesis by (rule that [OF hf' p00 ram pos fits])
qed

lemma boot_caches_eq:
  assumes "cs = map (\<lambda>i. \<lparr>c_size = cache_sizes ! i, total_using = 0,
        total_free = (if i < 8 then PAGE_2M_SIZE div cache_sizes ! i else 0),
        c_slabs = [init_head (stale i) i (e i) (cache_sizes ! i)]\<rparr>) [0..<16]"
  shows "map (\<lambda>i. if 0 \<le> i \<and> i < 8 then (cs ! i)\<lparr>c_slabs := (c_slabs (cs ! i))[0 :=
          (c_slabs (cs ! i) ! 0)\<lparr>sl_page := p0 + i, sl_address := s + of_nat i * PAGE_2M_SIZE\<rparr>]\<rparr>
        else cs ! i) [0..<16] = boot_caches stale e p0 s"
  unfolding boot_caches_def by (rule map_cong [OF refl]) (simp add: assms)

lemma slab_init_result:
  assumes room: "room_for_heap lowest m" and stale: "\<forall>i\<ge>8. snd (stale i) < PAGE_OFFSET"
  obtains st where "slab_init stale bound m = (if end_of_struct m + 20128 > bound then None else Some st)"
    "slabs_wf lowest st" "\<not> kmalloc_creating st" "\<forall>i k j. \<not> in_use st i k j"
proof -
  define m' where "m' = m\<lparr>end_of_struct := end_of_struct m + 20128\<rparr>"
  define s where "s = (end_of_struct m + 20128 + PAGE_2M_SIZE - 1) AND PAGE_2M_MASK"
  from room_positions [OF room, folded m'_def s_def] obtain q p0 where P: "heap_frames lowest m'" "phy_address (pages_struct m' 0) = lowest"
    "\<And>p. q \<le> p \<Longrightarrow> p < q + 10 \<Longrightarrow> p < unat (pages_size m') \<and> zone_struct (pages_struct m' p) \<noteq> None"
    "q \<le> p0" "p0 \<le> q + 2" "unat s = 2 ^ 64 - 2 ^ 47 + unat lowest + p0 * 2 ^ 21"
    "unat lowest div 2 ^ 21 + q \<le> unat (drop_bit 21 (PAGE_2M_ALIGN (Virt_To_Phy (end_of_struct m))))"
    "unat (drop_bit 21 (Virt_To_Phy (end_of_struct m + 20128))) \<le> unat lowest div 2 ^ 21 + q + 1" by blast
  from room have al: "take_bit 3 (end_of_struct m) = 0" by (simp add: room_for_heap_def)
  define e where "e n = end_of_struct m + sum_list (map meta_size (take n cache_sizes))" for n
  define st1 where "st1 = fold (init_cache stale) [0..<16] (boot_heap m)"
  have e16: "e 16 = end_of_struct m + 20128" by (simp add: e_def meta_total(2) cache_sizes_facts)
  have st1: "kmalloc_cache_size st1 = map (\<lambda>i. \<lparr>c_size = cache_sizes ! i, total_using = 0,
        total_free = (if i < 8 then PAGE_2M_SIZE div cache_sizes ! i else 0),
        c_slabs = [init_head (stale i) i (e i) (cache_sizes ! i)]\<rparr>) [0..<16]" "sl_frames st1 = m'" "\<not> kmalloc_creating st1"
    using init_caches [OF al order_refl, of stale, folded e_def st1_def] e16 by (auto simp: m'_def)
  have len: "length (kmalloc_cache_size st1) = 16" by (simp add: st1)
  obtain m1 m2 where R: "slab_reserve_meta [unat (drop_bit 21 (PAGE_2M_ALIGN (Virt_To_Phy (end_of_struct m))))..<
      Suc (unat (drop_bit 21 (Virt_To_Phy (end_of_struct m + 20128))))] m' = Some m1"
    "slab_reserve_pools s [0..<8] (st1\<lparr>sl_frames := m1\<rparr>) = Some (st1\<lparr>sl_frames := m2, kmalloc_cache_size := boot_caches stale e p0 s\<rparr>)"
    "heap_frames lowest m2" "end_of_struct m2 = end_of_struct m'"
    "\<And>i. i < 8 \<Longrightarrow> p0 + i < unat (pages_size m2) \<and> zone_struct (pages_struct m2 (p0 + i)) \<noteq> None
      \<and> bm_test (bits_map m2) (p0 + i) \<and> s + of_nat i * PAGE_2M_SIZE = Phy_To_Virt (phy_address (pages_struct m2 (p0 + i)))"
    using reserve_loops [OF P st1(2) len, unfolded boot_caches_eq [OF st1(1)]] by blast
  let ?st = "st1\<lparr>sl_frames := m2, kmalloc_cache_size := boot_caches stale e p0 s\<rparr>"
  have "slab_init stale bound m = (if end_of_struct m + 20128 > bound then None else Some ?st)"
    unfolding slab_init_def Let_def boot_heap_def [symmetric] st1_def [symmetric] st1(2)
    using R(1,2,4) by (simp add: m'_def s_def)
  moreover note boot_heap_wf [of lowest m2 ?st stale e p0 s, OF R(3) _ _ stale [rule_format] R(5)]
  ultimately show ?thesis using that [of ?st] st1(3) by simp
qed


text \<open>
  C21. The descriptors take 16 bytes more than \<open>slab_layout_compute\<close> announces, so the boot
  assertion against the announced bound would halt the machine on every boot.
\<close>

theorem slab_meta_shortfall:
  assumes room: "room_for_heap lowest m" and stale: "\<forall>i\<ge>8. snd (stale i) < PAGE_OFFSET"
  shows "slab_init stale (end_of_struct m + meta_bytes slab_layout_compute) m = None"
proof -
  let ?b = "end_of_struct m + meta_bytes slab_layout_compute"
  have meta: "meta_bytes slab_layout_compute = 20112"
    by (simp add: slab_layout_compute_def cache_sizes_def small_sizes_def large_sizes_def PAGE_2M_SIZE_def sizeof_Slab_def)
  obtain st where st: "slab_init stale ?b m = (if end_of_struct m + 20128 > ?b then None else Some st)"
    by (rule slab_init_result [OF room stale, where bound = ?b])
  have "unat (end_of_struct m) + 20128 < 2 ^ 64" by (rule room_positions [OF room])
  then have "end_of_struct m + 20128 > ?b" unfolding word_less_nat_alt meta by (simp add: unat_add_small)
  with st show ?thesis by simp
qed

section \<open>A concrete boot\<close>

definition demo_boot :: pmm where
  "demo_boot = demo_heap_pmm\<lparr>end_of_struct := 0xffff800000280000\<rparr>"

lemma demo_boot_room: "room_for_heap 0x200000 demo_boot"
proof -
  have "heap_frames 0x200000 demo_heap_pmm" using slabs_wfD(1) [OF demo_heap_wf, of "[]"] by (simp add: demo_heap_def)
  then have "heap_frames 0x200000 demo_boot"
    by (rule heap_frames_step) (auto simp: demo_boot_def heap_frames_def same_geom_def \<open>heap_frames 0x200000 demo_heap_pmm\<close> [unfolded heap_frames_def])
  then show ?thesis
    by (simp add: room_for_heap_def Let_def) (simp add: demo_boot_def demo_heap_pmm_def list_all_iff)
qed


theorem slab_meta_shortfall_witness:
  "slab_init (\<lambda>_. (0, 0)) (end_of_struct demo_boot + meta_bytes slab_layout_compute) demo_boot = None"
proof -
  have "\<forall>i\<ge>8. snd ((\<lambda>_. (0 :: nat, 0 :: u64)) (i :: nat)) < PAGE_OFFSET" by (simp add: PAGE_OFFSET_def)
  from slab_meta_shortfall [OF demo_boot_room this] show ?thesis .
qed

end
