(* ===== verification/VMM.thy ===== *)
theory VMM
  imports Heap Subpage
begin

text \<open>
  The page tables of \<^verbatim>\<open>kernel/memory/vmm.c\<close> and \<^verbatim>\<open>kernel/include/arch/x86_64/pte.h\<close>: the walk
  over the four levels, mapping, unmapping and querying of 4 KiB and 2 MiB pages.

  The state holds the kernel heap, which the tables are allocated from, the 4 KiB pools, which
  the mapped pages come from, and the words of the tables by their kernel virtual address. The
  heap and the pools share one frame allocator. Translation caches are not part of the state.
\<close>

section \<open>State\<close>

record machine =
  m_heap :: slabs
  m_pools :: "subpage_pool list"
  m_mem :: "u64 \<Rightarrow> u64"
  m_junk :: "u64 \<Rightarrow> nat \<Rightarrow> u16"

definition subs :: "machine \<Rightarrow> subpages" where
  "subs m = \<lparr>pools = m_pools m, frame_mgr = sl_frames (m_heap m)\<rparr>"

definition set_subs :: "subpages \<Rightarrow> machine \<Rightarrow> machine" where
  "set_subs s m = m\<lparr>m_pools := pools s, m_heap := (m_heap m)\<lparr>sl_frames := frame_mgr s\<rparr>\<rparr>"

definition store :: "u64 \<Rightarrow> u64 \<Rightarrow> machine \<Rightarrow> machine" where
  "store a v m = m\<lparr>m_mem := (m_mem m)(a := v)\<rparr>"

definition entry :: "u64 \<Rightarrow> nat \<Rightarrow> u64" where
  "entry t i = t + 8 * of_nat i"

section \<open>Bits of table entries\<close>

definition PAGE_NO_EXEC :: u64 where "PAGE_NO_EXEC = push_bit 63 1"
definition PAGE_HUGE :: u64 where "PAGE_HUGE = push_bit 7 1"
definition PAGE_USER :: u64 where "PAGE_USER = push_bit 2 1"
definition PAGE_WRITE :: u64 where "PAGE_WRITE = push_bit 1 1"
definition PAGE_VALID :: u64 where "PAGE_VALID = push_bit 0 1"
definition PAGE_PROTNONE :: u64 where "PAGE_PROTNONE = push_bit 9 1"
definition PAGE_COW :: u64 where "PAGE_COW = push_bit 10 1"
definition PAGE_KERNEL_PGD :: u64 where "PAGE_KERNEL_PGD = PAGE_WRITE OR PAGE_VALID"
definition PAGE_KERNEL_PUD :: u64 where "PAGE_KERNEL_PUD = PAGE_WRITE OR PAGE_VALID"
definition PAGE_KERNEL_PMD :: u64 where "PAGE_KERNEL_PMD = PAGE_HUGE OR PAGE_WRITE OR PAGE_VALID"
definition PAGE_USER_PGD :: u64 where "PAGE_USER_PGD = PAGE_USER OR PAGE_WRITE OR PAGE_VALID"
definition PAGE_USER_PUD :: u64 where "PAGE_USER_PUD = PAGE_USER OR PAGE_WRITE OR PAGE_VALID"
definition PAGE_USER_PTE :: u64 where "PAGE_USER_PTE = PAGE_USER OR PAGE_WRITE OR PAGE_VALID"
definition PAGE_USER_PTE_RO :: u64 where "PAGE_USER_PTE_RO = PAGE_USER OR PAGE_VALID"
definition PAGE_4K_MASK :: u64 where "PAGE_4K_MASK = NOT (PAGE_4K_SIZE - 1)"

lemmas pte_bits = PAGE_NO_EXEC_def PAGE_HUGE_def PAGE_USER_def PAGE_WRITE_def PAGE_VALID_def PAGE_PROTNONE_def
  PAGE_COW_def PAGE_KERNEL_PGD_def PAGE_KERNEL_PUD_def PAGE_KERNEL_PMD_def PAGE_USER_PGD_def PAGE_USER_PUD_def
  PAGE_USER_PTE_def PAGE_USER_PTE_RO_def

definition pt_index :: "nat \<Rightarrow> u64 \<Rightarrow> nat" where
  "pt_index shift virt = unat (drop_bit shift virt AND 0x1ff)"

definition next_table :: "u64 \<Rightarrow> u64" where
  "next_table e = Phy_To_Virt (e AND PAGE_4K_MASK)"

section \<open>Tables\<close>

text \<open>In the kernel \<open>malloc\<close> is \<open>kmalloc\<close>.\<close>

definition calloc :: "u64 \<Rightarrow> u64 \<Rightarrow> machine \<Rightarrow> (u64 \<times> machine) option" where
  "calloc n sz m =
    (let total = n * sz in
     case kmalloc total (m_heap m) of None \<Rightarrow> None
     | Some (p, h) \<Rightarrow>
       if p = 0 then Some (0, m\<lparr>m_heap := h\<rparr>)
       else Some (p, m\<lparr>m_heap := h, m_mem := (\<lambda>a. if a - p < total then 0 else m_mem m a)\<rparr>))"

definition vmm_boot_alloc_table :: "machine \<Rightarrow> ((errno + u64) \<times> machine) option" where
  "vmm_boot_alloc_table m =
    map_option (\<lambda>(va, m1). (if va = 0 then Inl ENOMEM else Inr (Virt_To_Phy va), m1)) (calloc 1 PAGE_4K_SIZE m)"

definition get_next_level :: "u64 \<Rightarrow> nat \<Rightarrow> u64 \<Rightarrow> machine \<Rightarrow> (u64 \<times> machine) option" where
  "get_next_level t i flags m =
    (if m_mem m (entry t i) AND 1 = 0 then
       map_option (\<lambda>(va, m1).
         let m2 = store (entry t i) (Virt_To_Phy va OR flags) m1 in (next_table (m_mem m2 (entry t i)), m2))
         (calloc 1 PAGE_4K_SIZE m)
     else Some (next_table (m_mem m (entry t i)), m))"

definition vmm_get_next_level_checked ::
  "u64 \<Rightarrow> nat \<Rightarrow> u64 \<Rightarrow> machine \<Rightarrow> ((errno + u64) \<times> machine) option" where
  "vmm_get_next_level_checked t i flags m =
    (if m_mem m (entry t i) AND 1 = 0 then
       map_option (\<lambda>(r, m1).
         case r of Inl e \<Rightarrow> (Inl e, m1)
         | Inr pa \<Rightarrow> let m2 = store (entry t i) (pa OR flags) m1 in (Inr (m_mem m2 (entry t i) AND PAGE_4K_MASK), m2))
         (vmm_boot_alloc_table m)
     else Some (Inr (m_mem m (entry t i) AND PAGE_4K_MASK), m))"

section \<open>2 MiB pages\<close>

definition vmm_map_page :: "u64 \<Rightarrow> u64 \<Rightarrow> u64 \<Rightarrow> u64 \<Rightarrow> machine \<Rightarrow> machine option" where
  "vmm_map_page pgdir phys virt flags m =
    (let pgd_flags = (if flags AND PAGE_USER \<noteq> 0 then PAGE_USER_PGD else PAGE_KERNEL_PGD);
         pud_flags = (if flags AND PAGE_USER \<noteq> 0 then PAGE_USER_PUD else PAGE_KERNEL_PUD) in
     Option.bind (get_next_level pgdir (pt_index 39 virt) pgd_flags m) (\<lambda>(pud, m1).
     Option.bind (get_next_level pud (pt_index 30 virt) pud_flags m1) (\<lambda>(pmd, m2).
       Some (store (entry pmd (pt_index 21 virt)) (phys AND PAGE_2M_MASK OR flags) m2))))"

definition vmm_unmap_page :: "u64 \<Rightarrow> u64 \<Rightarrow> machine \<Rightarrow> u64 \<times> machine" where
  "vmm_unmap_page pgdir virt m =
    (let e = m_mem m (entry pgdir (pt_index 39 virt)) in
     if e AND PAGE_VALID = 0 then (0, m) else
     let pud = next_table e; e = m_mem m (entry pud (pt_index 30 virt)) in
     if e AND PAGE_VALID = 0 then (0, m) else
     let pmd = next_table e in
     (m_mem m (entry pmd (pt_index 21 virt)) AND (PAGE_2M_MASK AND NOT PAGE_NO_EXEC),
      store (entry pmd (pt_index 21 virt)) 0 m))"

text \<open>One step of the boot loop over the frames of the mapped zones, and the loop itself.\<close>

definition direct_map_frame :: "u64 \<Rightarrow> u64 \<Rightarrow> machine \<Rightarrow> ((errno + unit) \<times> machine) option" where
  "direct_map_frame kernel_map pa m =
    (let va = Phy_To_Virt pa in
     Option.bind (vmm_get_next_level_checked kernel_map (pt_index 39 va) PAGE_KERNEL_PGD m) (\<lambda>(r, m1).
     case r of Inl e \<Rightarrow> Some (Inl e, m1)
     | Inr p1 \<Rightarrow>
       Option.bind (vmm_get_next_level_checked (Phy_To_Virt p1) (pt_index 30 va) PAGE_KERNEL_PUD m1) (\<lambda>(r, m2).
       case r of Inl e \<Rightarrow> Some (Inl e, m2)
       | Inr p2 \<Rightarrow>
         Some (Inr (), store (entry (Phy_To_Virt p2) (pt_index 21 va)) (pa AND PAGE_2M_MASK OR PAGE_KERNEL_PMD) m2))))"

fun direct_map_frames :: "u64 \<Rightarrow> u64 list \<Rightarrow> machine \<Rightarrow> ((errno + unit) \<times> machine) option" where
  "direct_map_frames kernel_map [] m = Some (Inr (), m)"
| "direct_map_frames kernel_map (pa # pas) m =
    Option.bind (direct_map_frame kernel_map pa m) (\<lambda>(r, m1).
      case r of Inl e \<Rightarrow> Some (Inl e, m1) | Inr _ \<Rightarrow> direct_map_frames kernel_map pas m1)"

text \<open>
  The zones before the unmapped one, in order, and their frames; an index of 0 means that no zone
  is unmapped. Neither the zones nor the addresses of the frames change during the loop.
\<close>

definition mapped_zones :: "pmm \<Rightarrow> nat list" where
  "mapped_zones s = takeWhile (\<lambda>i. \<not> (ZONE_UNMAPPED_INDEX s \<noteq> 0 \<and> i = unat (ZONE_UNMAPPED_INDEX s))) [0..<unat (zones_size s)]"

definition mapped_frames :: "pmm \<Rightarrow> u64 list" where
  "mapped_frames s = concat (map (\<lambda>i. let z = zones_struct s i in
     map (\<lambda>j. phy_address (pages_struct s (pages_group z + j))) [0..<unat (z_pages_length z)]) (mapped_zones s))"

definition vmm_init :: "machine \<Rightarrow> ((errno + unit) \<times> machine) option" where
  "vmm_init m = direct_map_frames (Phy_To_Virt 0x101000) (mapped_frames (sl_frames (m_heap m))) m"

definition vmm_alloc_map :: "machine \<Rightarrow> (u64 \<times> machine) option" where
  "vmm_alloc_map = calloc 1 PAGE_4K_SIZE"

section \<open>4 KiB pages\<close>

text \<open>
  One level of the walk: the table that entry \<open>i\<close> of \<open>t\<close> points to, allocated when absent and
  asked for. The inner \<^term>\<open>None\<close> is NULL.
\<close>

definition walk_step :: "u64 \<Rightarrow> nat \<Rightarrow> u64 \<Rightarrow> bool \<Rightarrow> machine \<Rightarrow> (u64 option \<times> machine) option" where
  "walk_step t i flags allocate m =
    (if m_mem m (entry t i) AND PAGE_VALID = 0 then
       if \<not> allocate then Some (None, m)
       else map_option (\<lambda>(va, m1).
         if va = 0 then (None, m1)
         else let m2 = store (entry t i) (Virt_To_Phy va OR flags) m1 in (Some (next_table (m_mem m2 (entry t i))), m2))
         (calloc 1 PAGE_4K_SIZE m)
     else Some (Some (next_table (m_mem m (entry t i))), m))"

definition and_then ::
  "(u64 option \<times> machine) option \<Rightarrow> (u64 \<Rightarrow> machine \<Rightarrow> (u64 option \<times> machine) option) \<Rightarrow> (u64 option \<times> machine) option" where
  "and_then r f = Option.bind r (\<lambda>(p, m). case p of None \<Rightarrow> Some (None, m) | Some t \<Rightarrow> f t m)"

definition vmm_pt_walk :: "u64 \<Rightarrow> u64 \<Rightarrow> u64 \<Rightarrow> bool \<Rightarrow> machine \<Rightarrow> (u64 option \<times> machine) option" where
  "vmm_pt_walk pgdir virt flags allocate m =
    (if 256 \<le> pt_index 39 virt then Some (None, m) else
     let pgd_flags = (if flags AND PAGE_USER \<noteq> 0 then PAGE_USER_PGD else PAGE_KERNEL_PGD);
         pud_flags = (if flags AND PAGE_USER \<noteq> 0 then PAGE_USER_PUD else PAGE_KERNEL_PUD) in
     and_then (walk_step pgdir (pt_index 39 virt) pgd_flags allocate m) (\<lambda>pud m1.
     and_then (walk_step pud (pt_index 30 virt) pud_flags allocate m1) (\<lambda>pmd m2.
       if m_mem m2 (entry pmd (pt_index 21 virt)) AND PAGE_HUGE \<noteq> 0 then Some (None, m2)
       else and_then (walk_step pmd (pt_index 21 virt) pud_flags allocate m2) (\<lambda>pt m3.
         Some (Some (entry pt (pt_index 12 virt)), m3)))))"

definition x86_vmm_map_4k_page :: "u64 \<Rightarrow> u64 \<Rightarrow> u64 \<Rightarrow> u64 \<Rightarrow> machine \<Rightarrow> ((errno + unit) \<times> machine) option" where
  "x86_vmm_map_4k_page pgdir phys virt flags m =
    map_option (\<lambda>(pte, m1). case pte of None \<Rightarrow> (Inl ENOMEM, m1)
      | Some p \<Rightarrow> (Inr (), store p ((phys AND PAGE_4K_MASK) OR (flags AND NOT PAGE_4K_MASK)) m1))
      (vmm_pt_walk pgdir virt flags True m)"

definition vmm_map_4k_page :: "u64 \<Rightarrow> u64 \<Rightarrow> u64 \<Rightarrow> u64 \<Rightarrow> machine \<Rightarrow> ((errno + unit) \<times> machine) option" where
  "vmm_map_4k_page = x86_vmm_map_4k_page"

text \<open>Giving back the page of an entry: a copy-on-write page only with its last reference.\<close>

definition put_page :: "u64 \<Rightarrow> machine \<Rightarrow> machine" where
  "put_page pte m =
    (let phys = pte AND PAGE_4K_MASK in
     if pte AND PAGE_COW \<noteq> 0 then
       (case page_cow_put phys (subs m) of (last_ref, s) \<Rightarrow>
          set_subs (if last_ref then free_4k_page phys s else s) m)
     else set_subs (free_4k_page phys (subs m)) m)"

definition x86_vmm_unmap_4k_page_with_free :: "u64 \<Rightarrow> u64 \<Rightarrow> machine \<Rightarrow> ((errno + unit) \<times> machine) option" where
  "x86_vmm_unmap_4k_page_with_free pgdir virt m =
    map_option (\<lambda>(pte, m1). case pte of None \<Rightarrow> (Inl ENOENT, m1)
      | Some p \<Rightarrow> if m_mem m1 p AND (PAGE_VALID OR PAGE_PROTNONE) = 0 then (Inl ENOENT, m1)
          else (Inr (), store p 0 (put_page (m_mem m1 p) m1)))
      (vmm_pt_walk pgdir virt 0 False m)"

definition vmm_unmap_4k_page :: "u64 \<Rightarrow> u64 \<Rightarrow> machine \<Rightarrow> machine option" where
  "vmm_unmap_4k_page pgdir virt m = map_option snd (x86_vmm_unmap_4k_page_with_free pgdir virt m)"

definition x86_vmm_query_4k_page :: "u64 \<Rightarrow> u64 \<Rightarrow> machine \<Rightarrow> (errno + u64 \<times> u64) option" where
  "x86_vmm_query_4k_page pgdir virt m =
    map_option (\<lambda>(pte, m1). case pte of None \<Rightarrow> Inl ENOENT
      | Some p \<Rightarrow> if m_mem m1 p AND (PAGE_VALID OR PAGE_PROTNONE) = 0 then Inl ENOENT
          else Inr (m_mem m1 p AND PAGE_4K_MASK, m_mem m1 p AND NOT PAGE_4K_MASK))
      (vmm_pt_walk pgdir virt 0 False m)"

definition VM_PRESENT :: u32 where "VM_PRESENT = push_bit 0 1"
definition VM_WRITE :: u32 where "VM_WRITE = push_bit 1 1"
definition VM_USER :: u32 where "VM_USER = push_bit 2 1"

definition arch_vmm_query_4k :: "u64 \<Rightarrow> u64 \<Rightarrow> machine \<Rightarrow> (errno + u64 \<times> u32) option" where
  "arch_vmm_query_4k pgdir virt m =
    map_option (map_sum id (\<lambda>(phys, flags).
      (phys, (if flags AND PAGE_VALID \<noteq> 0 then VM_PRESENT else 0) OR (if flags AND PAGE_WRITE \<noteq> 0 then VM_WRITE else 0)
        OR (if flags AND PAGE_USER \<noteq> 0 then VM_USER else 0))))
      (x86_vmm_query_4k_page pgdir virt m)"

section \<open>Releasing an address space\<close>

definition free_object :: "u64 \<Rightarrow> machine \<Rightarrow> machine option" where
  "free_object a m = map_option (\<lambda>(_, h). m\<lparr>m_heap := h\<rparr>) (kfree a (m_heap m))"

definition free_leaf_table :: "u64 \<Rightarrow> machine \<Rightarrow> machine option" where
  "free_leaf_table pt m =
    free_object pt (fold (\<lambda>i m. let pte = m_mem m (entry pt i) in
      if pte AND (PAGE_VALID OR PAGE_PROTNONE) = 0 then m else put_page pte m) [0..<512] m)"

definition free_huge_page :: "u64 \<Rightarrow> machine \<Rightarrow> machine option" where
  "free_huge_page e m =
    (let f = sl_frames (m_heap m); pg = Phy_to_2M_Page f (e AND (PAGE_2M_MASK AND NOT PAGE_NO_EXEC)) in
     map_option (\<lambda>f'. m\<lparr>m_heap := (m_heap m)\<lparr>sl_frames := f'\<rparr>\<rparr>)
       (Option.bind (page_clean pg f) (free_pages (Some pg) 1)))"

fun each_entry :: "nat list \<Rightarrow> u64 \<Rightarrow> (u64 \<Rightarrow> machine \<Rightarrow> machine option) \<Rightarrow> machine \<Rightarrow> machine option" where
  "each_entry [] t f m = Some m"
| "each_entry (i # is) t f m =
    (let e = m_mem m (entry t i) in
     Option.bind (if e AND PAGE_VALID = 0 then Some m else f e m) (each_entry is t f))"

definition free_pmd_table :: "u64 \<Rightarrow> machine \<Rightarrow> machine option" where
  "free_pmd_table pmd m = Option.bind
    (each_entry [0..<512] pmd (\<lambda>e. if e AND PAGE_HUGE \<noteq> 0 then free_huge_page e else free_leaf_table (next_table e)) m)
    (free_object pmd)"

definition free_pud_table :: "u64 \<Rightarrow> machine \<Rightarrow> machine option" where
  "free_pud_table pud m = Option.bind (each_entry [0..<512] pud (\<lambda>e. free_pmd_table (next_table e)) m) (free_object pud)"

definition vmm_free_user_map :: "u64 \<Rightarrow> machine \<Rightarrow> machine option" where
  "vmm_free_user_map pgdir m =
    (if pgdir = 0 then Some m
     else Option.bind (each_entry [0..<256] pgdir (\<lambda>e. free_pud_table (next_table e)) m) (free_object pgdir))"

section \<open>Addresses of table entries\<close>

lemma unat_4K [simp]: "unat PAGE_4K_SIZE = 4096"
  by (simp add: PAGE_4K_SIZE_def)

lemma aligned_room:
  assumes "4096 dvd unat (a :: u64)"
  shows "unat a + 4096 \<le> 2 ^ 64"
  by (rule aligned_step) (use assms unat_less_2p64 [of a] in simp_all)

lemma unat_entry:
  assumes "4096 dvd unat a" "i < 512"
  shows "unat (entry a i) = unat a + 8 * i"
proof -
  have i: "unat (8 * of_nat i :: u64) = 8 * i"
    using assms(2) by (simp add: unat_word_ariths unsigned_of_nat take_bit_nat_eq_self)
  then have "unat a + unat (8 * of_nat i :: u64) < 2 ^ LENGTH(64)" using aligned_room [OF assms(1)] assms(2) by simp
  then show ?thesis unfolding entry_def using i by (simp add: unat_add_small)
qed

lemma entry_inj:
  assumes "4096 dvd unat a" "4096 dvd unat b" "i < 512" "j < 512" "entry a i = entry b j"
  shows "a = b \<and> i = j"
proof -
  from assms have e: "unat a + 8 * i = unat b + 8 * j" by (metis unat_entry)
  from assms obtain x y where xy: "unat a = 4096 * x" "unat b = 4096 * y" by (auto elim!: dvdE)
  with e assms(3,4) have "x = y" by linarith
  with e xy have "unat a = unat b" "i = j" by simp_all
  then show ?thesis by (simp add: word_unat_eq_iff)
qed

text \<open>No entry of one table lies in the block of another.\<close>

lemma entry_outside:
  assumes "4096 dvd unat a" "4096 dvd unat b" "a \<noteq> b" "i < 512"
  shows "\<not> entry b i - a < 4096"
proof
  assume "entry b i - a < 4096"
  then have small: "unat (entry b i - a) < 4096" by (simp add: word_less_nat_alt)
  note e = unat_entry [OF assms(2,4)]
  from assms obtain x y where xy: "unat a = 4096 * x" "unat b = 4096 * y" by (auto elim!: dvdE)
  show False
  proof (cases "a \<le> entry b i")
    case True
    then have "unat a \<le> unat b + 8 * i" "unat b + 8 * i < unat a + 4096"
      using small e by (simp_all add: unat_sub_small word_le_nat_alt)
    then have "x = y" using xy assms(4) by linarith
    with xy assms(3) show False by (simp add: word_unat_eq_iff)
  next
    case False
    then have "unat (entry b i - a) = 2 ^ 64 + unat (entry b i) - unat a"
      by (simp add: unat_sub_if_size word_le_nat_alt word_size)
    with small aligned_room [OF assms(1)] show False by linarith
  qed
qed

lemma entry_inside: "i < 512 \<Longrightarrow> entry a i - a < 4096"
proof -
  assume "i < 512"
  then have "unat (8 * of_nat i :: u64) < 4096"
    by (simp add: unat_word_ariths unsigned_of_nat take_bit_nat_eq_self)
  then show ?thesis by (simp add: entry_def word_less_nat_alt)
qed

lemma mask_4K: "PAGE_4K_MASK = NOT (mask 12)"
  by (simp add: PAGE_4K_MASK_def PAGE_4K_SIZE_def mask_eq_exp_minus_1)

lemma aligned_push:
  assumes "4096 dvd unat (a :: u64)"
  shows "a = push_bit 12 (drop_bit 12 a)"
proof -
  have "take_bit 12 a = 0" using assms by (simp add: word_unat_eq_iff unat_take_bit_mod dvd_eq_mod_eq_0)
  then show ?thesis using bits_ident [of 12 a] by simp
qed

lemma next_table_link:
  assumes "4096 dvd unat a" "f AND PAGE_4K_MASK = 0"
  shows "next_table (Virt_To_Phy a OR f) = a"
proof -
  have "Virt_To_Phy a = push_bit 12 (drop_bit 12 a - 0xffff800000000)"
    using aligned_push [OF assms(1)] by (simp add: Virt_To_Phy_def PAGE_OFFSET_def push_bit_eq_mult algebra_simps)
  then have "Virt_To_Phy a AND PAGE_4K_MASK = Virt_To_Phy a"
    by (simp add: mask_4K and_not_mask_eq take_bit_push_bit)
  then have "(Virt_To_Phy a OR f) AND PAGE_4K_MASK = Virt_To_Phy a" using assms(2) by (simp add: bit.conj_disj_distrib2)
  then show ?thesis by (simp add: next_table_def Phy_To_Virt_def Virt_To_Phy_def)
qed

section \<open>The tree of tables\<close>

text \<open>Whether an entry of a table at depth \<open>n\<close> leads to a table, and the table at the end of a path.\<close>

definition points :: "nat \<Rightarrow> u64 \<Rightarrow> bool" where
  "points n e = (e AND PAGE_VALID \<noteq> 0 \<and> \<not> (n = 2 \<and> e AND PAGE_HUGE \<noteq> 0))"

fun table_at :: "(u64 \<Rightarrow> u64) \<Rightarrow> nat \<Rightarrow> u64 \<Rightarrow> nat list \<Rightarrow> u64 option" where
  "table_at mem n t [] = Some t"
| "table_at mem n t (i # is) =
    (if points n (mem (entry t i)) then table_at mem (Suc n) (next_table (mem (entry t i))) is else None)"

lemma table_at_append:
  "table_at mem n t (p @ q) = Option.bind (table_at mem n t p) (\<lambda>t'. table_at mem (n + length p) t' q)"
  by (induction p arbitrary: n t) simp_all

definition path_ok :: "nat list \<Rightarrow> bool" where
  "path_ok p = (length p \<le> 3 \<and> (\<forall>i\<in>set p. i < 512) \<and> (p \<noteq> [] \<longrightarrow> hd p < 256))"

lemma path_ok_append: "path_ok (p @ q) \<Longrightarrow> path_ok p"
  by (cases p) (auto simp: path_ok_def)

lemma path_ok_snoc: "path_ok (p @ [i]) \<Longrightarrow> i < 512"
  by (simp add: path_ok_def)

text \<open>Every table reached is a 4 KiB block that the heap has handed out, on one path only.\<close>

definition tables_ok :: "(u64 \<Rightarrow> bool) \<Rightarrow> (u64 \<Rightarrow> u64) \<Rightarrow> u64 \<Rightarrow> bool" where
  "tables_ok held mem root \<longleftrightarrow>
    (\<forall>p a. path_ok p \<longrightarrow> table_at mem 0 root p = Some a \<longrightarrow> held a \<and> 4096 dvd unat a)
    \<and> (\<forall>p q a. path_ok p \<longrightarrow> path_ok q \<longrightarrow> table_at mem 0 root p = Some a \<longrightarrow> table_at mem 0 root q = Some a \<longrightarrow> p = q)"

lemma tables_okD:
  assumes "tables_ok held mem root" "path_ok p" "table_at mem 0 root p = Some a"
  shows "held a" "4096 dvd unat a" "path_ok q \<Longrightarrow> table_at mem 0 root q = Some a \<Longrightarrow> p = q"
  using assms unfolding tables_ok_def by blast+

text \<open>The entry of a 4 KiB page: the table on a path of length 3 and an index into it.\<close>

definition pte_at :: "(u64 \<Rightarrow> u64) \<Rightarrow> u64 \<Rightarrow> nat list \<Rightarrow> nat \<Rightarrow> u64" where
  "pte_at mem root p k = (case table_at mem 0 root p of None \<Rightarrow> 0 | Some t \<Rightarrow> mem (entry t k))"

lemma other_entry:
  assumes ok: "tables_ok held mem root" and p: "path_ok p" "table_at mem 0 root p = Some t" "i < 512"
    and q: "path_ok q" "table_at mem 0 root q = Some b" "j < 512" and ne: "(q, j) \<noteq> (p, i)"
  shows "entry b j \<noteq> entry t i"
proof
  assume "entry b j = entry t i"
  from entry_inj [OF _ _ _ _ this] tables_okD(2) [OF ok] p q have "b = t" "j = i" by auto
  with tables_okD(3) [OF ok q(1,2) p(1)] p(2) ne show False by simp
qed

text \<open>Changing one entry only affects the tables below it.\<close>

lemma table_at_frame:
  assumes agree: "\<And>q b j. path_ok q \<Longrightarrow> table_at mem 0 root q = Some b \<Longrightarrow> j < 512 \<Longrightarrow> (q, j) \<noteq> (p, i) \<Longrightarrow>
      mem' (entry b j) = mem (entry b j)"
  shows "path_ok q \<Longrightarrow> \<nexists>r. q = p @ [i] @ r \<Longrightarrow> table_at mem' 0 root q = table_at mem 0 root q"
proof (induction q rule: rev_induct)
  case (snoc j q)
  have "\<nexists>r. q = p @ [i] @ r" using snoc.prems(2) by auto
  then have IH: "table_at mem' 0 root q = table_at mem 0 root q" by (rule snoc.IH [OF path_ok_append [OF snoc.prems(1)]])
  have ne: "(q, j) \<noteq> (p, i)" using snoc.prems(2) by auto
  show ?case
  proof (cases "table_at mem 0 root q")
    case (Some b)
    with agree [OF path_ok_append [OF snoc.prems(1)] Some path_ok_snoc [OF snoc.prems(1)] ne] IH
    show ?thesis by (simp add: table_at_append)
  qed (simp add: table_at_append IH)
qed simp

section \<open>The heap as the source of tables\<close>

text \<open>
  What the page tables rely on: an allocation returns 0 or a page-aligned block that was not
  handed out, and blocks stay handed out.
\<close>

locale table_source =
  fixes good :: "'h \<Rightarrow> bool" and held :: "'h \<Rightarrow> u64 \<Rightarrow> bool" and get :: "'h \<Rightarrow> (u64 \<times> 'h) option"
  assumes get_good: "good h \<Longrightarrow> get h = Some (a, h') \<Longrightarrow> good h'"
    and get_keeps: "good h \<Longrightarrow> get h = Some (a, h') \<Longrightarrow> held h x \<Longrightarrow> held h' x"
    and get_fresh: "good h \<Longrightarrow> get h = Some (a, h') \<Longrightarrow> a \<noteq> 0 \<Longrightarrow> held h' a \<and> \<not> held h a \<and> 4096 dvd unat a"
begin

lemma tables_kept: "good h \<Longrightarrow> get h = Some (a, h') \<Longrightarrow> tables_ok (held h) mem root \<Longrightarrow> tables_ok (held h') mem root"
  unfolding tables_ok_def using get_keeps by blast

text \<open>Linking a fresh zeroed block into entry \<open>i\<close> of the table on path \<open>p\<close>, where nothing was.\<close>

lemma link_tables:
  assumes good: "good h" and get: "get h = Some (a, h')" "a \<noteq> 0" and ok: "tables_ok (held h) mem root"
    and p: "path_ok (p @ [i])" "table_at mem 0 root p = Some t" and absent: "\<not> points (length p) (mem (entry t i))"
    and e: "points (length p) e" "next_table e = a"
  defines "mem' \<equiv> (\<lambda>x. if x - a < 4096 then 0 else mem x)(entry t i := e)"
  shows "path_ok q \<Longrightarrow> table_at mem' 0 root q =
      (if q = p @ [i] then Some a else if \<exists>r. q = p @ [i] @ r then None else table_at mem 0 root q)" (is "_ \<Longrightarrow> ?T q")
    and "path_ok q \<Longrightarrow> k < 512 \<Longrightarrow> length q = 3 \<Longrightarrow> pte_at mem' root q k = pte_at mem root q k"
    and "tables_ok (held h') mem' root"
proof -
  note fr = get_fresh [OF good get] and pp = path_ok_append [OF p(1)] and i = path_ok_snoc [OF p(1)]
  have new: "a \<noteq> b" "4096 dvd unat b" if "path_ok q" "table_at mem 0 root q = Some b" for q b
    using tables_okD [OF ok that] fr by auto
  have agree: "mem' (entry b j) = mem (entry b j)"
    if "path_ok q" "table_at mem 0 root q = Some b" "j < 512" "(q, j) \<noteq> (p, i)" for q b j
    using other_entry [OF ok pp p(2) i that] entry_outside [of a b j] new [OF that(1,2)] fr that(3) by (simp add: mem'_def)
  have frame: "table_at mem' 0 root q = table_at mem 0 root q" if "path_ok q" "\<nexists>r. q = p @ [i] @ r" for q
    using that by (rule table_at_frame [rotated 1]) (rule agree)
  have tp: "table_at mem' 0 root p = Some t" using frame [OF pp] p(2) by simp
  have zero: "mem' (entry a k) = 0" if "k < 512" for k
    using entry_inj [of a t k i] new [OF pp p(2)] fr i that entry_inside [OF that, of a] by (auto simp: mem'_def)
  have here: "table_at mem' 0 root (p @ [i]) = Some a" using tp e by (simp add: table_at_append mem'_def)
  have below: "table_at mem' 0 root ((p @ [i]) @ (k # r)) = None" if "path_ok ((p @ [i]) @ (k # r))" for k r
    using here zero [of k] that by (subst table_at_append) (simp add: points_def path_ok_def)
  show T: "?T q" if "path_ok q" for q
  proof (cases "\<exists>r. q = p @ [i] @ r")
    case True
    then obtain r where "q = p @ [i] @ r" by blast
    with here below that show ?thesis by (cases r) auto
  next
    case False
    with frame [OF that] show ?thesis by auto
  qed
  have old: "table_at mem 0 root (p @ [i] @ r) = None" for r
    using p(2) absent by (simp add: table_at_append)
  show "pte_at mem' root q k = pte_at mem root q k" if q: "path_ok q" "k < 512" "length q = 3" for q k
  proof (cases "\<exists>r. q = p @ [i] @ r")
    case True
    then show ?thesis using T [OF q(1)] old zero [OF q(2)] by (auto simp: pte_at_def)
  next
    case False
    have "length p \<noteq> 3" using p(1) by (simp add: path_ok_def)
    with q have "(q, k) \<noteq> (p, i)" by auto
    with False T [OF q(1)] agree [OF q(1) _ q(2)] show ?thesis by (auto simp: pte_at_def split: option.split)
  qed
  have "table_at mem 0 root q \<noteq> Some a" if "path_ok q" for q using new [OF that] by auto
  then show "tables_ok (held h') mem' root"
    unfolding tables_ok_def using T ok fr get_keeps [OF good get(1)] unfolding tables_ok_def
    by (auto split: if_splits)
qed

end

text \<open>Objects of the caches above 512 bytes; the tables are among them.\<close>

definition paged :: "slabs \<Rightarrow> u64 \<Rightarrow> bool" where
  "paged st a \<longleftrightarrow> live 16 st a \<and> \<not> live 5 st a"

lemma grows_live: "grows st st' \<Longrightarrow> live n st x \<Longrightarrow> live n st' x"
  unfolding live_def grows_def by metis

lemma grows_paged:
  assumes "slabs_wf lowest st'" "grows st st'" "paged st x"
  shows "paged st' x"
proof -
  from assms(3) obtain i k j where x: "i < 16" "in_use st i k j" "x = obj_addr st i k j" "\<not> live 5 st x"
    by (auto simp: paged_def live_def)
  then have "\<not> i < 5" by (auto simp: live_def)
  from x assms(2) have u: "in_use st' i k j" "x = obj_addr st' i k j" by (simp_all add: grows_def)
  have "\<not> live 5 st' x"
  proof
    assume "live 5 st' x"
    then obtain i' k' j' where "i' < 5" "in_use st' i' k' j'" "x = obj_addr st' i' k' j'" by (auto simp: live_def)
    with obj_addr_inj [OF assms(1) u(1), of i' k' j'] u(2) \<open>\<not> i < 5\<close> show False by simp
  qed
  with grows_live [OF assms(2), of 16 x] assms(3) show ?thesis by (simp add: paged_def)
qed

text \<open>What a call of \<open>kmalloc\<close> promises in terms of addresses.\<close>

lemma kmalloc_addresses:
  assumes wf: "slabs_wf lowest st" "\<not> kmalloc_creating st" and run: "kmalloc sz st = Some (a, st')"
  shows "slabs_wf lowest st'" "\<not> kmalloc_creating st'" "live n st x \<Longrightarrow> live n st' x" "paged st x \<Longrightarrow> paged st' x"
    "keeps_frames st st'" "a \<noteq> 0 \<Longrightarrow> \<exists>i k j. in_use st' i k j \<and> a = obj_addr st' i k j \<and> i < 16 \<and> sz \<le> cache_sizes ! i
      \<and> (\<forall>i'<i. cache_sizes ! i' < sz) \<and> \<not> live 16 st a"
proof -
  note K = kmalloc_cases [OF wf run]
  then show wf': "slabs_wf lowest st'" "\<not> kmalloc_creating st'" "keeps_frames st st'" by simp_all
  from K have g: "grows st st'" by simp
  show "live n st x \<Longrightarrow> live n st' x" by (rule grows_live [OF g])
  show "paged st x \<Longrightarrow> paged st' x" by (rule grows_paged [OF wf'(1) g])
  assume "a \<noteq> 0"
  with K obtain i k j where a: "in_use st' i k j" "\<not> in_use st i k j" "a = obj_addr st' i k j" "i < 16"
    "sz \<le> cache_sizes ! i" "\<forall>i'<i. cache_sizes ! i' < sz" by blast
  have "\<not> live 16 st a"
  proof
    assume "live 16 st a"
    then obtain i' k' j' where b: "in_use st i' k' j'" "a = obj_addr st i' k' j'" by (auto simp: live_def)
    with g have "in_use st' i' k' j'" "a = obj_addr st' i' k' j'" by (simp_all add: grows_def)
    with obj_addr_inj [OF wf'(1) a(1)] a(3) have "(i, k, j) = (i', k', j')" by simp
    with a(2) b(1) show False by simp
  qed
  with a show "\<exists>i k j. in_use st' i k j \<and> a = obj_addr st' i k j \<and> i < 16 \<and> sz \<le> cache_sizes ! i
      \<and> (\<forall>i'<i. cache_sizes ! i' < sz) \<and> \<not> live 16 st a" by blast
qed

text \<open>A request of at most 512 bytes always returns.\<close>

lemma kmalloc_small:
  assumes wf: "slabs_wf lowest st" "\<not> kmalloc_creating st" and sz: "sz \<le> 512"
  shows "\<exists>a st'. kmalloc sz st = Some (a, st') \<and> (a \<noteq> 0 \<longrightarrow> live 5 st' a \<and> \<not> live 16 st a)"
proof -
  let ?i = "cache_index sz st"
  have big: "\<not> sz > 1048576" using sz by (auto simp: not_less intro: order_trans)
  note I = cache_index_ok [OF wf(1) big]
  have five: "i < 5" if "sz \<le> cache_sizes ! i" "\<forall>i'<i. cache_sizes ! i' < sz" for i
  proof (rule ccontr)
    assume "\<not> i < 5"
    with that have "i = 4 \<or> cache_sizes ! 4 < sz" by auto
    moreover have "cache_sizes ! 4 = 512" by code_simp
    ultimately show False using sz \<open>\<not> i < 5\<close> by auto
  qed
  have "\<exists>a st'. kmalloc sz st = Some (a, st')"
  proof (cases "total_free (kmalloc_cache_size st ! ?i) = 0")
    case False
    then have "kmalloc sz st = Some (take_object ?i (pick_slab (kmalloc_cache_size st ! ?i)) st)"
      using big by (simp add: kmalloc_def kmalloc_with_def Let_def)
    then show ?thesis by (cases "take_object ?i (pick_slab (kmalloc_cache_size st ! ?i)) st") simp
  next
    case True
    have c: "c_size (kmalloc_cache_size st ! ?i) = cache_sizes ! ?i" by (rule slabs_wfD(3) [OF wf(1) I(1)])
    have "cache_sizes ! ?i \<in> set small_sizes" using cache_size_small [OF I(1)] five I by blast
    moreover obtain r m1 where m1: "alloc_pages ZONE_NORMAL 1 (sl_frames st) = Some (r, m1)"
      "\<And>pg. r = Some pg \<Longrightarrow> \<exists>m2. page_init pg PG_Kernel m1 = Some m2"
      by (rule new_frame [OF slabs_wfD(1) [OF wf(1)], of PG_Kernel]) blast
    ultimately obtain r' st1 where "kmalloc_create (cache_sizes ! ?i) st = Some (r', st1)"
      using wf(2) by (cases r) (auto simp: kmalloc_create_def Let_def)
    then have "\<exists>x. kmalloc sz st = Some x"
      using big True c by (cases r') (auto simp: kmalloc_def kmalloc_with_def Let_def)
    then show ?thesis by auto
  qed
  then obtain a st' where k: "kmalloc sz st = Some (a, st')" by blast
  from kmalloc_addresses(6) [OF wf k] five have "a \<noteq> 0 \<longrightarrow> live 5 st' a \<and> \<not> live 16 st a" unfolding live_def by blast
  with k show ?thesis by blast
qed

lemma page_class:
  assumes "4096 \<le> cache_sizes ! i" "\<forall>i'<i. cache_sizes ! i' < 4096"
  shows "i = 7"
proof (rule ccontr)
  assume "i \<noteq> 7"
  have "\<forall>i<7. cache_sizes ! i < 4096" "cache_sizes ! 7 = 4096" by code_simp+
  moreover from this have "7 < i" using assms(1) \<open>i \<noteq> 7\<close> by (metis leD linorder_neqE_nat)
  ultimately show False using assms(2) by (metis less_irrefl)
qed

lemma kmalloc_page:
  assumes wf: "slabs_wf lowest st" "\<not> kmalloc_creating st" and run: "kmalloc 4096 st = Some (a, st')" and "a \<noteq> 0"
  shows "paged st' a \<and> \<not> paged st a \<and> 4096 dvd unat a"
proof -
  note K = kmalloc_addresses [OF wf run]
  from K(6) \<open>a \<noteq> 0\<close> obtain k j where a: "in_use st' 7 k j" "a = obj_addr st' 7 k j" "\<not> live 16 st a"
    using page_class by metis
  have "\<not> live 5 st' a"
  proof
    assume "live 5 st' a"
    then obtain i' k' j' where "i' < 5" "in_use st' i' k' j'" "a = obj_addr st' i' k' j'" by (auto simp: live_def)
    with obj_addr_inj [OF K(1) a(1), of i' k' j'] a(2) show False by simp
  qed
  moreover have "live 16 st' a" unfolding live_def using a(1,2) by (intro exI [of _ "7::nat"] exI [of _ k] exI [of _ j]) simp
  moreover have "4096 dvd unat a"
  proof -
    have act: "active st' 7 k" and j: "j < unat (color_count (slab_at st' 7 k))" using a by (simp_all add: in_use_def)
    have "unat (cache_sizes ! 7) = 4096" by code_simp
    then have "unat a = unat (sl_address (slab_at st' 7 k)) + 4096 * j"
      using obj_addr_unat(1) [OF K(1) act j] a(2) by simp
    moreover have "4096 dvd unat (sl_address (slab_at st' 7 k))"
      by (rule dvd_trans [of _ "2 ^ 21"]) (use slab_address(3) [OF K(1) act] in \<open>simp_all add: dvd_eq_mod_eq_0\<close>)
    ultimately show ?thesis by simp
  qed
  ultimately show ?thesis using a(3) by (simp add: paged_def)
qed

interpretation heap_tables: table_source "\<lambda>h. slabs_wf lowest h \<and> \<not> kmalloc_creating h" paged "kmalloc 4096"
  for lowest
proof unfold_locales
  fix h a h' x
  assume h: "slabs_wf lowest h \<and> \<not> kmalloc_creating h" and run: "kmalloc 4096 h = Some (a, h')"
  note K = kmalloc_addresses [OF conjunct1 [OF h] conjunct2 [OF h] run]
  show "slabs_wf lowest h' \<and> \<not> kmalloc_creating h'" using K(1,2) by simp
  show "paged h x \<Longrightarrow> paged h' x" by (rule K(4))
  show "a \<noteq> 0 \<Longrightarrow> paged h' a \<and> \<not> paged h a \<and> 4096 dvd unat a" by (rule kmalloc_page [OF conjunct1 [OF h] conjunct2 [OF h] run])
qed

section \<open>The walk\<close>

definition vm_wf :: "u64 \<Rightarrow> u64 \<Rightarrow> machine \<Rightarrow> bool" where
  "vm_wf lowest root m \<longleftrightarrow> slabs_wf lowest (m_heap m) \<and> \<not> kmalloc_creating (m_heap m)
     \<and> tables_ok (paged (m_heap m)) (m_mem m) root"

definition pt_path :: "u64 \<Rightarrow> nat list" where
  "pt_path virt = [pt_index 39 virt, pt_index 30 virt, pt_index 21 virt]"

text \<open>The entry of the page of an address; 0 for an address of the kernel half.\<close>

definition pte_of :: "u64 \<Rightarrow> u64 \<Rightarrow> machine \<Rightarrow> u64" where
  "pte_of root virt m = (if 256 \<le> pt_index 39 virt then 0 else pte_at (m_mem m) root (pt_path virt) (pt_index 12 virt))"

definition same_page :: "u64 \<Rightarrow> u64 \<Rightarrow> bool" where
  "same_page v w \<longleftrightarrow> pt_path v = pt_path w \<and> pt_index 12 v = pt_index 12 w"

lemma pt_index_less: "pt_index s v < 512"
proof -
  have "drop_bit s v AND 0x1ff = take_bit 9 (drop_bit s v)" by (simp add: take_bit_eq_mask mask_eq_exp_minus_1)
  then show ?thesis by (simp add: pt_index_def unat_take_bit_mod)
qed

lemma pt_path_ok: "pt_index 39 v < 256 \<Longrightarrow> path_ok (pt_path v)"
  by (simp add: path_ok_def pt_path_def pt_index_less)

definition link_flags :: "u64 \<Rightarrow> bool" where
  "link_flags f \<longleftrightarrow> f \<in> {PAGE_USER OR PAGE_WRITE OR PAGE_VALID, PAGE_WRITE OR PAGE_VALID}"

lemma and_bit_zero: "x AND push_bit n (1 :: 'a::len word) = 0 \<longleftrightarrow> \<not> bit x n"
  by (simp add: push_bit_eq_mult and_exp_eq_0_iff_not_bit)

lemma link_points:
  assumes "link_flags f" "4096 dvd unat a"
  shows "points n (Virt_To_Phy a OR f)" "next_table (Virt_To_Phy a OR f) = a"
proof -
  have f: "f AND PAGE_4K_MASK = 0" "bit f 0" "\<not> bit f 7"
    using assms(1) by (auto simp: link_flags_def pte_bits PAGE_4K_MASK_def PAGE_4K_SIZE_def bit_simps)
  from next_table_link [OF assms(2) f(1)] show n: "next_table (Virt_To_Phy a OR f) = a" .
  have "Virt_To_Phy a = push_bit 12 (drop_bit 12 a - 0xffff800000000)"
    using aligned_push [OF assms(2)] by (simp add: Virt_To_Phy_def PAGE_OFFSET_def push_bit_eq_mult algebra_simps)
  then have "bit (Virt_To_Phy a OR f) 0" "\<not> bit (Virt_To_Phy a OR f) 7" using f by (simp_all add: bit_simps)
  then have "(Virt_To_Phy a OR f) AND PAGE_VALID \<noteq> 0" "(Virt_To_Phy a OR f) AND PAGE_HUGE = 0"
    unfolding PAGE_VALID_def PAGE_HUGE_def and_bit_zero by simp_all
  then show "points n (Virt_To_Phy a OR f)" by (simp add: points_def)
qed

lemma absent_points:
  "e AND PAGE_VALID = 0 \<Longrightarrow> \<not> points n e" "e AND PAGE_VALID \<noteq> 0 \<Longrightarrow> (n = 2 \<longrightarrow> e AND PAGE_HUGE = 0) \<Longrightarrow> points n e"
  by (simp_all add: points_def)

lemma walk_step_ok:
  assumes wf: "vm_wf lowest root m" and p: "path_ok (p @ [i])" "table_at (m_mem m) 0 root p = Some t"
    and f: "link_flags f" and huge: "length p = 2 \<longrightarrow> m_mem m (entry t i) AND PAGE_HUGE = 0"
    and run: "walk_step t i f b m = Some (r, m')"
  shows "vm_wf lowest root m' \<and> (\<forall>v. pte_of root v m' = pte_of root v m) \<and> m_pools m' = m_pools m
    \<and> (\<forall>t'. r = Some t' \<longrightarrow> table_at (m_mem m') 0 root (p @ [i]) = Some t')"
proof (cases "m_mem m (entry t i) AND PAGE_VALID = 0")
  case False
  with run have "r = Some (next_table (m_mem m (entry t i)))" "m' = m" by (auto simp: walk_step_def)
  moreover have "points (length p) (m_mem m (entry t i))" using absent_points(2) [OF False huge] .
  ultimately show ?thesis using wf p(2) by (simp add: table_at_append)
next
  case absent: True
  show ?thesis
  proof (cases b)
    case False
    with run absent wf show ?thesis by (simp add: walk_step_def)
  next
    case True
    let ?h = "m_heap m"
    from wf have h: "slabs_wf lowest ?h \<and> \<not> kmalloc_creating ?h" "tables_ok (paged ?h) (m_mem m) root"
      by (simp_all add: vm_wf_def)
    from run absent True obtain a h' where k: "kmalloc 4096 ?h = Some (a, h')"
      by (auto simp: walk_step_def calloc_def PAGE_4K_SIZE_def split: option.splits)
    note good = heap_tables.get_good [OF h(1) k] and kept = heap_tables.tables_kept [OF h(1) k h(2)]
    show ?thesis
    proof (cases "a = 0")
      case True
      with run absent \<open>b\<close> k have "r = None" "m' = m\<lparr>m_heap := h'\<rparr>"
        by (auto simp: walk_step_def calloc_def PAGE_4K_SIZE_def)
      with good kept show ?thesis by (simp add: vm_wf_def pte_of_def)
    next
      case False
      note fresh = heap_tables.get_fresh [OF h(1) k False]
      let ?e = "Virt_To_Phy a OR f"
      let ?mem = "(\<lambda>x. if x - a < 4096 then 0 else m_mem m x)(entry t i := ?e)"
      have e: "points (length p) ?e" "next_table ?e = a" using link_points [OF f] fresh by simp_all
      note L = heap_tables.link_tables [OF h(1) k False h(2) p absent_points(1) [OF absent] e]
      from run absent \<open>b\<close> k False have m': "r = Some a" "m' = m\<lparr>m_heap := h', m_mem := ?mem\<rparr>"
        by (auto simp: walk_step_def calloc_def PAGE_4K_SIZE_def store_def Let_def e(2))
      have "pte_of root v m' = pte_of root v m" for v
        using L(2) [OF pt_path_ok, of v "pt_index 12 v"] pt_index_less [of 12 v] by (simp add: pte_of_def m'(2) pt_path_def)
      then show ?thesis using m' good L(3) L(1) [OF p(1)] by (simp add: vm_wf_def)
    qed
  qed
qed

lemma and_then_Some:
  "and_then x f = Some (r, m') \<longleftrightarrow>
    (\<exists>p m1. x = Some (p, m1) \<and> (case p of None \<Rightarrow> r = None \<and> m' = m1 | Some t \<Rightarrow> f t m1 = Some (r, m')))"
proof (cases x)
  case (Some y)
  then show ?thesis by (cases y; cases "fst y") (auto simp: and_then_def)
qed (simp add: and_then_def)

declare table_at.simps(2) [simp del]

lemma walk_ok:
  assumes wf: "vm_wf lowest root m" and run: "vmm_pt_walk root virt f b m = Some (r, m')"
  shows "vm_wf lowest root m' \<and> (\<forall>v. pte_of root v m' = pte_of root v m) \<and> m_pools m' = m_pools m
    \<and> (\<forall>a. r = Some a \<longrightarrow> pt_index 39 virt < 256
        \<and> (\<exists>t. table_at (m_mem m') 0 root (pt_path virt) = Some t \<and> a = entry t (pt_index 12 virt)))"
proof (cases "256 \<le> pt_index 39 virt")
  case True
  with run wf show ?thesis by (simp add: vmm_pt_walk_def)
next
  case low: False
  let ?f1 = "if f AND PAGE_USER \<noteq> 0 then PAGE_USER_PGD else PAGE_KERNEL_PGD"
  let ?f2 = "if f AND PAGE_USER \<noteq> 0 then PAGE_USER_PUD else PAGE_KERNEL_PUD"
  have fl: "link_flags ?f1" "link_flags ?f2" by (simp_all add: link_flags_def pte_bits)
  have ok: "path_ok [pt_index 39 virt]" "path_ok [pt_index 39 virt, pt_index 30 virt]" "path_ok (pt_path virt)"
    using low by (simp_all add: path_ok_def pt_path_def pt_index_less)
  from run low obtain p1 m1 where s1: "walk_step root (pt_index 39 virt) ?f1 b m = Some (p1, m1)"
    by (auto simp: vmm_pt_walk_def and_then_Some Let_def)
  note W1 = walk_step_ok [OF wf _ _ fl(1) _ s1, of "[]", simplified, OF ok(1)]
  show ?thesis
  proof (cases p1)
    case None
    with run low s1 W1 show ?thesis by (simp add: vmm_pt_walk_def and_then_def Let_def)
  next
    case (Some pud)
    with run low s1 obtain p2 m2 where s2: "walk_step pud (pt_index 30 virt) ?f2 b m1 = Some (p2, m2)"
      by (auto simp: vmm_pt_walk_def and_then_Some Let_def)
    from W1 Some have t1: "vm_wf lowest root m1" "table_at (m_mem m1) 0 root [pt_index 39 virt] = Some pud" by simp_all
    note W2 = walk_step_ok [OF t1(1) _ t1(2) fl(2) _ s2, simplified, OF ok(2)]
    show ?thesis
    proof (cases "p2 = None \<or> (\<exists>pmd. p2 = Some pmd \<and> m_mem m2 (entry pmd (pt_index 21 virt)) AND PAGE_HUGE \<noteq> 0)")
      case True
      with run low s1 s2 Some W1 W2 show ?thesis by (auto simp: vmm_pt_walk_def and_then_def Let_def)
    next
      case False
      then obtain pmd where pmd: "p2 = Some pmd" "m_mem m2 (entry pmd (pt_index 21 virt)) AND PAGE_HUGE = 0" by auto
      with run low s1 s2 Some obtain p3 m3 where s3: "walk_step pmd (pt_index 21 virt) ?f2 b m2 = Some (p3, m3)"
        and r: "r = map_option (\<lambda>pt. entry pt (pt_index 12 virt)) p3" "m' = m3"
        by (auto simp: vmm_pt_walk_def and_then_Some Let_def split: option.splits)
      from W2 pmd have t2: "vm_wf lowest root m2" "table_at (m_mem m2) 0 root [pt_index 39 virt, pt_index 30 virt] = Some pmd"
        by simp_all
      note W3 = walk_step_ok [OF t2(1) _ t2(2) fl(2) _ s3, simplified, folded pt_path_def, OF ok(3)]
      from W1 W2 W3 [OF pmd(2)] low r show ?thesis by (cases p3) simp_all
    qed
  qed
qed

lemma walk_lookup:
  "vmm_pt_walk root virt f False m =
    Some (if 256 \<le> pt_index 39 virt then None
      else map_option (\<lambda>t. entry t (pt_index 12 virt)) (table_at (m_mem m) 0 root (pt_path virt)), m)"
  by (simp add: vmm_pt_walk_def walk_step_def and_then_def Let_def pt_path_def points_def table_at.simps(2))

lemma store_leaf:
  assumes wf: "vm_wf lowest root m" and low: "pt_index 39 virt < 256"
    and t: "table_at (m_mem m) 0 root (pt_path virt) = Some t"
  shows "vm_wf lowest root (store (entry t (pt_index 12 virt)) x m)"
    and "pte_of root v (store (entry t (pt_index 12 virt)) x m) = (if same_page v virt then x else pte_of root v m)"
    and "pt_index 39 v < 256 \<Longrightarrow> table_at (m_mem (store (entry t (pt_index 12 virt)) x m)) 0 root (pt_path v) = table_at (m_mem m) 0 root (pt_path v)"
proof -
  let ?mem = "(m_mem m)(entry t (pt_index 12 virt) := x)"
  from wf have ok: "tables_ok (paged (m_heap m)) (m_mem m) root" by (simp add: vm_wf_def)
  note p = pt_path_ok [OF low]
  have agree: "?mem (entry b j) = m_mem m (entry b j)"
    if "path_ok q" "table_at (m_mem m) 0 root q = Some b" "j < 512" "(q, j) \<noteq> (pt_path virt, pt_index 12 virt)" for q b j
    using other_entry [OF ok p t pt_index_less that] by simp
  have T: "table_at ?mem 0 root q = table_at (m_mem m) 0 root q" if q: "path_ok q" for q
  proof -
    have "\<nexists>r. q = pt_path virt @ [pt_index 12 virt] @ r" using q by (auto simp: path_ok_def pt_path_def)
    with q show ?thesis by (rule table_at_frame [rotated 1]) (rule agree)
  qed
  then show "pt_index 39 v < 256 \<Longrightarrow> table_at (m_mem (store (entry t (pt_index 12 virt)) x m)) 0 root (pt_path v) = table_at (m_mem m) 0 root (pt_path v)"
    using pt_path_ok by (simp add: store_def)
  have "tables_ok (paged (m_heap m)) ?mem root" using ok T unfolding tables_ok_def by (simp cong: conj_cong)
  then show "vm_wf lowest root (store (entry t (pt_index 12 virt)) x m)" using wf by (simp add: vm_wf_def store_def)
  show "pte_of root v (store (entry t (pt_index 12 virt)) x m) = (if same_page v virt then x else pte_of root v m)"
  proof (cases "pt_index 39 v < 256")
    case True
    note q = pt_path_ok [OF True]
    then show ?thesis using T [OF q] t agree [OF q _ pt_index_less, of _ 12 v] True
      by (auto simp: pte_of_def pte_at_def store_def same_page_def split: option.split)
  next
    case False
    then have "\<not> same_page v virt" using low by (auto simp: same_page_def pt_path_def)
    with False show ?thesis by (simp add: pte_of_def)
  qed
qed

lemma query_eq:
  "x86_vmm_query_4k_page root v m = Some (if pte_of root v m AND (PAGE_VALID OR PAGE_PROTNONE) = 0 then Inl ENOENT
     else Inr (pte_of root v m AND PAGE_4K_MASK, pte_of root v m AND NOT PAGE_4K_MASK))"
  by (auto simp: x86_vmm_query_4k_page_def walk_lookup pte_of_def pte_at_def split: option.split)

lemma map_4k_cases:
  assumes wf: "vm_wf lowest root m" and run: "x86_vmm_map_4k_page root phys virt flags m = Some (r, m')"
  shows "vm_wf lowest root m' \<and> m_pools m' = m_pools m \<and>
    (\<forall>v. pte_of root v m' = (if r = Inr () \<and> same_page v virt then (phys AND PAGE_4K_MASK) OR (flags AND NOT PAGE_4K_MASK)
       else pte_of root v m)) \<and> (r = Inr () \<or> r = Inl ENOMEM)"
proof -
  from run obtain a m1 where w: "vmm_pt_walk root virt flags True m = Some (a, m1)"
    by (auto simp: x86_vmm_map_4k_page_def)
  note W = walk_ok [OF wf w]
  show ?thesis
  proof (cases a)
    case None
    with run w W show ?thesis by (auto simp: x86_vmm_map_4k_page_def)
  next
    case (Some p)
    with W obtain t where t: "pt_index 39 virt < 256" "table_at (m_mem m1) 0 root (pt_path virt) = Some t"
      "p = entry t (pt_index 12 virt)" "vm_wf lowest root m1" by auto
    have r: "r = Inr ()" "m' = store p ((phys AND PAGE_4K_MASK) OR (flags AND NOT PAGE_4K_MASK)) m1"
      using run w Some by (simp_all add: x86_vmm_map_4k_page_def)
    from store_leaf [OF t(4,1,2)] W show ?thesis by (simp add: r t(3) store_def)
  qed
qed

lemma mask_parts:
  fixes a f :: u64
  shows "((a AND PAGE_4K_MASK) OR (f AND NOT PAGE_4K_MASK)) AND PAGE_4K_MASK = a AND PAGE_4K_MASK"
    "((a AND PAGE_4K_MASK) OR (f AND NOT PAGE_4K_MASK)) AND NOT PAGE_4K_MASK = f AND NOT PAGE_4K_MASK"
    "((a AND PAGE_4K_MASK) OR (f AND NOT PAGE_4K_MASK)) AND (PAGE_VALID OR PAGE_PROTNONE) = f AND (PAGE_VALID OR PAGE_PROTNONE)"
proof -
  have "\<not> bit (PAGE_VALID OR PAGE_PROTNONE) n" if "12 \<le> n" for n
    using that unfolding PAGE_VALID_def PAGE_PROTNONE_def by (simp only: bit_or_iff bit_push_bit_iff bit_1_iff) auto
  then show "((a AND PAGE_4K_MASK) OR (f AND NOT PAGE_4K_MASK)) AND (PAGE_VALID OR PAGE_PROTNONE) = f AND (PAGE_VALID OR PAGE_PROTNONE)"
    by (intro bit_word_eqI) (auto simp: mask_4K bit_and_iff bit_or_iff bit_not_iff bit_mask_iff)
qed (rule bit_word_eqI; auto simp: mask_4K bit_simps)+

text \<open>
  C23. Mapping a 4 KiB page and querying it gives the page back: after a successful
  \<open>vmm_map_4k_page\<close> the query of the page answers the physical page and the flags that were
  given, and no other page of the address space changes. When a table cannot be allocated the
  answer is \<open>-ENOMEM\<close> and no query changes. In both cases the tables stay disjoint blocks of
  a well-formed heap and no page is freed.
\<close>

theorem map_4k_query:
  assumes "vm_wf lowest root m" "vmm_map_4k_page root phys virt flags m = Some (r, m')"
  shows "vm_wf lowest root m' \<and> m_pools m' = m_pools m \<and> (r = Inr () \<or> r = Inl ENOMEM) \<and>
    (\<forall>v. x86_vmm_query_4k_page root v m' =
      (if r = Inr () \<and> same_page v virt
       then Some (if flags AND (PAGE_VALID OR PAGE_PROTNONE) = 0 then Inl ENOENT
                  else Inr (phys AND PAGE_4K_MASK, flags AND NOT PAGE_4K_MASK))
       else x86_vmm_query_4k_page root v m))"
  using map_4k_cases [OF assms [unfolded vmm_map_4k_page_def]] by (auto simp: query_eq mask_parts)

section \<open>Unmapping\<close>

lemma subs_set [simp]: "subs (set_subs s m) = s"
  by (simp add: subs_def set_subs_def)

lemma put_page_keeps [simp]: "m_heap (put_page e m) = m_heap m" "m_mem (put_page e m) = m_mem m"
proof -
  have "frame_mgr (free_4k_page p s) = frame_mgr s" "frame_mgr (snd (page_cow_put p s)) = frame_mgr s" for p s
    by (auto simp: free_4k_page_def page_cow_put_def split: option.split)
  then show "m_heap (put_page e m) = m_heap m" "m_mem (put_page e m) = m_mem m"
    by (simp_all add: put_page_def set_subs_def subs_def Let_def split_beta)
qed

lemma put_page_frees:
  assumes wf: "sp_wf lowest (subs m)" and used: "page_used (m_pools m) (e AND PAGE_4K_MASK)"
  shows "sp_wf lowest (subs (put_page e m))"
    "page_used (m_pools (put_page e m)) q \<longleftrightarrow> page_used (m_pools m) q
       \<and> (q \<noteq> e AND PAGE_4K_MASK \<or> e AND PAGE_COW \<noteq> 0 \<and> page_cow_refs (e AND PAGE_4K_MASK) (subs m) \<noteq> 1)"
proof -
  let ?p = "e AND PAGE_4K_MASK" and ?s = "subs m"
  have u: "page_used (pools ?s) ?p" using used by (simp add: subs_def)
  have m: "m_pools x = pools (subs x)" for x by (simp add: subs_def)
  obtain s' where s': "page_cow_put ?p ?s = (page_cow_refs ?p ?s = 1, s')" "sp_wf lowest s'"
    "\<And>q. page_used (pools s') q \<longleftrightarrow> page_used (pools ?s) q"
    by (rule cow_put_used [OF wf u]) blast
  have u': "page_used (pools s') ?p" using s'(3) u by simp
  note F = free_used_page [OF wf u] and F' = free_used_page [OF s'(2) u']
  show "sp_wf lowest (subs (put_page e m))" using F F' s' by (simp add: put_page_def Let_def)
  show "page_used (m_pools (put_page e m)) q \<longleftrightarrow> page_used (m_pools m) q
       \<and> (q \<noteq> ?p \<or> e AND PAGE_COW \<noteq> 0 \<and> page_cow_refs ?p ?s \<noteq> 1)"
    unfolding m using F F' s' u by (auto simp: put_page_def Let_def)
qed

lemma unmap_4k_cases:
  assumes wf: "vm_wf lowest root m"
  obtains m' where "x86_vmm_unmap_4k_page_with_free root virt m =
      Some (if pte_of root virt m AND (PAGE_VALID OR PAGE_PROTNONE) = 0 then Inl ENOENT else Inr (), m')"
    "vm_wf lowest root m'" "m_heap m' = m_heap m"
    "\<And>v. pte_of root v m' = (if same_page v virt \<and> pte_of root virt m AND (PAGE_VALID OR PAGE_PROTNONE) \<noteq> 0 then 0 else pte_of root v m)"
    "m_pools m' = (if pte_of root virt m AND (PAGE_VALID OR PAGE_PROTNONE) = 0 then m_pools m
       else m_pools (put_page (pte_of root virt m) m))"
proof (cases "pte_of root virt m AND (PAGE_VALID OR PAGE_PROTNONE) = 0")
  case True
  then have "x86_vmm_unmap_4k_page_with_free root virt m = Some (Inl ENOENT, m)"
    by (cases "256 \<le> pt_index 39 virt")
      (auto simp: x86_vmm_unmap_4k_page_with_free_def walk_lookup pte_of_def pte_at_def split: option.splits)
  with that [of m] True wf show ?thesis by simp
next
  case False
  then obtain t where t: "pt_index 39 virt < 256" "table_at (m_mem m) 0 root (pt_path virt) = Some t"
    "pte_of root virt m = m_mem m (entry t (pt_index 12 virt))"
    by (auto simp: pte_of_def pte_at_def split: if_splits option.splits)
  let ?m1 = "put_page (pte_of root virt m) m" and ?a = "entry t (pt_index 12 virt)"
  have wf1: "vm_wf lowest root ?m1" using wf by (simp add: vm_wf_def)
  have t1: "table_at (m_mem ?m1) 0 root (pt_path virt) = Some t" using t(2) by simp
  have keep: "pte_of root v ?m1 = pte_of root v m" for v by (simp add: pte_of_def)
  have "x86_vmm_unmap_4k_page_with_free root virt m = Some (Inr (), store ?a 0 ?m1)"
    using False t by (simp add: x86_vmm_unmap_4k_page_with_free_def walk_lookup)
  with that [of "store ?a 0 ?m1"] store_leaf [OF wf1 t(1) t1, where x = 0] False keep show ?thesis by (simp add: store_def)
qed

text \<open>
  C24. Unmapping a 4 KiB page always returns. It removes exactly that page from the address
  space and answers \<open>-ENOENT\<close> exactly when the page was not mapped. The page behind the entry is
  given back to its pool exactly when the entry is not copy-on-write or held the last
  reference; every other page stays allocated.
\<close>

theorem unmap_4k_exact:
  assumes wf: "vm_wf lowest root m"
  shows "\<exists>r m'. x86_vmm_unmap_4k_page_with_free root virt m = Some (r, m') \<and> vm_wf lowest root m'
    \<and> (r = Inl ENOENT \<longleftrightarrow> x86_vmm_query_4k_page root virt m = Some (Inl ENOENT)) \<and> (r = Inl ENOENT \<or> r = Inr ())
    \<and> (\<forall>v. x86_vmm_query_4k_page root v m' =
          (if same_page v virt then Some (Inl ENOENT) else x86_vmm_query_4k_page root v m))
    \<and> (\<forall>phys flags. x86_vmm_query_4k_page root virt m = Some (Inr (phys, flags)) \<and> sp_wf lowest (subs m)
          \<and> pmm_4k_page_allocated phys (subs m) \<longrightarrow> sp_wf lowest (subs m')
          \<and> (\<forall>q. pmm_4k_page_allocated q (subs m') \<longleftrightarrow> pmm_4k_page_allocated q (subs m)
               \<and> (q \<noteq> phys \<or> flags AND PAGE_COW \<noteq> 0 \<and> page_cow_refs phys (subs m) \<noteq> 1)))"
proof -
  let ?e = "pte_of root virt m" and ?P = "PAGE_VALID OR PAGE_PROTNONE"
  obtain m' where m': "x86_vmm_unmap_4k_page_with_free root virt m = Some (if ?e AND ?P = 0 then Inl ENOENT else Inr (), m')"
    "vm_wf lowest root m'" "m_heap m' = m_heap m"
    "\<And>v. pte_of root v m' = (if same_page v virt \<and> ?e AND ?P \<noteq> 0 then 0 else pte_of root v m)"
    "m_pools m' = (if ?e AND ?P = 0 then m_pools m else m_pools (put_page ?e m))"
    by (rule unmap_4k_cases [OF wf, of virt]) blast
  have same: "same_page v virt \<Longrightarrow> pte_of root v m = ?e" for v by (simp add: pte_of_def same_page_def pt_path_def)
  have "n < 12" if "bit PAGE_COW n" for n
    using that unfolding PAGE_COW_def by (simp only: bit_push_bit_iff bit_1_iff) auto
  then have cow: "(?e AND NOT PAGE_4K_MASK) AND PAGE_COW = ?e AND PAGE_COW"
    by (intro bit_word_eqI) (auto simp: mask_4K bit_and_iff bit_not_iff bit_mask_iff)
  have "sp_wf lowest (subs m') \<and> (\<forall>q. pmm_4k_page_allocated q (subs m') \<longleftrightarrow> pmm_4k_page_allocated q (subs m)
       \<and> (q \<noteq> ?e AND PAGE_4K_MASK \<or> ?e AND PAGE_COW \<noteq> 0 \<and> page_cow_refs (?e AND PAGE_4K_MASK) (subs m) \<noteq> 1))"
    if "?e AND ?P \<noteq> 0" "sp_wf lowest (subs m)" "pmm_4k_page_allocated (?e AND PAGE_4K_MASK) (subs m)"
  proof -
    have "subs m' = subs (put_page ?e m)" using m'(3,5) that(1) by (simp add: subs_def)
    moreover have "page_used (m_pools m) (?e AND PAGE_4K_MASK)" using that(3) allocated_iff [OF that(2)] by (simp add: subs_def)
    ultimately show ?thesis using put_page_frees [OF that(2), of ?e] allocated_iff [OF that(2)] allocated_iff [of lowest "subs m'"]
      by (simp add: subs_def)
  qed
  with m'(1,2) m'(4) same show ?thesis by (auto simp: query_eq cow)
qed

section \<open>A concrete address space\<close>

definition demo_vm :: machine where
  "demo_vm = \<lparr>m_heap = demo_heap [], m_pools = [], m_mem = (\<lambda>_. 0x5a), m_junk = (\<lambda>_ _. 7)\<rparr>"

text \<open>An address space without a table below its root is well-formed.\<close>

lemma fresh_root_wf:
  assumes h: "slabs_wf lowest (m_heap m)" "\<not> kmalloc_creating (m_heap m)" and run: "vmm_alloc_map m = Some (root, m')" "root \<noteq> 0"
  shows "vm_wf lowest root m'"
proof -
  from run obtain h' where k: "kmalloc 4096 (m_heap m) = Some (root, h')" and m': "m_heap m' = h'"
    "m_mem m' = (\<lambda>a. if a - root < 4096 then 0 else m_mem m a)"
    by (auto simp: vmm_alloc_map_def calloc_def PAGE_4K_SIZE_def Let_def split: option.splits if_splits)
  note K = kmalloc_addresses [OF h k] and P = kmalloc_page [OF h k run(2)]
  have zero: "m_mem m' (entry root i) = 0" if "i < 512" for i using entry_inside [OF that, of root] by (simp add: m'(2))
  have "table_at (m_mem m') 0 root p = None" if "path_ok p" "p \<noteq> []" for p
    using that zero by (cases p) (auto simp: path_ok_def table_at.simps(2) points_def)
  then have "tables_ok (paged h') (m_mem m') root"
    unfolding tables_ok_def using P by (metis option.distinct(1) option.inject table_at.simps(1))
  with K(1,2) show ?thesis by (simp add: vm_wf_def m'(1))
qed

lemma demo_space:
  obtains m m' where "vmm_alloc_map demo_vm = Some (0xffff800001000000, m)" "vm_wf 0x200000 0xffff800001000000 m"
    "vmm_map_4k_page 0xffff800001000000 0x401000 0x600000 7 m = Some (Inr (), m')"
proof -
  have "map_option fst (vmm_alloc_map demo_vm) = Some 0xffff800001000000" by code_simp
  then obtain m where m: "vmm_alloc_map demo_vm = Some (0xffff800001000000, m)" by auto
  have "map_option (\<lambda>(r, m). map_option fst (vmm_map_4k_page r 0x401000 0x600000 7 m)) (vmm_alloc_map demo_vm) = Some (Some (Inr ()))"
    by code_simp
  with m obtain m' where m': "vmm_map_4k_page 0xffff800001000000 0x401000 0x600000 7 m = Some (Inr (), m')" by auto
  have "slabs_wf 0x200000 (m_heap demo_vm)" "\<not> kmalloc_creating (m_heap demo_vm)"
    using demo_heap_wf [of "[]"] by (simp_all add: demo_vm_def demo_heap_def)
  from fresh_root_wf [OF this m] m m' that show ?thesis by simp
qed

theorem map_4k_query_witness:
  "\<exists>m m'. vmm_map_4k_page 0xffff800001000000 0x401000 0x600000 7 m = Some (Inr (), m')
     \<and> x86_vmm_query_4k_page 0xffff800001000000 0x600123 m' = Some (Inr (0x401000, 7))"
proof (rule demo_space)
  fix m m'
  assume m: "vm_wf 0x200000 0xffff800001000000 m" "vmm_map_4k_page 0xffff800001000000 0x401000 0x600000 7 m = Some (Inr (), m')"
  have "same_page 0x600123 0x600000" by code_simp
  moreover have "(7 :: u64) AND (PAGE_VALID OR PAGE_PROTNONE) \<noteq> 0" "(0x401000 :: u64) AND PAGE_4K_MASK = 0x401000"
    "(7 :: u64) AND NOT PAGE_4K_MASK = 7" by code_simp+
  ultimately have "x86_vmm_query_4k_page 0xffff800001000000 0x600123 m' = Some (Inr (0x401000, 7))"
    using map_4k_query [OF m] by simp
  with m(2) show ?thesis by blast
qed

theorem unmap_4k_exact_witness:
  "\<exists>m m'. x86_vmm_query_4k_page 0xffff800001000000 0x600000 m = Some (Inr (0x401000, 7))
     \<and> x86_vmm_unmap_4k_page_with_free 0xffff800001000000 0x600000 m = Some (Inr (), m')
     \<and> x86_vmm_query_4k_page 0xffff800001000000 0x600123 m' = Some (Inl ENOENT)"
proof (rule demo_space)
  fix m m'
  assume m: "vm_wf 0x200000 0xffff800001000000 m" "vmm_map_4k_page 0xffff800001000000 0x401000 0x600000 7 m = Some (Inr (), m')"
  note M = map_4k_cases [OF m [unfolded vmm_map_4k_page_def]]
  have "same_page 0x600000 0x600000" "same_page 0x600123 0x600000" by code_simp+
  moreover have "((0x401000 AND PAGE_4K_MASK) OR (7 AND NOT PAGE_4K_MASK)) AND (PAGE_VALID OR PAGE_PROTNONE) \<noteq> 0"
    "((0x401000 AND PAGE_4K_MASK) OR (7 AND NOT PAGE_4K_MASK)) AND PAGE_4K_MASK = 0x401000"
    "((0x401000 AND PAGE_4K_MASK) OR (7 AND NOT PAGE_4K_MASK)) AND NOT PAGE_4K_MASK = 7" by code_simp+
  ultimately have q: "x86_vmm_query_4k_page 0xffff800001000000 0x600000 m' = Some (Inr (0x401000, 7))" using M by (simp add: query_eq)
  from unmap_4k_exact [OF conjunct1 [OF M], where virt = "0x600000"] q obtain m'' where
    "x86_vmm_unmap_4k_page_with_free 0xffff800001000000 0x600000 m' = Some (Inr (), m'')"
    "x86_vmm_query_4k_page 0xffff800001000000 0x600123 m'' = Some (Inl ENOENT)"
    using \<open>same_page 0x600123 0x600000\<close> by auto
  with q show ?thesis by blast
qed

end
