(* ===== verification/VMA.thy ===== *)
theory VMA
  imports VMM
begin

text \<open>
  The memory areas of a process, \<^verbatim>\<open>kernel/memory/vma.c\<close>: the sorted list of areas, the program break,
  and the system calls mmap, munmap and mprotect on it.

  An area record carries the address of its heap object. The state is the machine of the page
  tables together with the address space of the current process, the reference counts of file
  nodes and the bytes of 4 KiB pages by physical address. Every function that takes \<open>mm->lock\<close> is
  one step. What happens to a file node whose count reaches 0 is not part of the state.
\<close>

section \<open>State\<close>

record vma =
  vm_self :: u64
  vm_start :: u64
  vm_end :: u64
  vm_flags :: u64
  vm_page_prot :: u64
  vm_pgoff :: u64
  vm_file :: "nat option"

record mm =
  mm_pgdir :: u64
  mm_start_brk :: u64
  mm_end_brk :: u64
  vma_list :: "vma list"
  mmap_base :: u64

record world =
  w_m :: machine
  w_mm :: mm
  w_refs :: "nat \<Rightarrow> u32"
  w_data :: "u64 \<Rightarrow> nat \<Rightarrow> u8"

definition sizeof_vma :: u64 where "sizeof_vma = 64"
definition sizeof_mm :: u64 where "sizeof_mm = 112"

definition VMA_PROT_READ :: u64 where "VMA_PROT_READ = 0x01"
definition VMA_PROT_WRITE :: u64 where "VMA_PROT_WRITE = 0x02"
definition VMA_PROT_EXEC :: u64 where "VMA_PROT_EXEC = 0x04"
definition VMA_SHARED :: u64 where "VMA_SHARED = 0x08"
definition VMA_ANON :: u64 where "VMA_ANON = 0x20"
definition VMA_IO :: u64 where "VMA_IO = 0x80"
definition VMA_HEAP :: u64 where "VMA_HEAP = 0x100"
definition PROT_NONE :: u32 where "PROT_NONE = 0x0"
definition PROT_READ :: u32 where "PROT_READ = 0x1"
definition PROT_WRITE :: u32 where "PROT_WRITE = 0x2"
definition PROT_EXEC :: u32 where "PROT_EXEC = 0x4"
definition MAP_SHARED :: u64 where "MAP_SHARED = 0x01"
definition MAP_FIXED :: u64 where "MAP_FIXED = 0x10"
definition MAP_ANONYMOUS :: u64 where "MAP_ANONYMOUS = 0x20"

definition USER_CODE_ADDR :: u64 where "USER_CODE_ADDR = 0x400000"
definition USER_ENVELOPE_SIZE :: u64 where "USER_ENVELOPE_SIZE = 0x20000000"
definition USER_STACK_BASE :: u64 where "USER_STACK_BASE = 0x20400000"
definition HEAP_LIMIT :: u64 where "HEAP_LIMIT = USER_CODE_ADDR + USER_ENVELOPE_SIZE - 0x1000"
definition USER_MIN_ADDR :: u64 where "USER_MIN_ADDR = 0x400000"

definition PAGE_4K_ALIGN :: "u64 \<Rightarrow> u64" where
  "PAGE_4K_ALIGN a = (a + PAGE_4K_SIZE - 1) AND PAGE_4K_MASK"

section \<open>Allocation in the larger state\<close>

definition w_kmalloc :: "u64 \<Rightarrow> world \<Rightarrow> (u64 \<times> world) option" where
  "w_kmalloc sz w = map_option (\<lambda>(p, h). (p, w\<lparr>w_m := (w_m w)\<lparr>m_heap := h\<rparr>\<rparr>)) (kmalloc sz (m_heap (w_m w)))"

definition w_kfree :: "u64 \<Rightarrow> world \<Rightarrow> world option" where
  "w_kfree a w = map_option (\<lambda>m. w\<lparr>w_m := m\<rparr>) (free_object a (w_m w))"

definition w_alloc_4k :: "world \<Rightarrow> (u64 \<times> world) option" where
  "w_alloc_4k w = map_option (\<lambda>(phys, s). (phys, w\<lparr>w_m := set_subs s (w_m w)\<rparr>)) (alloc_4k_page (m_junk (w_m w)) (subs (w_m w)))"

definition w_free_4k :: "u64 \<Rightarrow> world \<Rightarrow> world" where
  "w_free_4k phys w = w\<lparr>w_m := set_subs (free_4k_page phys (subs (w_m w))) (w_m w)\<rparr>"

definition w_cow_put :: "u64 \<Rightarrow> world \<Rightarrow> bool \<times> world" where
  "w_cow_put phys w = (case page_cow_put phys (subs (w_m w)) of (l, s) \<Rightarrow> (l, w\<lparr>w_m := set_subs s (w_m w)\<rparr>))"

definition w_store :: "u64 \<Rightarrow> u64 \<Rightarrow> world \<Rightarrow> world" where
  "w_store a v w = w\<lparr>w_m := store a v (w_m w)\<rparr>"

definition node_get :: "nat option \<Rightarrow> world \<Rightarrow> world" where
  "node_get f w = (case f of None \<Rightarrow> w | Some n \<Rightarrow> w\<lparr>w_refs := (w_refs w)(n := w_refs w n + 1)\<rparr>)"

definition node_put :: "nat option \<Rightarrow> world \<Rightarrow> world" where
  "node_put f w = (case f of None \<Rightarrow> w | Some n \<Rightarrow> w\<lparr>w_refs := (w_refs w)(n := w_refs w n - 1)\<rparr>)"

text \<open>The root table of the current process, as a kernel pointer.\<close>

definition user_pgd :: "world \<Rightarrow> u64" where
  "user_pgd w = Phy_To_Virt (mm_pgdir (w_mm w))"

text \<open>
  \<open>for (va = start; va < end; va += PAGE_4K_SIZE)\<close>. When the counter would wrap, \<open>end\<close> is within
  4 KiB of the top of the address space and the loop never ends: the value \<^term>\<open>None\<close>.
\<close>

function each_page :: "u64 \<Rightarrow> u64 \<Rightarrow> (u64 \<Rightarrow> 's \<Rightarrow> 's option) \<Rightarrow> 's \<Rightarrow> 's option" where
  "each_page va e f s =
    (if \<not> va < e then Some s
     else if va + PAGE_4K_SIZE < va then None
     else case f va s of None \<Rightarrow> None | Some s1 \<Rightarrow> each_page (va + PAGE_4K_SIZE) e f s1)"
  by pat_completeness auto
termination
proof (relation "measure (\<lambda>(va, e, f, s). 2 ^ 64 - unat va)")
  fix va e :: u64 and f :: "u64 \<Rightarrow> 's \<Rightarrow> 's option" and s s1
  assume "\<not> va + PAGE_4K_SIZE < va"
  moreover have "va \<noteq> va + PAGE_4K_SIZE" by (simp add: PAGE_4K_SIZE_def)
  ultimately have "va < va + PAGE_4K_SIZE" by (metis linorder_neqE)
  then have "unat va < unat (va + PAGE_4K_SIZE)" by (simp only: word_less_nat_alt)
  with unat_less_2p64 [of "va + PAGE_4K_SIZE"]
  show "((va + PAGE_4K_SIZE, e, f, s1), va, e, f, s) \<in> measure (\<lambda>(va, e, f, s). 2 ^ 64 - unat va)" by simp
qed simp

declare each_page.simps [simp del]

definition unmap_pages :: "u64 \<Rightarrow> u64 \<Rightarrow> u64 \<Rightarrow> world \<Rightarrow> world option" where
  "unmap_pages pgd s e = each_page s e (\<lambda>va w. map_option (\<lambda>m. w\<lparr>w_m := m\<rparr>) (vmm_unmap_4k_page pgd va (w_m w)))"

section \<open>The list of areas\<close>

fun vma_find :: "vma list \<Rightarrow> u64 \<Rightarrow> vma option" where
  "vma_find [] addr = None"
| "vma_find (v # vs) addr =
    (if addr \<ge> vm_start v \<and> addr < vm_end v then Some v
     else if addr < vm_start v then None
     else vma_find vs addr)"

fun vma_insert :: "vma \<Rightarrow> vma list \<Rightarrow> vma list" where
  "vma_insert v [] = [v]"
| "vma_insert v (x # xs) = (if vm_start v < vm_start x then v # x # xs else x # vma_insert v xs)"

definition upd_vmas :: "(vma list \<Rightarrow> vma list) \<Rightarrow> world \<Rightarrow> world" where
  "upd_vmas f w = w\<lparr>w_mm := (w_mm w)\<lparr>vma_list := f (vma_list (w_mm w))\<rparr>\<rparr>"

text \<open>What \<open>vma_remove\<close> does once the area is unlinked.\<close>

definition drop_vma :: "vma \<Rightarrow> world \<Rightarrow> world option" where
  "drop_vma v w = w_kfree (vm_self v) (node_put (vm_file v) w)"

definition vma_remove :: "vma \<Rightarrow> world \<Rightarrow> world option" where
  "vma_remove v w = drop_vma v (upd_vmas (remove1 v) w)"

fun free_vmas :: "vma list \<Rightarrow> world \<Rightarrow> world option" where
  "free_vmas [] w = Some w"
| "free_vmas (v # vs) w =
    (if vm_flags v AND VMA_IO \<noteq> 0 then Option.bind (vma_remove v w) (free_vmas vs)
     else Option.bind (if mm_pgdir (w_mm w) \<noteq> 0 then unmap_pages (user_pgd w) (vm_start v) (vm_end v) w else Some w)
       (\<lambda>w1. Option.bind (vma_remove v w1) (free_vmas vs)))"

definition vma_free_all :: "world \<Rightarrow> world option" where
  "vma_free_all w = free_vmas (vma_list (w_mm w)) w"

text \<open>The child's list; the state of the parent is the one that the references are counted in.\<close>

fun fork_vma_copy :: "vma list \<Rightarrow> vma list \<Rightarrow> world \<Rightarrow> (vma list \<times> world) option" where
  "fork_vma_copy child [] w = Some (child, w)"
| "fork_vma_copy child (pv # ps) w =
    Option.bind (w_kmalloc sizeof_vma w) (\<lambda>(cv, w1).
      if cv = 0 then fork_vma_copy child ps w1
      else fork_vma_copy (vma_insert (pv\<lparr>vm_self := cv\<rparr>) child) ps (node_get (vm_file pv) w1))"

definition mm_alloc :: "machine \<Rightarrow> ((u64 \<times> mm) option \<times> machine) option" where
  "mm_alloc m = map_option (\<lambda>(p, m1).
     (if p = 0 then None
      else Some (p, \<lparr>mm_pgdir = 0, mm_start_brk = 0, mm_end_brk = 0, vma_list = [], mmap_base = 0x40000000\<rparr>), m1))
     (calloc 1 sizeof_mm m)"

definition mm_init_user_heap :: "u64 \<Rightarrow> world \<Rightarrow> ((errno + unit) \<times> world) option" where
  "mm_init_user_heap elf_end w =
    (let heap_base = (elf_end + (PAGE_4K_SIZE - 1)) AND NOT (PAGE_4K_SIZE - 1) in
     Option.bind (w_kmalloc sizeof_vma w) (\<lambda>(hv, w1).
       if hv = 0 then Some (Inl ENOMEM, w1)
       else Some (Inr (), upd_vmas (vma_insert
         \<lparr>vm_self = hv, vm_start = heap_base, vm_end = heap_base,
          vm_flags = VMA_PROT_READ OR VMA_PROT_WRITE OR VMA_ANON OR VMA_HEAP,
          vm_page_prot = PAGE_USER OR PAGE_WRITE OR PAGE_VALID, vm_pgoff = 0, vm_file = None\<rparr>)
         (w1\<lparr>w_mm := (w_mm w1)\<lparr>mm_start_brk := heap_base, mm_end_brk := heap_base\<rparr>\<rparr>))))"

definition mm_user_range_protected :: "mm \<Rightarrow> u64 \<Rightarrow> u64 \<Rightarrow> bool" where
  "mm_user_range_protected mm start e =
    (if mm_start_brk mm = 0 then False
     else if e \<le> start then False
     else let stack_end = USER_STACK_BASE + 0x200000 in
       start < mm_start_brk mm \<and> USER_CODE_ADDR < e
       \<or> start < HEAP_LIMIT \<and> mm_start_brk mm < e
       \<or> start < USER_STACK_BASE \<and> HEAP_LIMIT < e
       \<or> start < stack_end \<and> USER_STACK_BASE < e)"

section \<open>The program break\<close>

definition set_break :: "u64 \<Rightarrow> u64 \<Rightarrow> world \<Rightarrow> world" where
  "set_break self requested w = upd_vmas (map (\<lambda>v. if vm_self v = self then v\<lparr>vm_end := requested\<rparr> else v))
     (w\<lparr>w_mm := (w_mm w)\<lparr>mm_end_brk := requested\<rparr>\<rparr>)"

definition heap_vma :: "mm \<Rightarrow> vma option" where
  "heap_vma mm = List.find (\<lambda>v. vm_flags v AND VMA_HEAP \<noteq> 0 \<and> vm_start v = mm_start_brk mm) (vma_list mm)"

text \<open>
  Staging one page of a growing break. The state is the error that ended the loop, if any, the
  pages staged so far, latest first, and the machine.
\<close>

type_synonym staging = "errno option \<times> u64 list \<times> world"

definition stage_page :: "u64 \<Rightarrow> u64 \<Rightarrow> u64 \<Rightarrow> staging \<Rightarrow> staging option" where
  "stage_page pgd page_prot va = (\<lambda>(rc, staged, w).
    if rc \<noteq> None then Some (rc, staged, w) else
    Option.bind (vmm_pt_walk pgd va 0 False (w_m w)) (\<lambda>(existing, _).
      if (case existing of None \<Rightarrow> False | Some p \<Rightarrow> m_mem (w_m w) p AND PAGE_VALID \<noteq> 0) then Some (None, staged, w)
      else Option.bind (w_alloc_4k w) (\<lambda>(phys, w1).
        if phys = 0 then Some (Some ENOMEM, staged, w1)
        else let w2 = w1\<lparr>w_data := (w_data w1)(phys := (\<lambda>_. 0))\<rparr> in
          Option.bind (vmm_map_4k_page pgd phys va page_prot (w_m w2)) (\<lambda>(r, m).
            let w3 = w2\<lparr>w_m := m\<rparr> in
            case r of Inl _ \<Rightarrow> Some (Some ENOMEM, staged, w_free_4k phys w3)
            | Inr _ \<Rightarrow> Some (None, va # staged, w3)))))"

fun unmap_staged :: "u64 \<Rightarrow> u64 list \<Rightarrow> world \<Rightarrow> world option" where
  "unmap_staged pgd [] w = Some w"
| "unmap_staged pgd (va # vas) w =
    Option.bind (vmm_unmap_4k_page pgd va (w_m w)) (\<lambda>m. unmap_staged pgd vas (w\<lparr>w_m := m\<rparr>))"

definition brk_grow :: "vma \<Rightarrow> u64 \<Rightarrow> world \<Rightarrow> ((errno + u64) \<times> world) option" where
  "brk_grow hv requested w =
    (let end_brk = mm_end_brk (w_mm w);
         aligned_old = (end_brk + (PAGE_4K_SIZE - 1)) AND PAGE_4K_MASK;
         aligned_req = (requested + (PAGE_4K_SIZE - 1)) AND PAGE_4K_MASK;
         aligned_new = (if aligned_req > HEAP_LIMIT then HEAP_LIMIT else aligned_req) in
     if aligned_new \<le> aligned_old then Some (Inr requested, set_break (vm_self hv) requested w)
     else
       let grow_pages = (aligned_new - aligned_old) div PAGE_4K_SIZE in
       Option.bind (w_kmalloc (grow_pages * 8) w) (\<lambda>(staged_va, w1).
       Option.bind (w_kmalloc (grow_pages * 8) w1) (\<lambda>(staged_phys, w2).
         if staged_va = 0 \<or> staged_phys = 0 then
           Option.bind (if staged_phys \<noteq> 0 then w_kfree staged_phys w2 else Some w2) (\<lambda>w3.
           Option.bind (if staged_va \<noteq> 0 then w_kfree staged_va w3 else Some w3) (\<lambda>w4. Some (Inl ENOMEM, w4)))
         else
           Option.bind (each_page aligned_old aligned_new (stage_page (user_pgd w) (vm_page_prot hv)) (None, [], w2))
           (\<lambda>(rc, staged, w3).
             Option.bind (if rc \<noteq> None then unmap_staged (user_pgd w) (rev staged) w3 else Some w3) (\<lambda>w4.
             Option.bind (w_kfree staged_va w4) (\<lambda>w5. Option.bind (w_kfree staged_phys w5) (\<lambda>w6.
               case rc of Some e \<Rightarrow> Some (Inl e, w6)
               | None \<Rightarrow> Some (Inr requested, set_break (vm_self hv) requested w6))))))))"

text \<open>
  The tail of the page that stays when the break shrinks: a shared copy-on-write page is replaced
  by a copy first. The answer is \<^term>\<open>Inl ENOMEM\<close>, or the old page to be freed at the end (0 for none).
\<close>

definition brk_tail :: "vma \<Rightarrow> u64 \<Rightarrow> u64 \<Rightarrow> world \<Rightarrow> ((errno + u64) \<times> world) option" where
  "brk_tail hv requested aligned_new w =
    (let tail_va = aligned_new - PAGE_4K_SIZE; off = unat (requested - tail_va);
         clear = (\<lambda>phys w. w\<lparr>w_data := (w_data w)(phys := (\<lambda>i. if off \<le> i \<and> i < 4096 then 0 else w_data w phys i))\<rparr>) in
     Option.bind (vmm_pt_walk (user_pgd w) tail_va 0 False (w_m w)) (\<lambda>(pte, _).
       case pte of None \<Rightarrow> Some (Inr 0, w)
       | Some p \<Rightarrow>
         let e = m_mem (w_m w) p; old_phys = e AND PAGE_4K_MASK in
         if e AND PAGE_VALID = 0 then Some (Inr 0, w)
         else if e AND PAGE_COW = 0 then Some (Inr 0, clear old_phys w)
         else if page_cow_refs old_phys (subs (w_m w)) > 1 then
           Option.bind (w_alloc_4k w) (\<lambda>(new_phys, w1).
             if new_phys = 0 then Some (Inl ENOMEM, w1)
             else case w_cow_put old_phys
                 (w_store p (new_phys OR vm_page_prot hv) (w1\<lparr>w_data := (w_data w1)(new_phys := w_data w1 old_phys)\<rparr>)) of
               (l, w2) \<Rightarrow> Some (Inr (if l then old_phys else 0), clear new_phys w2))
         else Some (Inr 0, clear old_phys (w_store p (old_phys OR vm_page_prot hv) (snd (w_cow_put old_phys w))))))"

definition brk_shrink :: "vma \<Rightarrow> u64 \<Rightarrow> world \<Rightarrow> ((errno + u64) \<times> world) option" where
  "brk_shrink hv requested w =
    (let aligned_new = (requested + (PAGE_4K_SIZE - 1)) AND PAGE_4K_MASK;
         aligned_old = (mm_end_brk (w_mm w) + (PAGE_4K_SIZE - 1)) AND PAGE_4K_MASK in
     Option.bind (if requested < aligned_new then brk_tail hv requested aligned_new w else Some (Inr 0, w)) (\<lambda>(r, w1).
       case r of Inl e \<Rightarrow> Some (Inl e, w1)
       | Inr free_old_phys \<Rightarrow>
         Option.bind (unmap_pages (user_pgd w) aligned_new aligned_old w1) (\<lambda>w2.
           let w3 = set_break (vm_self hv) requested w2 in
           Some (Inr requested, if free_old_phys \<noteq> 0 then w_free_4k free_old_phys w3 else w3))))"

definition mm_set_brk :: "u64 \<Rightarrow> world \<Rightarrow> ((errno + u64) \<times> world) option" where
  "mm_set_brk requested w =
    (let mm = w_mm w in
     if requested = 0 then Some (Inr (mm_end_brk mm), w)
     else if mm_start_brk mm = 0 then Some (Inl ENOMEM, w)
     else if requested < mm_start_brk mm then Some (Inl EINVAL, w)
     else if requested > HEAP_LIMIT then Some (Inl ENOMEM, w)
     else if requested = mm_end_brk mm then Some (Inr (mm_end_brk mm), w)
     else case heap_vma mm of None \<Rightarrow> Some (Inl ENOMEM, w)
       | Some hv \<Rightarrow> if requested > mm_end_brk mm then brk_grow hv requested w else brk_shrink hv requested w)"

section \<open>Protection flags\<close>

text \<open>The answer is the bits of table entries and the flags of the area.\<close>

definition prot_to_page_flags :: "u32 \<Rightarrow> errno + (u64 \<times> u64)" where
  "prot_to_page_flags prot0 =
    (if prot0 AND NOT (PROT_READ OR PROT_WRITE OR PROT_EXEC) \<noteq> 0 then Inl EINVAL
     else if prot0 AND PROT_WRITE \<noteq> 0 \<and> prot0 AND PROT_READ = 0 then Inl EINVAL
     else let prot = (if prot0 AND PROT_EXEC \<noteq> 0 then prot0 OR PROT_READ else prot0) in
       if prot = PROT_NONE then Inr (PAGE_USER, 0)
       else if prot = PROT_READ then Inr (PAGE_USER_PTE_RO, VMA_PROT_READ)
       else if prot = PROT_READ OR PROT_WRITE then Inr (PAGE_USER_PTE, VMA_PROT_READ OR VMA_PROT_WRITE)
       else if prot = PROT_READ OR PROT_EXEC \<or> prot = PROT_READ OR PROT_WRITE OR PROT_EXEC then
         Inr (PAGE_USER_PTE, VMA_PROT_READ OR VMA_PROT_EXEC OR (if prot AND PROT_WRITE \<noteq> 0 then VMA_PROT_WRITE else 0))
       else Inl EINVAL)"

definition map_flags_to_vm :: "u64 \<Rightarrow> u64 \<Rightarrow> u64" where
  "map_flags_to_vm flags base = base OR (if flags AND MAP_SHARED \<noteq> 0 then VMA_SHARED else 0)
     OR (if flags AND MAP_ANONYMOUS \<noteq> 0 then VMA_ANON else 0)"

section \<open>munmap\<close>

text \<open>
  Inserting into the list while a cursor stands between \<open>dn\<close> and \<open>rest\<close>: the cursor points at
  the head of \<open>rest\<close>, and a node inserted before that head is passed.
\<close>

definition insert_at_cursor :: "vma \<Rightarrow> vma list \<Rightarrow> vma list \<Rightarrow> vma list \<times> vma list" where
  "insert_at_cursor v dn rest =
    (if list_ex (\<lambda>x. vm_start v < vm_start x) dn then (vma_insert v dn, rest)
     else if rest = [] \<or> vm_start v < vm_start (hd rest) then (dn @ [v], rest)
     else (dn, vma_insert v rest))"

lemma insert_at_cursor_list: "insert_at_cursor v dn rest = (d, r) \<Longrightarrow> d @ r = vma_insert v (dn @ rest)"
proof -
  have "\<not> list_ex (\<lambda>x. vm_start v < vm_start x) dn \<Longrightarrow> vma_insert v (dn @ rest) = dn @ vma_insert v rest"
    by (induction dn) auto
  moreover have "list_ex (\<lambda>x. vm_start v < vm_start x) dn \<Longrightarrow> vma_insert v (dn @ rest) = vma_insert v dn @ rest"
    by (induction dn) auto
  moreover have "rest = [] \<or> vm_start v < vm_start (hd rest) \<Longrightarrow> vma_insert v rest = v # rest" by (cases rest) auto
  ultimately show "insert_at_cursor v dn rest = (d, r) \<Longrightarrow> d @ r = vma_insert v (dn @ rest)"
    by (auto simp: insert_at_cursor_def split: if_splits)
qed

lemma filter_vma_insert: "length (filter P (vma_insert v xs)) = length (filter P (v # xs))"
  by (induction xs) auto

lemma insert_at_cursor_rest:
  "\<not> P v \<Longrightarrow> length (filter P (snd (insert_at_cursor v dn rest))) = length (filter P rest)"
  by (auto simp: insert_at_cursor_def filter_vma_insert)

text \<open>The loop: areas before the cursor, areas from the cursor on.\<close>

function munmap_loop :: "u64 \<Rightarrow> u64 \<Rightarrow> u64 \<Rightarrow> vma list \<Rightarrow> vma list \<Rightarrow> world \<Rightarrow> (vma list \<times> world) option" where
  "munmap_loop addr e pgd dn [] w = Some (dn, w)"
| "munmap_loop addr e pgd dn (v # rest) w =
    (if vm_end v \<le> addr then munmap_loop addr e pgd (dn @ [v]) rest w
     else if vm_start v \<ge> e then Some (dn @ v # rest, w)
     else
       let u_start = (if addr > vm_start v then addr else vm_start v);
           u_end = (if e < vm_end v then e else vm_end v) in
       case unmap_pages pgd u_start u_end w of None \<Rightarrow> None
       | Some w1 \<Rightarrow>
         if u_start \<le> vm_start v \<and> u_end \<ge> vm_end v then
           (case drop_vma v w1 of None \<Rightarrow> None | Some w2 \<Rightarrow> munmap_loop addr e pgd dn rest w2)
         else if u_start > vm_start v \<and> u_end < vm_end v then
           let left = v\<lparr>vm_end := u_start\<rparr> in
           (case w_kmalloc sizeof_vma w1 of None \<Rightarrow> None
            | Some (p, w2) \<Rightarrow>
              if p = 0 then munmap_loop addr e pgd (dn @ [left]) rest w2
              else let right = left\<lparr>vm_self := p, vm_start := u_end, vm_end := vm_end v\<rparr>;
                       cur = insert_at_cursor right (dn @ [left]) rest in
                munmap_loop addr e pgd (fst cur) (snd cur) (node_get (vm_file right) w2))
         else if u_start > vm_start v then munmap_loop addr e pgd (dn @ [v\<lparr>vm_end := u_start\<rparr>]) rest w1
         else munmap_loop addr e pgd (dn @ [v\<lparr>vm_start := u_end\<rparr>]) rest w1)"
  by pat_completeness auto
termination
  by (relation "measures [\<lambda>(addr, e, pgd, dn, rest, w). length (filter (\<lambda>v. vm_start v < e) rest),
    \<lambda>(addr, e, pgd, dn, rest, w). length rest]")
    (auto simp: not_le not_less insert_at_cursor_rest split: if_splits)

definition do_munmap_locked :: "u64 \<Rightarrow> u64 \<Rightarrow> world \<Rightarrow> ((errno + unit) \<times> world) option" where
  "do_munmap_locked addr0 length0 w =
    (let addr = PAGE_4K_ALIGN addr0; len = PAGE_4K_ALIGN length0 in
     if len = 0 then Some (Inl EINVAL, w)
     else let e = addr + len in
       if mm_user_range_protected (w_mm w) addr e then Some (Inl EINVAL, w)
       else map_option (\<lambda>(l, w1). (Inr (), upd_vmas (\<lambda>_. l) w1))
         (munmap_loop addr e (user_pgd w) [] (vma_list (w_mm w)) w))"

definition do_munmap :: "u64 \<Rightarrow> u64 \<Rightarrow> world \<Rightarrow> ((errno + unit) \<times> world) option" where
  "do_munmap = do_munmap_locked"

section \<open>mmap\<close>

text \<open>
  \<open>fd_node\<close> gives the file node of an open descriptor of the current task; it is \<^term>\<open>None\<close> for a
  descriptor out of range, not open, or without a node. \<open>dev\<close> gives the mmap handler of a
  device node: driver code that may write table entries and the area.
\<close>

type_synonym mmap_handler = "vma \<Rightarrow> world \<Rightarrow> ((errno + unit) \<times> vma \<times> world) option"

definition mmap_check :: "(u64 \<Rightarrow> nat option) \<Rightarrow> u64 \<Rightarrow> u64 \<Rightarrow> u64 \<Rightarrow> u64 \<Rightarrow> u64 \<Rightarrow> u64 \<Rightarrow> mm \<Rightarrow> errno option" where
  "mmap_check fd_node addr_limit addr len flags fd offset mm =
    (if len = 0 then Some EINVAL
     else if addr \<noteq> 0 \<and> addr < USER_MIN_ADDR then Some EINVAL
     else let e = PAGE_4K_ALIGN (addr + len) in
       if e < addr then Some EINVAL
       else if offset AND (PAGE_4K_SIZE - 1) \<noteq> 0 then Some EINVAL
       else if flags AND MAP_ANONYMOUS \<noteq> 0 \<and> fd \<noteq> - 1 then Some EINVAL
       else if flags AND MAP_ANONYMOUS = 0 \<and> fd_node fd = None then Some EBADF
       else if flags AND MAP_FIXED \<noteq> 0 \<and> addr AND (PAGE_4K_SIZE - 1) \<noteq> 0 then Some EINVAL
       else if flags AND MAP_FIXED \<noteq> 0 \<and> addr \<ge> addr_limit then Some ENOMEM
       else if flags AND MAP_FIXED \<noteq> 0 \<and> mm_user_range_protected mm addr e then Some EINVAL
       else if PAGE_4K_ALIGN len = 0 then Some EINVAL
       else None)"

text \<open>The first gap that is large enough: \<open>prev\<close> is the end of the area before the cursor.\<close>

fun mmap_search :: "u64 \<Rightarrow> u64 \<Rightarrow> u64 option \<Rightarrow> vma list \<Rightarrow> u64" where
  "mmap_search search len prev [] = (case prev of None \<Rightarrow> search | Some p \<Rightarrow> p)"
| "mmap_search search len prev (v # vs) =
    (let gap_start = (case prev of None \<Rightarrow> search | Some p \<Rightarrow> p);
         gap_start = (if gap_start < search then search else gap_start) in
     if gap_start + len \<le> vm_start v then gap_start else mmap_search search len (Some (vm_end v)) vs)"

definition mmap_auto :: "u64 \<Rightarrow> mm \<Rightarrow> u64" where
  "mmap_auto len mm =
    (let search = mmap_base mm; addr = mmap_search search len None (vma_list mm);
         addr = (if addr < search then search else addr) in
     if mm_user_range_protected mm addr (addr + len) then USER_STACK_BASE + 0x200000 else addr)"

definition mmap_place :: "u64 \<Rightarrow> u64 \<Rightarrow> u64 \<Rightarrow> u64 \<Rightarrow> world \<Rightarrow> ((errno + u64) \<times> world) option" where
  "mmap_place addr_limit addr0 len flags w =
    Option.bind
      (if flags AND MAP_FIXED = 0 then Some (mmap_auto len (w_mm w), w)
       else map_option (\<lambda>(_, w1). (addr0, w1)) (do_munmap_locked addr0 len w))
      (\<lambda>(addr, w1).
        if addr + len > addr_limit then Some (Inl ENOMEM, w1)
        else if addr \<ge> addr_limit then Some (Inl ENOMEM, w1)
        else Some (Inr addr, w1))"

definition mmap_install ::
  "(nat \<Rightarrow> mmap_handler option) \<Rightarrow> u64 \<Rightarrow> u64 \<Rightarrow> u64 \<Rightarrow> u64 \<Rightarrow> u64 \<Rightarrow> u64 \<Rightarrow> nat option \<Rightarrow> world \<Rightarrow> ((errno + u64) \<times> world) option" where
  "mmap_install dev addr len flags offset page_prot area_flags file_node w0 =
    (let w = node_get file_node w0 in
     case Option.bind file_node dev of
       Some handler \<Rightarrow>
         if flags AND MAP_SHARED = 0 then Some (Inl EINVAL, node_put file_node w)
         else if mm_user_range_protected (w_mm w) addr (addr + len) then Some (Inl EINVAL, node_put file_node w)
         else Option.bind (w_kmalloc sizeof_vma w) (\<lambda>(p, w1).
           if p = 0 then Some (Inl ENOMEM, node_put file_node w1)
           else Option.bind (handler
               \<lparr>vm_self = p, vm_start = addr, vm_end = addr + len, vm_flags = area_flags OR VMA_IO, vm_page_prot = page_prot,
                vm_pgoff = drop_bit 12 offset, vm_file = file_node\<rparr> w1) (\<lambda>(r, v, w2).
             case r of Inl err \<Rightarrow> map_option (Pair (Inl err)) (w_kfree p (node_put file_node w2))
             | Inr _ \<Rightarrow> Some (Inr (vm_start v), upd_vmas (vma_insert v) w2)))
     | None \<Rightarrow>
         Option.bind (w_kmalloc sizeof_vma w) (\<lambda>(p, w1).
           if p = 0 then Some (Inl ENOMEM, node_put file_node w1)
           else Some (Inr addr, upd_vmas (vma_insert
             \<lparr>vm_self = p, vm_start = addr, vm_end = addr + len, vm_flags = area_flags, vm_page_prot = page_prot,
              vm_pgoff = drop_bit 12 offset, vm_file = file_node\<rparr>) w1)))"

definition do_mmap ::
  "(u64 \<Rightarrow> nat option) \<Rightarrow> (nat \<Rightarrow> mmap_handler option) \<Rightarrow> u64 \<Rightarrow> u64 \<Rightarrow> u64 \<Rightarrow> u64 \<Rightarrow> u64 \<Rightarrow> u64 \<Rightarrow> u64 \<Rightarrow> world
    \<Rightarrow> ((errno + u64) \<times> world) option" where
  "do_mmap fd_node dev addr_limit addr0 length0 prot flags fd offset w =
    (case mmap_check fd_node addr_limit addr0 length0 flags fd offset (w_mm w) of
       Some err \<Rightarrow> Some (Inl err, w)
     | None \<Rightarrow>
       let len = PAGE_4K_ALIGN length0 in
       Option.bind (mmap_place addr_limit addr0 len flags w) (\<lambda>(r, w1).
         case r of Inl err \<Rightarrow> Some (Inl err, w1)
         | Inr addr \<Rightarrow>
           (case prot_to_page_flags (ucast prot) of Inl err \<Rightarrow> Some (Inl err, w1)
            | Inr (page_prot, base) \<Rightarrow>
              mmap_install dev addr len flags offset page_prot (map_flags_to_vm flags base)
                (if flags AND MAP_ANONYMOUS = 0 then fd_node fd else None) w1)))"

section \<open>mprotect\<close>

fun mprotect_scan :: "u64 \<Rightarrow> u64 \<Rightarrow> vma list \<Rightarrow> errno + u64" where
  "mprotect_scan scan e [] = Inr scan"
| "mprotect_scan scan e (v # vs) =
    (if vm_end v \<le> scan then mprotect_scan scan e vs
     else if vm_start v \<ge> e then Inr scan
     else if vm_start v > scan then Inl ENOMEM
     else if vm_flags v AND VMA_IO \<noteq> 0 then Inl EPERM
     else if vm_end v \<ge> e then Inr (vm_end v)
     else mprotect_scan (vm_end v) e vs)"

text \<open>
  One page: the state is the chain of pages to be freed once the translation caches are flushed,
  latest first, and the machine. The kernel keeps the chain in the pages themselves.
\<close>

definition mprotect_page :: "u64 \<Rightarrow> u64 \<Rightarrow> u64 \<Rightarrow> u64 \<Rightarrow> u64 list \<times> world \<Rightarrow> (u64 list \<times> world) option" where
  "mprotect_page pgd prot new_prot va = (\<lambda>(deferred, w).
    Option.bind (vmm_pt_walk pgd va 0 False (w_m w)) (\<lambda>(pte, _).
      case pte of None \<Rightarrow> Some (deferred, w)
      | Some p \<Rightarrow>
        let e = m_mem (w_m w) p; phys = e AND PAGE_4K_MASK in
        if e AND (PAGE_VALID OR PAGE_PROTNONE) = 0 then Some (deferred, w)
        else if prot = 0 then
          Some (deferred, w_store p (phys OR PAGE_USER OR PAGE_PROTNONE OR (if e AND PAGE_COW \<noteq> 0 then PAGE_COW else 0)) w)
        else if e AND PAGE_COW \<noteq> 0 then
          if page_cow_refs phys (subs (w_m w)) > 1 then
            Option.bind (w_alloc_4k w) (\<lambda>(new_phys, w1).
              if new_phys = 0 then Some (deferred, w1)
              else case w_cow_put phys (w1\<lparr>w_data := (w_data w1)(new_phys := w_data w1 phys)\<rparr>) of (l, w2) \<Rightarrow>
                Some (if l then phys # deferred else deferred, w_store p (new_phys OR new_prot) w2))
          else Some (deferred, w_store p (phys OR new_prot) (snd (w_cow_put phys w)))
        else Some (deferred, w_store p (phys OR new_prot) w)))"

text \<open>The loop over the areas: their new list, the address reached, and the state.\<close>

fun mprotect_loop ::
  "u64 \<Rightarrow> u64 \<Rightarrow> u64 \<Rightarrow> u64 \<Rightarrow> u64 \<Rightarrow> u64 \<Rightarrow> vma list \<Rightarrow> u64 list \<times> world \<Rightarrow> (vma list \<times> u64 \<times> u64 list \<times> world) option" where
  "mprotect_loop addr e pgd prot np nf [] s = Some ([], addr, s)"
| "mprotect_loop addr e pgd prot np nf (v # vs) s =
    (if vm_end v \<le> addr then map_option (apfst ((#) v)) (mprotect_loop addr e pgd prot np nf vs s)
     else if vm_start v \<ge> e then Some (v # vs, addr, s)
     else
       let v' = v\<lparr>vm_flags := (vm_flags v AND NOT (VMA_PROT_READ OR VMA_PROT_WRITE OR VMA_PROT_EXEC)) OR nf, vm_page_prot := np\<rparr>;
           va_start = (if addr > vm_start v then addr else vm_start v);
           va_end = (if e < vm_end v then e else vm_end v) in
       case each_page va_start va_end (mprotect_page pgd prot np) s of None \<Rightarrow> None
       | Some s1 \<Rightarrow>
         if vm_end v \<ge> e then Some (v' # vs, vm_end v, s1)
         else map_option (apfst ((#) v')) (mprotect_loop (vm_end v) e pgd prot np nf vs s1))"

definition do_mprotect :: "u64 \<Rightarrow> u64 \<Rightarrow> u64 \<Rightarrow> world \<Rightarrow> ((errno + unit) \<times> world) option" where
  "do_mprotect addr0 length0 prot w =
    (let addr = PAGE_4K_ALIGN addr0; len = PAGE_4K_ALIGN length0 in
     if len = 0 then Some (Inl EINVAL, w)
     else if addr + len < addr then Some (Inl EINVAL, w)
     else let e = addr + len in
       if mm_user_range_protected (w_mm w) addr e then Some (Inl EINVAL, w)
       else case prot_to_page_flags (ucast prot) of Inl err \<Rightarrow> Some (Inl err, w)
       | Inr (np, nf) \<Rightarrow>
         (case mprotect_scan addr e (vma_list (w_mm w)) of Inl err \<Rightarrow> Some (Inl err, w)
          | Inr scan \<Rightarrow>
            if scan < e then Some (Inl ENOMEM, w)
            else map_option (\<lambda>(vs, reached, deferred, w1).
              (if reached < e then Inl ENOMEM else Inr (), fold w_free_4k deferred (upd_vmas (\<lambda>_. vs) w1)))
              (mprotect_loop addr e (user_pgd w) prot np nf (vma_list (w_mm w)) ([], w))))"

end
