(* ===== verification/Areas.thy ===== *)
theory Areas
  imports VMA
begin

text \<open>
  Properties of the memory areas: lookup, unmapping and placement on the sorted list, and the
  page table entries that follow the areas.
\<close>

section \<open>Sorted lists of areas\<close>

definition vmas_ok :: "vma list \<Rightarrow> bool" where
  "vmas_ok vs \<longleftrightarrow> (\<forall>v\<in>set vs. vm_start v \<le> vm_end v) \<and> sorted_wrt (\<lambda>a b. vm_end a \<le> vm_start b) vs"

lemma vmas_ok_Cons [simp]:
  "vmas_ok (v # vs) \<longleftrightarrow> vm_start v \<le> vm_end v \<and> (\<forall>x\<in>set vs. vm_end v \<le> vm_start x) \<and> vmas_ok vs"
  by (auto simp: vmas_ok_def)

lemma vmas_ok_Nil [simp]: "vmas_ok []"
  by (simp add: vmas_ok_def)

lemma vmas_ok_append [simp]:
  "vmas_ok (xs @ ys) \<longleftrightarrow> vmas_ok xs \<and> vmas_ok ys \<and> (\<forall>x\<in>set xs. \<forall>y\<in>set ys. vm_end x \<le> vm_start y)"
  by (auto simp: vmas_ok_def sorted_wrt_append)

definition inside :: "u64 \<Rightarrow> vma \<Rightarrow> bool" where
  "inside a v \<longleftrightarrow> vm_start v \<le> a \<and> a < vm_end v"

lemma vma_find_sound: "vma_find vs a = Some v \<Longrightarrow> v \<in> set vs \<and> inside a v"
  by (induction vs) (auto simp: inside_def split: if_splits)

lemma vma_find_complete: "vmas_ok vs \<Longrightarrow> v \<in> set vs \<Longrightarrow> inside a v \<Longrightarrow> vma_find vs a = Some v"
proof (induction vs)
  case (Cons x vs)
  show ?case
  proof (cases "v = x")
    case True
    with Cons.prems show ?thesis by (simp add: inside_def)
  next
    case False
    with Cons.prems have "v \<in> set vs" "vm_end x \<le> vm_start v" by auto
    moreover from this Cons.prems(1,3) have "vm_start x \<le> a" "\<not> a < vm_end x" by (auto simp: inside_def)
    ultimately show ?thesis using Cons by simp
  qed
qed simp

text \<open>
  C25. On a sorted list of disjoint areas \<open>vma_find\<close>, which stops at the first area above the
  address, finds exactly the area that contains the address: it agrees with the search of the
  whole list.
\<close>

theorem vma_find_exact:
  assumes "vmas_ok vs"
  shows "vma_find vs a = Some v \<longleftrightarrow> v \<in> set vs \<and> inside a v"
  using vma_find_sound vma_find_complete assms by blast

theorem vma_find_exact_witness:
  "vma_find [\<lparr>vm_self = 1, vm_start = 0x1000, vm_end = 0x2000, vm_flags = 3, vm_page_prot = 7, vm_pgoff = 0, vm_file = None\<rparr>]
    0x1800 = Some \<lparr>vm_self = 1, vm_start = 0x1000, vm_end = 0x2000, vm_flags = 3, vm_page_prot = 7, vm_pgoff = 0, vm_file = None\<rparr>"
  using vma_find_exact [where vs = "[\<lparr>vm_self = 1, vm_start = 0x1000, vm_end = 0x2000, vm_flags = 3, vm_page_prot = 7,
    vm_pgoff = 0, vm_file = None\<rparr>]" and a = "0x1800"] by (simp add: inside_def)

lemma vma_insert_set [simp]: "set (vma_insert v vs) = insert v (set vs)"
  by (induction vs) auto

lemma vma_insert_ok:
  "vmas_ok vs \<Longrightarrow> vm_start v \<le> vm_end v \<Longrightarrow> \<forall>x\<in>set vs. vm_end x \<le> vm_start v \<or> vm_end v \<le> vm_start x \<and> vm_start v < vm_start x \<Longrightarrow>
    vmas_ok (vma_insert v vs)"
proof (induction vs)
  case (Cons x vs)
  show ?case
  proof (cases "vm_start v < vm_start x")
    case True
    with Cons.prems have "vm_end v \<le> vm_start x" by (auto intro: order_trans)
    moreover have "vm_start x \<le> vm_start y" if "y \<in> set vs" for y using Cons.prems(1) that by (auto intro: order_trans)
    ultimately show ?thesis using True Cons.prems by (auto intro: order_trans)
  next
    case False
    with Cons show ?thesis by auto
  qed
qed simp

lemma vma_insert_map_set: "f v \<notin> set (map f vs) \<Longrightarrow> distinct (map f vs) \<Longrightarrow> distinct (map f (vma_insert v vs))"
  by (induction vs) auto

section \<open>What a list of areas says about an address\<close>

definition attrs :: "vma \<Rightarrow> u64 \<times> u64 \<times> u64 \<times> nat option" where
  "attrs v = (vm_flags v, vm_page_prot v, vm_pgoff v, vm_file v)"

definition covers :: "vma list \<Rightarrow> u64 \<Rightarrow> u64 \<times> u64 \<times> u64 \<times> nat option \<Rightarrow> bool" where
  "covers vs a t \<longleftrightarrow> (\<exists>v\<in>set vs. inside a v \<and> attrs v = t)"

lemma covers_simps [simp]:
  "\<not> covers [] a t" "covers (v # vs) a t \<longleftrightarrow> inside a v \<and> attrs v = t \<or> covers vs a t"
  "covers (xs @ ys) a t \<longleftrightarrow> covers xs a t \<or> covers ys a t"
  "covers (vma_insert v vs) a t \<longleftrightarrow> inside a v \<and> attrs v = t \<or> covers vs a t"
  by (auto simp: covers_def)

lemma covers_find:
  assumes ok: "vmas_ok vs"
  shows "covers vs a t \<longleftrightarrow> map_option attrs (vma_find vs a) = Some t"
proof
  assume "covers vs a t"
  then obtain v where "v \<in> set vs" "inside a v" "attrs v = t" by (auto simp: covers_def)
  with vma_find_complete [OF ok] show "map_option attrs (vma_find vs a) = Some t" by simp
next
  assume "map_option attrs (vma_find vs a) = Some t"
  then obtain v where "vma_find vs a = Some v" "attrs v = t" by auto
  with vma_find_sound [of vs a v] show "covers vs a t" unfolding covers_def by blast
qed

section \<open>Unmapping a range of pages\<close>

lemma pt_index_div: "pt_index s x = unat x div 2 ^ s mod 512"
proof -
  have "drop_bit s x AND 0x1ff = take_bit 9 (drop_bit s x)" by (simp add: take_bit_eq_mask mask_eq_exp_minus_1)
  then show ?thesis by (simp add: pt_index_def unat_take_bit_mod drop_bit_unat)
qed

definition user_page :: "u64 \<Rightarrow> bool" where
  "user_page x \<longleftrightarrow> 4096 dvd unat x \<and> unat x < 2 ^ 47"

lemma same_page_eq:
  assumes "user_page x" "user_page y"
  shows "same_page x y \<longleftrightarrow> x = y"
proof
  assume s: "same_page x y"
  let ?q = "unat x div 2 ^ 12" and ?r = "unat y div 2 ^ 12"
  have i: "?q mod 512 = ?r mod 512" "?q div 2 ^ 9 mod 512 = ?r div 2 ^ 9 mod 512"
    "?q div 2 ^ 18 mod 512 = ?r div 2 ^ 18 mod 512" "?q div 2 ^ 27 mod 512 = ?r div 2 ^ 27 mod 512"
    using s by (simp_all add: same_page_def pt_path_def pt_index_div div_mult2_eq [symmetric])
  have "?q < 2 ^ 35" "?r < 2 ^ 35" using assms by (simp_all add: user_page_def less_mult_imp_div_less)
  then have "?q div 2 ^ 27 < 512" "?r div 2 ^ 27 < 512" by (simp_all add: less_mult_imp_div_less)
  with i(4) have "?q div 2 ^ 27 = ?r div 2 ^ 27" by simp
  moreover have "n div 2 ^ 18 = n div 2 ^ 27 * 512 + n div 2 ^ 18 mod 512" "n div 2 ^ 9 = n div 2 ^ 18 * 512 + n div 2 ^ 9 mod 512"
    "n = n div 2 ^ 9 * 512 + n mod 512" for n :: nat
    using div_mult_mod_eq [of "n div 2 ^ 18" 512] div_mult_mod_eq [of "n div 2 ^ 9" 512] div_mult_mod_eq [of n 512]
    by (simp_all add: div_mult2_eq [symmetric])
  ultimately have "?q = ?r" using i by metis
  moreover have "unat z = 2 ^ 12 * (unat z div 2 ^ 12)" if "user_page z" for z using that by (simp add: user_page_def)
  ultimately have "unat x = unat y" using assms by metis
  then show "x = y" by (simp add: word_unat_eq_iff)
qed (simp add: same_page_def)

lemma user_page_low: "user_page x \<Longrightarrow> pt_index 39 x < 256"
  by (simp add: pt_index_div user_page_def less_mult_imp_div_less)

text \<open>The entry of a page after it was unmapped.\<close>

definition cleared :: "u64 \<Rightarrow> u64" where
  "cleared e = (if e AND (PAGE_VALID OR PAGE_PROTNONE) = 0 then e else 0)"

lemma unmap_page_ok:
  assumes wf: "vm_wf lowest root m" and va: "user_page va"
  shows "\<exists>m'. vmm_unmap_4k_page root va m = Some m' \<and> vm_wf lowest root m' \<and> m_heap m' = m_heap m
    \<and> (\<forall>x. user_page x \<longrightarrow> pte_of root x m' = (if x = va then cleared (pte_of root x m) else pte_of root x m))"
proof -
  obtain m' where m': "vmm_unmap_4k_page root va m = Some m'" "vm_wf lowest root m'" "m_heap m' = m_heap m"
    "\<And>v. pte_of root v m' = (if same_page v va \<and> pte_of root va m AND (PAGE_VALID OR PAGE_PROTNONE) \<noteq> 0 then 0 else pte_of root v m)"
    by (rule unmap_4k_cases [OF wf, of va]) (auto simp: vmm_unmap_4k_page_def)
  then show ?thesis using same_page_eq [OF _ va] by (auto simp: cleared_def)
qed

text \<open>Everything but the machine is the same.\<close>

definition same_rest :: "world \<Rightarrow> world \<Rightarrow> bool" where
  "same_rest w w' \<longleftrightarrow> w_mm w' = w_mm w \<and> w_refs w' = w_refs w \<and> w_data w' = w_data w"

lemma unmap_pages_ok:
  assumes "vm_wf lowest root (w_m w)" "4096 dvd unat s" "unat e \<le> 2 ^ 47"
  shows "\<exists>w'. unmap_pages root s e w = Some w' \<and> vm_wf lowest root (w_m w') \<and> m_heap (w_m w') = m_heap (w_m w) \<and> same_rest w w'
    \<and> (\<forall>x. user_page x \<longrightarrow> pte_of root x (w_m w') = (if s \<le> x \<and> x < e then cleared (pte_of root x (w_m w)) else pte_of root x (w_m w)))"
  using assms
proof (induction "2 ^ 64 - unat s" arbitrary: s w rule: less_induct)
  case less
  let ?f = "\<lambda>va w. map_option (\<lambda>m. w\<lparr>w_m := m\<rparr>) (vmm_unmap_4k_page root va (w_m w))"
  show ?case
  proof (cases "s < e")
    case False
    with less.prems show ?thesis
      by (intro exI [of _ w]) (auto simp: unmap_pages_def each_page.simps [of s] same_rest_def)
  next
    case True
    then have lt: "unat s < 2 ^ 47" using less.prems(3) by (simp add: word_less_nat_alt)
    have s: "user_page s" using less.prems(2) lt by (simp add: user_page_def)
    have "unat s + unat PAGE_4K_SIZE < 2 ^ LENGTH(64)" using lt by simp
    then have next_s: "unat (s + PAGE_4K_SIZE) = unat s + 4096" by (simp add: unat_add_small)
    obtain m1 where m1: "vmm_unmap_4k_page root s (w_m w) = Some m1" "vm_wf lowest root m1" "m_heap m1 = m_heap (w_m w)"
      "\<forall>x. user_page x \<longrightarrow> pte_of root x m1 = (if x = s then cleared (pte_of root x (w_m w)) else pte_of root x (w_m w))"
      using unmap_page_ok [OF less.prems(1) s] by blast
    have "2 ^ 64 - unat (s + PAGE_4K_SIZE) < 2 ^ 64 - unat s" using next_s lt by simp
    from less.hyps [OF this, of "w\<lparr>w_m := m1\<rparr>"] m1(2) less.prems(2,3) next_s obtain w' where
      w': "unmap_pages root (s + PAGE_4K_SIZE) e (w\<lparr>w_m := m1\<rparr>) = Some w'" "vm_wf lowest root (w_m w')" "m_heap (w_m w') = m_heap m1"
        "same_rest (w\<lparr>w_m := m1\<rparr>) w'"
        "\<forall>x. user_page x \<longrightarrow> pte_of root x (w_m w') = (if s + PAGE_4K_SIZE \<le> x \<and> x < e then cleared (pte_of root x m1) else pte_of root x m1)"
      by auto
    have "\<not> s + PAGE_4K_SIZE < s" using next_s by (simp add: word_less_nat_alt)
    then have "unmap_pages root s e w = Some w'"
      using True m1(1) w'(1) by (simp add: unmap_pages_def each_page.simps [of s])
    moreover have "s \<le> x \<longleftrightarrow> x = s \<or> s + PAGE_4K_SIZE \<le> x" if "user_page x" for x
      using aligned_step [of 4096 "unat s" "unat x"] less.prems(2) that next_s
      by (auto simp: user_page_def word_le_nat_alt le_less word_unat_eq_iff [symmetric])
    moreover have "\<not> s + PAGE_4K_SIZE \<le> s" using next_s by (simp add: word_le_nat_alt)
    ultimately show ?thesis using w' m1 True by (intro exI [of _ w']) (auto simp: same_rest_def)
  qed
qed

section \<open>The invariant of an address space\<close>

definition nodes_ok :: "slabs \<Rightarrow> vma list \<Rightarrow> bool" where
  "nodes_ok h vs \<longleftrightarrow> distinct (map vm_self vs) \<and> (\<forall>p\<in>set (map vm_self vs). live 5 h p)"

text \<open>Only the area of the heap, which lies below the region of mmap, may end inside a page.\<close>

definition bounds_ok :: "vma list \<Rightarrow> bool" where
  "bounds_ok vs \<longleftrightarrow> (\<forall>v\<in>set vs. 4096 dvd unat (vm_start v) \<and> unat (vm_end v) \<le> 2 ^ 47
     \<and> (4096 dvd unat (vm_end v) \<or> vm_end v < 0x40000000))"

definition areas_ok :: "u64 \<Rightarrow> u64 \<Rightarrow> machine \<Rightarrow> vma list \<Rightarrow> bool" where
  "areas_ok lowest root m vs \<longleftrightarrow> vm_wf lowest root m \<and> vmas_ok vs \<and> nodes_ok (m_heap m) vs \<and> bounds_ok vs"

lemma tables_ok_mono: "tables_ok held mem root \<Longrightarrow> (\<And>x. held x \<Longrightarrow> held' x) \<Longrightarrow> tables_ok held' mem root"
  unfolding tables_ok_def by blast

lemma live_mono: "n \<le> k \<Longrightarrow> live n h x \<Longrightarrow> live k h x"
  unfolding live_def by (elim exE conjE) (use less_le_trans in blast)

lemma drop_vma_ok:
  assumes wf: "vm_wf lowest root (w_m w)" and v: "live 5 (m_heap (w_m w)) (vm_self v)"
  shows "\<exists>w'. drop_vma v w = Some w' \<and> vm_wf lowest root (w_m w') \<and> w_mm w' = w_mm w \<and> m_mem (w_m w') = m_mem (w_m w)
    \<and> (\<forall>n x. live n (m_heap (w_m w')) x \<longleftrightarrow> live n (m_heap (w_m w)) x \<and> x \<noteq> vm_self v)"
proof -
  let ?h = "m_heap (w_m w)"
  from wf have h: "slabs_wf lowest ?h" "\<not> kmalloc_creating ?h" "tables_ok (paged ?h) (m_mem (w_m w)) root" by (simp_all add: vm_wf_def)
  obtain h' where h': "kfree (vm_self v) ?h = Some (1, h')" "slabs_wf lowest h'" "kmalloc_creating h' = kmalloc_creating ?h"
    "\<And>n x. live n h' x \<longleftrightarrow> live n ?h x \<and> x \<noteq> vm_self v"
    unfolding kfree_def by (rule kfree_small [OF h(1) v, of kfree_nested]) blast
  have "tables_ok (paged h') (m_mem (w_m w)) root"
    by (rule tables_ok_mono [OF h(3)]) (use v h'(4) in \<open>auto simp: paged_def\<close>)
  moreover have m: "w_m (node_put f w) = w_m w" "w_mm (node_put f w) = w_mm w" for f by (simp_all add: node_put_def split: option.split)
  ultimately show ?thesis using h h'
    by (simp add: drop_vma_def w_kfree_def free_object_def vm_wf_def)
qed

lemma new_node_ok:
  assumes wf: "vm_wf lowest root (w_m w)"
  shows "\<exists>p w'. w_kmalloc sizeof_vma w = Some (p, w') \<and> vm_wf lowest root (w_m w') \<and> w_mm w' = w_mm w \<and> m_mem (w_m w') = m_mem (w_m w)
    \<and> (\<forall>n x. live n (m_heap (w_m w)) x \<longrightarrow> live n (m_heap (w_m w')) x)
    \<and> (p \<noteq> 0 \<longrightarrow> live 5 (m_heap (w_m w')) p \<and> \<not> live 5 (m_heap (w_m w)) p)"
proof -
  let ?h = "m_heap (w_m w)"
  from wf have h: "slabs_wf lowest ?h" "\<not> kmalloc_creating ?h" "tables_ok (paged ?h) (m_mem (w_m w)) root" by (simp_all add: vm_wf_def)
  have "sizeof_vma \<le> 512" by (simp add: sizeof_vma_def)
  from kmalloc_small [OF h(1,2) this] obtain p h' where p: "kmalloc sizeof_vma ?h = Some (p, h')"
    "p \<noteq> 0 \<longrightarrow> live 5 h' p \<and> \<not> live 16 ?h p" by blast
  note K = kmalloc_addresses [OF h(1,2) p(1)]
  have "tables_ok (paged h') (m_mem (w_m w)) root" by (rule tables_ok_mono [OF h(3)]) (rule K(4))
  moreover have "\<not> live 16 ?h p \<Longrightarrow> \<not> live 5 ?h p" using live_mono [of 5 16] by auto
  ultimately show ?thesis using p K h by (simp add: w_kmalloc_def vm_wf_def)
qed

section \<open>munmap\<close>

lemma attrs_bounds [simp]: "attrs (v\<lparr>vm_end := e\<rparr>) = attrs v" "attrs (v\<lparr>vm_start := s\<rparr>) = attrs v" "attrs (v\<lparr>vm_self := p\<rparr>) = attrs v"
  by (simp_all add: attrs_def)

lemma munmap_stop:
  "\<forall>x\<in>set rest. e \<le> vm_start x \<and> addr < vm_end x \<Longrightarrow> munmap_loop addr e pgd dn rest w = Some (dn @ rest, w)"
  by (cases rest) auto

text \<open>The lists before and after the loop, on addresses and on page table entries.\<close>

definition cut :: "u64 \<Rightarrow> u64 \<Rightarrow> vma list \<Rightarrow> vma list \<Rightarrow> vma option \<Rightarrow> bool" where
  "cut addr e vs l lost \<longleftrightarrow>
    (\<forall>v. lost = Some v \<longrightarrow> v \<in> set vs \<and> vm_start v < addr \<and> e < vm_end v \<and> length l = length vs)
    \<and> (\<forall>a t. covers l a t \<longleftrightarrow> covers vs a t \<and> \<not> (addr \<le> a \<and> a < e) \<and> \<not> (\<exists>v. lost = Some v \<and> e \<le> a \<and> a < vm_end v))"

definition ptes_cut :: "u64 \<Rightarrow> u64 \<Rightarrow> u64 \<Rightarrow> vma list \<Rightarrow> machine \<Rightarrow> machine \<Rightarrow> bool" where
  "ptes_cut root addr e vs m m' \<longleftrightarrow> (\<forall>x. user_page x \<longrightarrow>
     pte_of root x m' = (if addr \<le> x \<and> x < e \<and> (\<exists>t. covers vs x t) then cleared (pte_of root x m) else pte_of root x m))"

lemma cleared_idem [simp]: "cleared (cleared x) = cleared x"
  by (simp add: cleared_def)

lemma vmas_okD: "vmas_ok vs \<Longrightarrow> x \<in> set vs \<Longrightarrow> vm_start x \<le> vm_end x"
  by (simp add: vmas_ok_def)

lemma cut_nothing_lost: "cut addr e vs l lost \<Longrightarrow> \<forall>x\<in>set vs. addr \<le> vm_start x \<or> vm_end x \<le> e \<Longrightarrow> cut addr e vs l None"
  by (cases lost) (auto simp: cut_def)

text \<open>The common part of an area and the range.\<close>

definition u_start :: "u64 \<Rightarrow> vma \<Rightarrow> u64" where "u_start addr v = (if addr > vm_start v then addr else vm_start v)"
definition u_end :: "u64 \<Rightarrow> vma \<Rightarrow> u64" where "u_end e v = (if e < vm_end v then e else vm_end v)"

lemma overlap_iff: "u_start addr v \<le> x \<and> x < u_end e v \<longleftrightarrow> addr \<le> x \<and> x < e \<and> inside x v"
  by (auto simp: u_start_def u_end_def inside_def)

lemma munmap_overlap:
  assumes "addr < vm_end v" "vm_start v < e" "unmap_pages pgd (u_start addr v) (u_end e v) w = Some w1"
  shows "addr \<le> vm_start v \<Longrightarrow> vm_end v \<le> e \<Longrightarrow> drop_vma v w1 = Some w2 \<Longrightarrow>
      munmap_loop addr e pgd dn (v # rest) w = munmap_loop addr e pgd dn rest w2"
    and "vm_start v < addr \<Longrightarrow> vm_end v \<le> e \<Longrightarrow>
      munmap_loop addr e pgd dn (v # rest) w = munmap_loop addr e pgd (dn @ [v\<lparr>vm_end := addr\<rparr>]) rest w1"
    and "addr \<le> vm_start v \<Longrightarrow> e < vm_end v \<Longrightarrow>
      munmap_loop addr e pgd dn (v # rest) w = munmap_loop addr e pgd (dn @ [v\<lparr>vm_start := e\<rparr>]) rest w1"
    and "vm_start v < addr \<Longrightarrow> e < vm_end v \<Longrightarrow> w_kmalloc sizeof_vma w1 = Some (0, w2) \<Longrightarrow>
      munmap_loop addr e pgd dn (v # rest) w = munmap_loop addr e pgd (dn @ [v\<lparr>vm_end := addr\<rparr>]) rest w2"
    and "vm_start v < addr \<Longrightarrow> e < vm_end v \<Longrightarrow> w_kmalloc sizeof_vma w1 = Some (p, w2) \<Longrightarrow> p \<noteq> 0 \<Longrightarrow>
      insert_at_cursor (v\<lparr>vm_self := p, vm_start := e\<rparr>) (dn @ [v\<lparr>vm_end := addr\<rparr>]) rest = (d, r) \<Longrightarrow>
      munmap_loop addr e pgd dn (v # rest) w = munmap_loop addr e pgd d r (node_get (vm_file v) w2)"
  using assms by (simp_all add: munmap_loop.simps(2) [of addr e pgd dn v] u_start_def u_end_def Let_def not_le [symmetric] split: if_splits)

declare munmap_loop.simps(2) [simp del]

lemma pte_of_mem: "m_mem m = m_mem m' \<Longrightarrow> pte_of root x m = pte_of root x m'"
  by (simp add: pte_of_def)

lemma areas_ok_same: "areas_ok lowest root m vs \<Longrightarrow> vm_wf lowest root m' \<Longrightarrow> m_heap m' = m_heap m \<Longrightarrow> areas_ok lowest root m' vs"
  by (simp add: areas_ok_def)

lemma areas_ok_narrow:
  assumes ok: "areas_ok lowest root m (dn @ v # rest)" and v': "vm_self v' = vm_self v" "vm_start v \<le> vm_start v'"
    "vm_start v' \<le> vm_end v'" "vm_end v' \<le> vm_end v" "4096 dvd unat (vm_start v')"
    "vm_end v' = vm_end v \<or> 4096 dvd unat (vm_end v')"
  shows "areas_ok lowest root m (dn @ v' # rest)"
proof -
  from ok have vs: "vmas_ok (dn @ v # rest)" and b: "bounds_ok (dn @ v # rest)" by (simp_all add: areas_ok_def)
  have "vm_end x \<le> vm_start v'" if "x \<in> set dn" for x using vs that v'(2) by (auto intro: order_trans)
  moreover have "vm_end v' \<le> vm_start x" if "x \<in> set rest" for x using vs that v'(4) by (auto intro: order_trans)
  ultimately have "vmas_ok (dn @ v' # rest)" using vs v'(3) by simp
  moreover have "unat (vm_end v') \<le> unat (vm_end v)" using v'(4) by (simp add: word_le_nat_alt)
  then have "bounds_ok (dn @ v' # rest)" using b v'(5,6) by (auto simp: bounds_ok_def)
  ultimately show ?thesis using ok v'(1) by (simp add: areas_ok_def nodes_ok_def)
qed

text \<open>One area that overlaps the range, and the rest of the list behind it.\<close>

lemma ptes_cut_step:
  assumes "\<forall>x. user_page x \<longrightarrow> pte_of root x m1 = (if addr \<le> x \<and> x < e \<and> inside x v then cleared (pte_of root x m) else pte_of root x m)"
    "m_mem m2 = m_mem m1" "ptes_cut root addr e rest m2 m'"
  shows "ptes_cut root addr e (v # rest) m m'"
  unfolding ptes_cut_def
proof (intro allI impI)
  fix x assume x: "user_page x"
  have m2: "pte_of root x m2 = pte_of root x m1" by (rule pte_of_mem [OF assms(2)])
  have ex: "(\<exists>t. covers (v # rest) x t) \<longleftrightarrow> inside x v \<or> (\<exists>t. covers rest x t)" by (simp only: covers_simps) blast
  show "pte_of root x m' = (if addr \<le> x \<and> x < e \<and> (\<exists>t. covers (v # rest) x t) then cleared (pte_of root x m) else pte_of root x m)"
    unfolding ex using assms(1) assms(3) [unfolded ptes_cut_def, rule_format, OF x] x m2 by auto
qed

lemma munmap_area:
  assumes ok: "areas_ok lowest root (w_m w) (dn @ v # rest)" and dn: "\<forall>x\<in>set dn. vm_end x \<le> addr"
    and r: "addr < e" "4096 dvd unat addr" "4096 dvd unat e" and o: "addr < vm_end v" "vm_start v < e"
    and IH: "\<And>dn w. areas_ok lowest root (w_m w) (dn @ rest) \<Longrightarrow> \<forall>x\<in>set dn. vm_end x \<le> addr \<Longrightarrow>
      \<exists>l w' lost. munmap_loop addr e root dn rest w = Some (l, w') \<and> areas_ok lowest root (w_m w') l \<and> w_mm w' = w_mm w
        \<and> cut addr e (dn @ rest) l lost \<and> ptes_cut root addr e rest (w_m w) (w_m w')"
  shows "\<exists>l w' lost. munmap_loop addr e root dn (v # rest) w = Some (l, w') \<and> areas_ok lowest root (w_m w') l \<and> w_mm w' = w_mm w
    \<and> cut addr e (dn @ v # rest) l lost \<and> ptes_cut root addr e (v # rest) (w_m w) (w_m w')"
proof -
  from ok have wf: "vm_wf lowest root (w_m w)" and vs: "vmas_ok (dn @ v # rest)"
    and nodes: "nodes_ok (m_heap (w_m w)) (dn @ v # rest)" and bounds: "bounds_ok (dn @ v # rest)" by (simp_all add: areas_ok_def)
  have rest: "vm_end v \<le> vm_start x" "vm_start x \<le> vm_end x" if "x \<in> set rest" for x using vs that vmas_okD by auto
  have before: "vm_end x \<le> vm_start v" "vm_start x \<le> vm_end x" if "x \<in> set dn" for x using vs that vmas_okD by auto
  have al: "4096 dvd unat (u_start addr v)" "unat (u_end e v) \<le> 2 ^ 47"
    using bounds r(2) by (auto simp: bounds_ok_def u_start_def u_end_def word_less_nat_alt)
  obtain w1 where w1: "unmap_pages root (u_start addr v) (u_end e v) w = Some w1" "vm_wf lowest root (w_m w1)"
    "m_heap (w_m w1) = m_heap (w_m w)" "w_mm w1 = w_mm w"
    "\<forall>x. user_page x \<longrightarrow> pte_of root x (w_m w1) = (if addr \<le> x \<and> x < e \<and> inside x v then cleared (pte_of root x (w_m w)) else pte_of root x (w_m w))"
    using unmap_pages_ok [OF wf al] unfolding overlap_iff same_rest_def by blast
  note step = ptes_cut_step [OF w1(5)] and eq = munmap_overlap [OF o w1(1)]
  have stop: "\<forall>x\<in>set rest. e \<le> vm_start x \<and> addr < vm_end x" if "e < vm_end v"
    using that rest o(1) by (auto intro: order_trans less_le_trans less_imp_le)
  have none: "ptes_cut root addr e rest m m" if "e < vm_end v" for m
    using stop [OF that] by (auto simp: ptes_cut_def covers_def inside_def)
  note ok1 = areas_ok_same [OF ok w1(2,3)]
  have left: "areas_ok lowest root (w_m w1) (dn @ v\<lparr>vm_end := addr\<rparr> # rest)" if "vm_start v < addr"
    using that bounds o r by (intro areas_ok_narrow [OF ok1]) (simp_all add: bounds_ok_def)
  have out: "inside a x \<Longrightarrow> x \<in> set dn \<Longrightarrow> \<not> addr \<le> a" "e < vm_end v \<Longrightarrow> inside a x \<Longrightarrow> x \<in> set rest \<Longrightarrow> vm_end v \<le> a" for a x
    using dn rest order_trans unfolding inside_def by (auto, blast)
  have tr: "e \<le> a \<Longrightarrow> vm_start v \<le> a" "e \<le> a \<Longrightarrow> addr \<le> a" "a < addr \<Longrightarrow> a < vm_end v" for a
    using o r(1) by (meson less_imp_le less_trans order_trans)+
  consider (full) "addr \<le> vm_start v" "vm_end v \<le> e" | (right) "vm_start v < addr" "vm_end v \<le> e"
    | (left) "addr \<le> vm_start v" "e < vm_end v" | (split) "vm_start v < addr" "e < vm_end v" by fastforce
  then show ?thesis
  proof cases
    case full
    have "live 5 (m_heap (w_m w1)) (vm_self v)" using nodes w1(3) by (simp add: nodes_ok_def)
    from drop_vma_ok [OF w1(2) this] obtain w2 where w2: "drop_vma v w1 = Some w2" "vm_wf lowest root (w_m w2)" "w_mm w2 = w_mm w1"
      "m_mem (w_m w2) = m_mem (w_m w1)" "\<forall>n x. live n (m_heap (w_m w2)) x \<longleftrightarrow> live n (m_heap (w_m w1)) x \<and> x \<noteq> vm_self v" by blast
    have "areas_ok lowest root (w_m w2) (dn @ rest)"
      using ok1 w2(2,5) by (auto simp: areas_ok_def nodes_ok_def bounds_ok_def)
    from IH [OF this dn] obtain l w' lost where l: "munmap_loop addr e root dn rest w2 = Some (l, w')" "areas_ok lowest root (w_m w') l"
      "w_mm w' = w_mm w2" "cut addr e (dn @ rest) l lost" "ptes_cut root addr e rest (w_m w2) (w_m w')" by blast
    have "cut addr e (dn @ rest) l None"
      by (rule cut_nothing_lost [OF l(4)]) (use dn rest r o in \<open>auto intro: order_trans less_imp_le\<close>)
    then have "cut addr e (dn @ v # rest) l None" using full by (auto simp: cut_def inside_def)
    with l w1 w2 eq(1) [OF full w2(1)] step [OF w2(4) l(5)] show ?thesis by (intro exI [of _ l] exI [of _ w'] exI [of _ None]) simp
  next
    case right
    have "areas_ok lowest root (w_m w1) ((dn @ [v\<lparr>vm_end := addr\<rparr>]) @ rest)" using left [OF right(1)] by simp
    from IH [OF this] dn obtain l w' lost where l: "munmap_loop addr e root (dn @ [v\<lparr>vm_end := addr\<rparr>]) rest w1 = Some (l, w')"
      "areas_ok lowest root (w_m w') l" "w_mm w' = w_mm w1" "cut addr e ((dn @ [v\<lparr>vm_end := addr\<rparr>]) @ rest) l lost"
      "ptes_cut root addr e rest (w_m w1) (w_m w')" by auto
    have "cut addr e ((dn @ [v\<lparr>vm_end := addr\<rparr>]) @ rest) l None"
      by (rule cut_nothing_lost [OF l(4)]) (use dn rest r o in \<open>auto intro: order_trans less_imp_le\<close>)
    then have "cut addr e (dn @ v # rest) l None" using right by (auto simp: cut_def inside_def tr)
    with l w1 eq(2) [OF right] step [OF refl l(5)] show ?thesis by (intro exI [of _ l] exI [of _ w'] exI [of _ None]) simp
  next
    case left
    let ?v = "v\<lparr>vm_start := e\<rparr>"
    have "areas_ok lowest root (w_m w1) (dn @ ?v # rest)" using left o r by (intro areas_ok_narrow [OF ok1]) simp_all
    moreover have "cut addr e (dn @ v # rest) (dn @ ?v # rest) None"
      using left out stop [OF left(2)] tr by (auto simp: cut_def covers_def inside_def)
    moreover have "munmap_loop addr e root dn (v # rest) w = Some (dn @ ?v # rest, w1)"
      using eq(3) [OF left] munmap_stop [OF stop [OF left(2)], of root "dn @ [?v]" w1] by simp
    ultimately show ?thesis using w1(4) step [OF refl none [OF left(2)]] by blast
  next
    case split
    let ?left = "v\<lparr>vm_end := addr\<rparr>"
    from new_node_ok [OF w1(2)] obtain p w2 where p: "w_kmalloc sizeof_vma w1 = Some (p, w2)" "vm_wf lowest root (w_m w2)" "w_mm w2 = w_mm w1"
      "m_mem (w_m w2) = m_mem (w_m w1)" "\<forall>n x. live n (m_heap (w_m w1)) x \<longrightarrow> live n (m_heap (w_m w2)) x"
      "p \<noteq> 0 \<longrightarrow> live 5 (m_heap (w_m w2)) p \<and> \<not> live 5 (m_heap (w_m w1)) p" by blast
    have ok2: "areas_ok lowest root (w_m w2) (dn @ ?left # rest)"
      using left [OF split(1)] p(2,5) by (auto simp: areas_ok_def nodes_ok_def)
    note stop' = munmap_stop [OF stop [OF split(2)]] and pt = step [OF p(4) none [OF split(2)]]
    show ?thesis
    proof (cases "p = 0")
      case True
      have "cut addr e (dn @ v # rest) (dn @ ?left # rest) (Some v)"
        using split out stop [OF split(2)] tr by (auto simp: cut_def covers_def inside_def) (meson leD)+
      moreover have "munmap_loop addr e root dn (v # rest) w = Some (dn @ ?left # rest, w2)"
        using eq(4) [OF split] p(1) True stop' by simp
      ultimately show ?thesis using ok2 pt p(3) w1(4) by (intro exI [of _ "dn @ ?left # rest"] exI [of _ w2] exI [of _ "Some v"]) simp
    next
      case False
      let ?right = "v\<lparr>vm_self := p, vm_start := e\<rparr>" and ?w = "node_get (vm_file v) w2"
      have m: "w_m ?w = w_m w2" "w_mm ?w = w_mm w2" by (simp_all add: node_get_def split: option.split)
      have cur: "insert_at_cursor ?right (dn @ [?left]) rest = (dn @ [?left, ?right], rest)"
      proof -
        have "\<not> e < vm_start x" if "x \<in> set dn" for x using before [OF that] o(2) by (meson leD le_less_trans less_imp_le not_less)
        moreover have "rest = [] \<or> e < vm_start (hd rest)" using rest [of "hd rest"] split(2) by (cases rest) (auto intro: less_le_trans)
        moreover have "\<not> e < vm_start v" using o(2) by simp
        ultimately show ?thesis by (auto simp: insert_at_cursor_def list_ex_iff)
      qed
      have "vm_end x \<le> e" if "x \<in> set dn" for x using before(1) [OF that] o(2) by (meson less_imp_le order_trans)
      then have "areas_ok lowest root (w_m ?w) (dn @ ?left # ?right # rest)"
        using ok2 False p(6) nodes w1(3) split r o rest bounds before
        by (auto simp: areas_ok_def nodes_ok_def bounds_ok_def m intro: less_imp_le order_trans)
      moreover have "cut addr e (dn @ v # rest) (dn @ ?left # ?right # rest) None"
        using split out stop [OF split(2)] tr by (auto simp: cut_def covers_def inside_def)
      moreover have "munmap_loop addr e root dn (v # rest) w = Some (dn @ ?left # ?right # rest, ?w)"
        using eq(5) [OF split p(1) False cur] stop' by simp
      ultimately show ?thesis using pt p(3) w1(4) by (intro exI [of _ "dn @ ?left # ?right # rest"] exI [of _ ?w] exI [of _ None]) (simp add: m)
    qed
  qed
qed

lemma munmap_loop_ok:
  assumes "areas_ok lowest root (w_m w) (dn @ rest)" "\<forall>x\<in>set dn. vm_end x \<le> addr"
    "addr < e" "4096 dvd unat addr" "4096 dvd unat e"
  shows "\<exists>l w' lost. munmap_loop addr e root dn rest w = Some (l, w') \<and> areas_ok lowest root (w_m w') l \<and> w_mm w' = w_mm w
    \<and> cut addr e (dn @ rest) l lost \<and> ptes_cut root addr e rest (w_m w) (w_m w')"
  using assms
proof (induction rest arbitrary: dn w)
  case Nil
  then show ?case by (intro exI [of _ dn] exI [of _ w] exI [of _ None]) (auto simp: cut_def ptes_cut_def covers_def inside_def)
next
  case (Cons v rest)
  from Cons.prems(1) have wf: "vm_wf lowest root (w_m w)" and ok: "vmas_ok (dn @ v # rest)"
    and nodes: "nodes_ok (m_heap (w_m w)) (dn @ v # rest)" and bounds: "bounds_ok (dn @ v # rest)" by (simp_all add: areas_ok_def)
  have rest: "vm_end v \<le> vm_start x" "vm_start x \<le> vm_end x" if "x \<in> set rest" for x using ok that vmas_okD by auto
  have before: "vm_end x \<le> vm_start v" "vm_start x \<le> vm_end x" if "x \<in> set dn" for x using ok that vmas_okD by auto
  have v: "vm_start v \<le> vm_end v" using ok by simp
  show ?case
  proof (cases "vm_end v \<le> addr")
    case True
    with Cons.IH [of w "dn @ [v]"] Cons.prems obtain l w' lost where
      l: "munmap_loop addr e root (dn @ [v]) rest w = Some (l, w')" "areas_ok lowest root (w_m w') l" "w_mm w' = w_mm w"
        "cut addr e ((dn @ [v]) @ rest) l lost" "ptes_cut root addr e rest (w_m w) (w_m w')" by auto
    moreover have "ptes_cut root addr e (v # rest) (w_m w) (w_m w')"
      using l(5) True by (auto simp: ptes_cut_def inside_def)
    ultimately show ?thesis using True
      by (intro exI [of _ l] exI [of _ w'] exI [of _ lost]) (simp add: munmap_loop.simps(2))
  next
    case high: False
    show ?thesis
    proof (cases "vm_start v \<ge> e")
      case True
      have "\<not> inside a x" if "x \<in> set (v # rest)" "a < e" for a x
        using that True v rest [of x] by (auto simp: inside_def)
      moreover have "\<not> inside a x" if "x \<in> set dn" "addr \<le> a" for a x using that Cons.prems(2) by (auto simp: inside_def)
      ultimately have "cut addr e (dn @ v # rest) (dn @ v # rest) None" "ptes_cut root addr e (v # rest) (w_m w) (w_m w)"
        by (auto simp: cut_def ptes_cut_def covers_def)
      then show ?thesis using high True Cons.prems(1)
        by (intro exI [of _ "dn @ v # rest"] exI [of _ w] exI [of _ None]) (simp add: munmap_loop.simps(2))
    next
      case False
      with high have "addr < vm_end v" "vm_start v < e" by simp_all
      from munmap_area [OF Cons.prems this Cons.IH [OF _ _ Cons.prems(3-5)]] show ?thesis by blast
    qed
  qed
qed

lemma align_bounds: "unat (PAGE_4K_ALIGN x) \<le> unat x + 4095" "4096 dvd unat (PAGE_4K_ALIGN x)"
proof -
  have eq: "unat (PAGE_4K_ALIGN x) = unat (x + PAGE_4K_SIZE - 1) - unat (x + PAGE_4K_SIZE - 1) mod 2 ^ 12"
    by (simp only: PAGE_4K_ALIGN_def mask_4K unat_and_not_mask)
  have "x + PAGE_4K_SIZE - 1 = x + 4095" by (simp add: PAGE_4K_SIZE_def)
  moreover have "unat (x + 4095) \<le> unat x + unat (4095 :: u64)" unfolding unat_word_ariths by (rule mod_less_eq_dividend)
  ultimately show "unat (PAGE_4K_ALIGN x) \<le> unat x + 4095" using eq by (simp only: unat_numeral) simp
  show "4096 dvd unat (PAGE_4K_ALIGN x)" using eq by (simp add: dvd_minus_mod)
qed


section \<open>mmap\<close>

lemma mmap_search_ok:
  fixes search len :: u64
  assumes "vmas_ok vs" "\<forall>v\<in>set vs. unat (vm_end v) \<le> 2 ^ 47" "unat search \<le> 2 ^ 47" "0 < unat len" "unat len < 2 ^ 63"
    "\<And>p. prev = Some p \<Longrightarrow> unat p \<le> 2 ^ 47 \<and> (\<forall>v\<in>set vs. p \<le> vm_start v)"
  defines "r \<equiv> max search (mmap_search search len prev vs)"
  shows "(\<forall>v\<in>set vs. vm_end v \<le> r \<or> unat r + unat len \<le> unat (vm_start v)) \<and> (\<forall>p. prev = Some p \<longrightarrow> p \<le> r)
    \<and> (r = search \<or> prev = Some r \<or> r \<in> vm_end ` set vs) \<and> unat r \<le> 2 ^ 47"
  unfolding r_def using assms(1-6)
proof (induction vs arbitrary: prev)
  case Nil
  then show ?case by (cases prev) (auto simp: max_def word_le_nat_alt)
next
  case (Cons v vs)
  let ?gap = "max search (case prev of None \<Rightarrow> search | Some p \<Rightarrow> p)"
  have gap: "unat ?gap \<le> 2 ^ 47" using Cons.prems(3,6) by (auto simp: max_def split: option.split)
  have "unat ?gap + unat len < 2 ^ LENGTH(64)" using gap Cons.prems(5) by simp
  then have sum: "unat (?gap + len) = unat ?gap + unat len" by (rule unat_add_small)
  have g: "(if (case prev of None \<Rightarrow> search | Some p \<Rightarrow> p) < search then search else (case prev of None \<Rightarrow> search | Some p \<Rightarrow> p)) = ?gap"
    by (auto simp: max_def)
  have eq: "mmap_search search len prev (v # vs) = (if ?gap + len \<le> vm_start v then ?gap else mmap_search search len (Some (vm_end v)) vs)"
    by (simp add: Let_def g)
  have later: "vm_end v \<le> vm_start x" "vm_start v \<le> vm_start x" if "x \<in> set vs" for x
    using Cons.prems(1) that by (auto intro: order_trans)
  show ?case
  proof (cases "?gap + len \<le> vm_start v")
    case True
    then have fit: "unat ?gap + unat len \<le> unat (vm_start v)" using sum by (simp add: word_le_nat_alt)
    have "unat ?gap + unat len \<le> unat (vm_start x)" if "x \<in> set (v # vs)" for x
      using fit later(2) [of x] that by (auto simp: word_le_nat_alt)
    then show ?thesis unfolding eq using True gap by (auto simp: max_def split: option.split)
  next
    case False
    have "unat (vm_end v) \<le> 2 ^ 47" using Cons.prems(2) by simp
    with Cons.IH [of "Some (vm_end v)"] Cons.prems later(1) have IH:
      "(\<forall>x\<in>set vs. vm_end x \<le> max search (mmap_search search len (Some (vm_end v)) vs)
          \<or> unat (max search (mmap_search search len (Some (vm_end v)) vs)) + unat len \<le> unat (vm_start x))
       \<and> vm_end v \<le> max search (mmap_search search len (Some (vm_end v)) vs)
       \<and> (max search (mmap_search search len (Some (vm_end v)) vs) = search
          \<or> vm_end v = max search (mmap_search search len (Some (vm_end v)) vs)
          \<or> max search (mmap_search search len (Some (vm_end v)) vs) \<in> vm_end ` set vs)
       \<and> unat (max search (mmap_search search len (Some (vm_end v)) vs)) \<le> 2 ^ 47" by auto
    moreover have "p \<le> vm_end v" if "prev = Some p" for p using Cons.prems(1,6) that by (auto intro: order_trans)
    ultimately show ?thesis unfolding eq using False by (auto intro: order_trans)
  qed
qed

text \<open>The fields that mmap relies on: the search base set by \<open>mm_alloc\<close> and a heap below its limit.\<close>

definition mm_ok :: "mm \<Rightarrow> bool" where
  "mm_ok mm \<longleftrightarrow> mmap_base mm = 0x40000000 \<and> mm_start_brk mm \<le> HEAP_LIMIT"

lemma above_window: "mm_ok mm \<Longrightarrow> 0x40000000 \<le> a \<Longrightarrow> \<not> mm_user_range_protected mm a e"
  by (auto simp: mm_user_range_protected_def mm_ok_def HEAP_LIMIT_def USER_CODE_ADDR_def USER_ENVELOPE_SIZE_def USER_STACK_BASE_def
      word_less_nat_alt word_le_nat_alt Let_def)

lemma mmap_auto_ok:
  assumes ok: "areas_ok lowest root m (vma_list mm)" and mm: "mm_ok mm" and len: "0 < unat len" "unat len < 2 ^ 63"
  shows "0x40000000 \<le> mmap_auto len mm" "unat (mmap_auto len mm) \<le> 2 ^ 47" "4096 dvd unat (mmap_auto len mm)"
    "v \<in> set (vma_list mm) \<Longrightarrow> vm_end v \<le> mmap_auto len mm \<or> unat (mmap_auto len mm) + unat len \<le> unat (vm_start v)"
proof -
  let ?vs = "vma_list mm" and ?r = "max 0x40000000 (mmap_search 0x40000000 len None (vma_list mm))"
  from ok have vs: "vmas_ok ?vs" "bounds_ok ?vs" by (simp_all add: areas_ok_def)
  have "unat (0x40000000 :: u64) \<le> 2 ^ 47" by simp
  note S = mmap_search_ok [OF vs(1) _ this len, of None]
  have b: "\<forall>v\<in>set ?vs. unat (vm_end v) \<le> 2 ^ 47" using vs(2) by (simp add: bounds_ok_def)
  have "(if mmap_search 0x40000000 len None ?vs < 0x40000000 then 0x40000000 else mmap_search 0x40000000 len None ?vs) = ?r"
    by (auto simp: max_def)
  moreover have ge: "0x40000000 \<le> ?r" by simp
  ultimately have eq: "mmap_auto len mm = ?r"
    using mm above_window [OF mm ge] by (simp add: mmap_auto_def mm_ok_def Let_def)
  show "0x40000000 \<le> mmap_auto len mm" "unat (mmap_auto len mm) \<le> 2 ^ 47"
    "v \<in> set ?vs \<Longrightarrow> vm_end v \<le> mmap_auto len mm \<or> unat (mmap_auto len mm) + unat len \<le> unat (vm_start v)"
    unfolding eq using ge S b by simp_all
  have "?r = 0x40000000 \<or> ?r \<in> vm_end ` set ?vs" using S b by simp
  then show "4096 dvd unat (mmap_auto len mm)"
  proof
    assume "?r \<in> vm_end ` set ?vs"
    then obtain v where v: "v \<in> set ?vs" "?r = vm_end v" by auto
    with ge have "\<not> vm_end v < 0x40000000" by simp
    with v vs(2) show ?thesis unfolding eq by (auto simp: bounds_ok_def)
  qed (simp add: eq)
qed

text \<open>
  C27. An \<open>mmap\<close> that lets the kernel choose the address, of anonymous memory or of a file
  without a device handler, always returns on a well-formed address space. On success the new
  area is page aligned, lies above the mmap base and below the address limit, overlaps no area
  and not the reserved window; the list stays sorted and covers exactly the old addresses and
  the new range with the requested attributes. On failure the list is unchanged. No page table
  entry changes in either case.
\<close>

theorem mmap_places:
  fixes w :: world
  defines "root \<equiv> user_pgd w" and "vs \<equiv> vma_list (w_mm w)"
  assumes ok: "areas_ok lowest root (w_m w) vs" and mm: "mm_ok (w_mm w)"
    and flags: "flags AND MAP_FIXED = 0" and nohandler: "\<forall>n. flags AND MAP_ANONYMOUS = 0 \<and> fd_node fd = Some n \<longrightarrow> dev n = None"
    and len: "unat length0 \<le> 2 ^ 62" and limit: "unat addr_limit \<le> 2 ^ 47"
  shows "\<exists>r w'. do_mmap fd_node dev addr_limit addr0 length0 prot flags fd offset w = Some (r, w')
    \<and> areas_ok lowest root (w_m w') (vma_list (w_mm w')) \<and> (\<forall>x. pte_of root x (w_m w') = pte_of root x (w_m w))
    \<and> (case r of Inl _ \<Rightarrow> vma_list (w_mm w') = vs
       | Inr addr \<Rightarrow> let l = PAGE_4K_ALIGN length0 in
           4096 dvd unat addr \<and> mmap_base (w_mm w) \<le> addr \<and> unat addr + unat l \<le> unat addr_limit
           \<and> \<not> mm_user_range_protected (w_mm w) addr (addr + l)
           \<and> (\<forall>a t. addr \<le> a \<and> a < addr + l \<longrightarrow> \<not> covers vs a t)
           \<and> (\<exists>page_prot base. prot_to_page_flags (ucast prot) = Inr (page_prot, base)
              \<and> (\<forall>a t. covers (vma_list (w_mm w')) a t \<longleftrightarrow> covers vs a t \<or> addr \<le> a \<and> a < addr + l
                  \<and> t = (map_flags_to_vm flags base, page_prot, drop_bit 12 offset,
                         if flags AND MAP_ANONYMOUS = 0 then fd_node fd else None))))"
proof (cases "mmap_check fd_node addr_limit addr0 length0 flags fd offset (w_mm w)")
  case (Some err)
  then show ?thesis using ok by (simp add: do_mmap_def vs_def)
next
  case check: None
  let ?l = "PAGE_4K_ALIGN length0" and ?a = "mmap_auto (PAGE_4K_ALIGN length0) (w_mm w)"
    and ?f = "if flags AND MAP_ANONYMOUS = 0 then fd_node fd else None"
  have "?l \<noteq> 0" using check by (auto simp: mmap_check_def Let_def split: if_splits)
  then have l: "0 < unat ?l" "unat ?l < 2 ^ 63" using align_bounds(1) [of length0] len by (simp_all add: unat_gt_0)
  note A = mmap_auto_ok [OF ok [unfolded vs_def] mm l]
  have "unat ?a + unat ?l < 2 ^ LENGTH(64)" using A(2) l(2) by simp
  then have sum: "unat (?a + ?l) = unat ?a + unat ?l" by (rule unat_add_small)
  show ?thesis
  proof (cases "?a + ?l > addr_limit \<or> ?a \<ge> addr_limit \<or> (\<exists>err. prot_to_page_flags (ucast prot) = Inl err)")
    case True
    then show ?thesis using ok flags check
      by (auto simp: do_mmap_def mmap_place_def vs_def Let_def split: sum.split)
  next
    case False
    then obtain page_prot base where prot: "prot_to_page_flags (ucast prot) = Inr (page_prot, base)" "?a + ?l \<le> addr_limit"
      by (cases "prot_to_page_flags (ucast prot)") auto
    from prot(2) sum have fit: "unat ?a + unat ?l \<le> unat addr_limit" by (simp add: word_le_nat_alt)
    let ?w = "node_get ?f w"
    have m: "w_m ?w = w_m w" "w_mm ?w = w_mm w" "w_m (node_put ?f x) = w_m x" "w_mm (node_put ?f x) = w_mm x" for x
      by (simp_all add: node_get_def node_put_def split: option.split)
    have nodev: "Option.bind ?f dev = None" using nohandler by (cases "fd_node fd") auto
    have wf: "vm_wf lowest root (w_m ?w)" using ok m by (simp add: areas_ok_def)
    from new_node_ok [OF wf] obtain p w2 where p: "w_kmalloc sizeof_vma ?w = Some (p, w2)" "vm_wf lowest root (w_m w2)" "w_mm w2 = w_mm ?w"
      "m_mem (w_m w2) = m_mem (w_m ?w)" "\<forall>n x. live n (m_heap (w_m ?w)) x \<longrightarrow> live n (m_heap (w_m w2)) x"
      "p \<noteq> 0 \<longrightarrow> live 5 (m_heap (w_m w2)) p \<and> \<not> live 5 (m_heap (w_m ?w)) p" by blast
    let ?v = "\<lparr>vm_self = p, vm_start = ?a, vm_end = ?a + ?l, vm_flags = map_flags_to_vm flags base, vm_page_prot = page_prot,
      vm_pgoff = drop_bit 12 offset, vm_file = ?f\<rparr>"
    have run: "do_mmap fd_node dev addr_limit addr0 length0 prot flags fd offset w =
        Some (if p = 0 then (Inl ENOMEM, node_put ?f w2) else (Inr ?a, upd_vmas (vma_insert ?v) w2))"
      using check flags False prot nodev p(1) by (simp add: do_mmap_def mmap_place_def mmap_install_def Let_def)
    have pte: "pte_of root x (w_m w2) = pte_of root x (w_m w)" for x using pte_of_mem [OF p(4)] m(1) by simp
    have ok2: "areas_ok lowest root (w_m w2) vs" using ok p(2,5) m(1) by (auto simp: areas_ok_def nodes_ok_def)
    have disj: "vm_end v \<le> ?a \<or> ?a + ?l \<le> vm_start v \<and> ?a < vm_start v" if "v \<in> set vs" for v
      using A(4) [of v] that sum l(1) by (auto simp: vs_def word_le_nat_alt word_less_nat_alt)
    show ?thesis
    proof (cases "p = 0")
      case True
      then show ?thesis using run ok2 p(3) m pte by (simp add: vs_def)
    next
      case new: False
      let ?vs = "vma_insert ?v vs"
      have "?a \<le> ?a + ?l" using sum by (simp add: word_le_nat_alt)
      then have "vmas_ok ?vs" using ok2 disj by (intro vma_insert_ok) (simp_all add: areas_ok_def)
      moreover have "nodes_ok (m_heap (w_m w2)) ?vs"
        using ok2 ok p(6) m(1) new by (auto simp: areas_ok_def nodes_ok_def intro!: vma_insert_map_set)
      moreover have "bounds_ok ?vs" using ok2 A(3) sum fit limit align_bounds(2) [of length0] by (simp add: areas_ok_def bounds_ok_def)
      ultimately have ok3: "areas_ok lowest root (w_m w2) ?vs" using ok2 by (simp add: areas_ok_def)
      have free: "\<not> covers vs a t" if "?a \<le> a" "a < ?a + ?l" for a t
        using disj that by (fastforce simp: covers_def inside_def)
      have "mmap_base (w_mm w) \<le> ?a" using A(1) mm by (simp add: mm_ok_def)
      moreover have "\<not> mm_user_range_protected (w_mm w) ?a (?a + ?l)" using above_window [OF mm A(1)] .
      moreover have "vma_list (w_mm (upd_vmas (vma_insert ?v) w2)) = ?vs" "w_m (upd_vmas (vma_insert ?v) w2) = w_m w2"
        using p(3) m(2) by (simp_all add: upd_vmas_def vs_def)
      moreover have "covers ?vs a t \<longleftrightarrow> covers vs a t \<or> ?a \<le> a \<and> a < ?a + ?l
          \<and> t = (map_flags_to_vm flags base, page_prot, drop_bit 12 offset, ?f)" for a t
        by (auto simp: inside_def attrs_def)
      ultimately show ?thesis unfolding run Let_def using new ok3 pte A(3) fit free prot(1) by auto
    qed
  qed
qed

section \<open>A space to run them on\<close>

definition demo_mm :: "vma list \<Rightarrow> mm" where
  "demo_mm vs = \<lparr>mm_pgdir = 0x1000000, mm_start_brk = 0x600000, mm_end_brk = 0x600000, vma_list = vs, mmap_base = 0x40000000\<rparr>"

definition demo_world :: "vma list \<Rightarrow> machine \<Rightarrow> world" where
  "demo_world vs m = \<lparr>w_m = m, w_mm = demo_mm vs, w_refs = (\<lambda>_. 1), w_data = (\<lambda>_ _. 0x5a)\<rparr>"

definition demo_area :: "u64 \<Rightarrow> vma" where
  "demo_area p = \<lparr>vm_self = p, vm_start = 0x40000000, vm_end = 0x40003000, vm_flags = 0x23, vm_page_prot = 7, vm_pgoff = 0, vm_file = None\<rparr>"

lemma demo_world_simps [simp]:
  "w_m (demo_world vs m) = m" "w_mm (demo_world vs m) = demo_mm vs" "vma_list (demo_mm vs) = vs" "mm_ok (demo_mm vs)"
  "user_pgd (demo_world vs m) = 0xffff800001000000" "mmap_base (demo_mm vs) = 0x40000000"
  by (simp_all add: demo_world_def demo_mm_def mm_ok_def user_pgd_def HEAP_LIMIT_def USER_CODE_ADDR_def USER_ENVELOPE_SIZE_def
      Phy_To_Virt_def PAGE_OFFSET_def)

lemma demo_areas:
  obtains m p where "areas_ok 0x200000 0xffff800001000000 m [demo_area p]"
proof (rule demo_space)
  fix m assume m: "vmm_alloc_map demo_vm = Some (0xffff800001000000, m)" "vm_wf 0x200000 0xffff800001000000 m"
  let ?w = "demo_world [] m"
  from new_node_ok [of "0x200000" "0xffff800001000000" ?w] m(2) obtain p w where p: "w_kmalloc sizeof_vma ?w = Some (p, w)"
    "vm_wf 0x200000 0xffff800001000000 (w_m w)" "p \<noteq> 0 \<longrightarrow> live 5 (m_heap (w_m w)) p" by auto
  have "map_option (\<lambda>(_, m). map_option (\<lambda>x. fst x = 0) (w_kmalloc sizeof_vma (demo_world [] m))) (vmm_alloc_map demo_vm) = Some (Some False)"
    by code_simp
  with m(1) p have "areas_ok 0x200000 0xffff800001000000 (w_m w) [demo_area p]"
    by (simp add: areas_ok_def nodes_ok_def bounds_ok_def demo_area_def)
  then show ?thesis by (rule that)
qed


theorem mmap_places_witness:
  "\<exists>w w'. do_mmap (\<lambda>_. None) (\<lambda>_. None) 0x7ffffffff000 0 0x2800 3 0x22 (- 1) 0 w = Some (Inr 0x40000000, w')
     \<and> vma_list (w_mm w) = [] \<and> covers (vma_list (w_mm w')) 0x40002fff (0x23, 0x7, 0, None)"
proof (rule demo_space)
  fix m assume m: "vmm_alloc_map demo_vm = Some (0xffff800001000000, m)" "vm_wf 0x200000 0xffff800001000000 m"
  let ?w = "demo_world [] m" and ?f = "\<lambda>_. None"
  have c: "PAGE_4K_ALIGN 0x2800 = 0x3000" "prot_to_page_flags (ucast (3 :: u64)) = Inr (0x7, 3)" "map_flags_to_vm 0x22 3 = 0x23"
    "0x22 AND MAP_FIXED = 0" "0x22 AND MAP_ANONYMOUS \<noteq> 0" by code_simp+
  have ok: "areas_ok 0x200000 0xffff800001000000 m []" using m(2) by (simp add: areas_ok_def nodes_ok_def bounds_ok_def)
  have "map_option (\<lambda>(_, m). map_option fst (do_mmap ?f ?f 0x7ffffffff000 0 0x2800 3 0x22 (- 1) 0 (demo_world [] m))) (vmm_alloc_map demo_vm)
      = Some (Some (Inr 0x40000000))" by code_simp
  then obtain w' where w': "do_mmap ?f ?f 0x7ffffffff000 0 0x2800 3 0x22 (- 1) 0 ?w = Some (Inr 0x40000000, w')" using m(1) by auto
  have "covers (vma_list (w_mm w')) 0x40002fff (0x23, 0x7, 0, None)"
    using mmap_places [of "0x200000" ?w "0x22" ?f "- 1" ?f "0x2800" "0x7ffffffff000" 0 3 0] ok c w' by auto
  with w' show ?thesis by (intro exI [of _ ?w] exI [of _ w']) simp
qed

end
