(* ===== verification/Machine.thy ===== *)
theory Machine
  imports Areas
begin

text \<open>
  The invariant of the kernel heap, the page tables and the pools of 4 KiB pages together, and how
  each allocation and release keeps it. The three share one frame allocator; the frames of the
  pools are in use and belong to no slab.
\<close>

section \<open>The invariant\<close>

definition pool_frames :: "machine \<Rightarrow> bool" where
  "pool_frames m \<longleftrightarrow> (\<forall>p\<in>set (m_pools m). \<exists>pg. spare (m_heap m) pg \<and> base_phys p = phy_address (pages_struct (sl_frames (m_heap m)) pg))"

definition mach_ok :: "u64 \<Rightarrow> u64 \<Rightarrow> machine \<Rightarrow> bool" where
  "mach_ok lowest root m \<longleftrightarrow> vm_wf lowest root m \<and> sp_wf lowest (subs m) \<and> pool_frames m"

lemma subs_simps [simp]: "pools (subs m) = m_pools m" "frame_mgr (subs m) = sl_frames (m_heap m)"
  "subs m\<lparr>pools := m_pools m\<rparr> = subs m"
  by (simp_all add: subs_def)

lemma set_subs_simps [simp]:
  "m_mem (set_subs s m) = m_mem m" "m_pools (set_subs s m) = pools s" "m_heap (set_subs s m) = (m_heap m)\<lparr>sl_frames := frame_mgr s\<rparr>"
  "m_junk (set_subs s m) = m_junk m" "set_subs (subs m) m = m"
  by (simp_all add: set_subs_def subs_def)

lemma paged_frames [simp]: "paged (h\<lparr>sl_frames := f\<rparr>) = paged h"
  by (simp add: fun_eq_iff paged_def)

text \<open>A change of heap and tables that leaves the frames of others alone.\<close>

lemma mach_ok_heap:
  assumes ok: "mach_ok lowest root m" and wf: "vm_wf lowest root m'" and p: "m_pools m' = m_pools m"
    and k: "keeps_frames (m_heap m) (m_heap m')"
  shows "mach_ok lowest root m'"
proof -
  let ?f = "sl_frames (m_heap m)" and ?f' = "sl_frames (m_heap m')"
  from k have g: "same_geom ?f ?f'" and s: "\<And>pg. spare (m_heap m) pg \<Longrightarrow> spare (m_heap m') pg" by (auto simp: keeps_frames_def)
  have pf: "pool_frames m'" using ok s p unfolding mach_ok_def pool_frames_def same_geomD [OF g] by metis
  have "pmm_wf ?f'" using wf by (simp add: vm_wf_def slabs_wf_def heap_frames_def)
  moreover have "pool_ok ?f' q" if "q \<in> set (m_pools m)" for q
  proof -
    have "pool_ok ?f q" using ok that by (simp add: mach_ok_def sp_wf_def list_all_iff)
    moreover from pf that p obtain pg where "spare (m_heap m') pg" "base_phys q = phy_address (pages_struct ?f' pg)"
      by (auto simp: pool_frames_def)
    ultimately show ?thesis by (auto simp: pool_ok_def list_ex_iff spare_def)
  qed
  ultimately have "sp_wf lowest (subs m')"
    using ok p linear_frames_geom [OF g, of lowest] by (simp add: mach_ok_def sp_wf_def list_all_iff)
  with wf pf show ?thesis by (simp add: mach_ok_def)
qed

lemma mach_ok_mem: "mach_ok lowest root m \<Longrightarrow> vm_wf lowest root (store a x m) \<Longrightarrow> mach_ok lowest root (store a x m)"
  by (erule mach_ok_heap) (simp_all add: store_def)

text \<open>A change of the pools that leaves the frames alone.\<close>

lemma mach_ok_pools:
  assumes ok: "mach_ok lowest root m" and wf: "sp_wf lowest s" and f: "frame_mgr s = sl_frames (m_heap m)"
    and b: "base_phys ` set (pools s) \<subseteq> base_phys ` set (m_pools m)"
  shows "mach_ok lowest root (set_subs s m)"
proof -
  have h: "(m_heap m)\<lparr>sl_frames := frame_mgr s\<rparr> = m_heap m" by (simp add: f)
  have "\<exists>pg. spare (m_heap m) pg \<and> base_phys q = phy_address (pages_struct (sl_frames (m_heap m)) pg)" if "q \<in> set (pools s)" for q
  proof -
    from b that have "base_phys q \<in> base_phys ` set (m_pools m)" by blast
    then obtain p where "p \<in> set (m_pools m)" "base_phys q = base_phys p" by auto
    with ok show ?thesis by (simp add: mach_ok_def pool_frames_def)
  qed
  then have "pool_frames (set_subs s m)" by (simp add: pool_frames_def f)
  with ok wf show ?thesis by (simp add: mach_ok_def vm_wf_def h)
qed

section \<open>Allocating a page\<close>

lemma refs_other_slot:
  assumes d: "distinct (map base_phys (xs @ p # ys))" "\<forall>q\<in>set (xs @ p # ys). pool_room q"
    and q: "page_used (xs @ p # ys) phys" "phys \<noteq> slot_addr p slot" "slot < 512"
  shows "page_cow_refs phys (s\<lparr>pools := xs @ pool_take slot p # ys\<rparr>) = page_cow_refs phys (s\<lparr>pools := xs @ p # ys\<rparr>)"
proof -
  from q(1) obtain x k where x: "x \<in> set (xs @ p # ys)" "k < 512" "phys = slot_addr x k" by (auto simp: page_used_def)
  have room: "pool_room x" using d(2) x(1) by blast
  note A = slot_addr_props [OF room x(2), folded x(3)]
  let ?x = "if x = p then pool_take slot p else x"
  have d': "distinct (map base_phys (xs @ pool_take slot p # ys))" "\<forall>q\<in>set (xs @ pool_take slot p # ys). pool_room q"
    using d by (auto simp: pool_room_def)
  have f: "find_pool_locked phys (xs @ p # ys) = Some x" using pool_list(1) [OF d x(1) A(1)] .
  have "?x \<in> set (xs @ pool_take slot p # ys)" "pool_has phys ?x" using x(1) A(1) by (auto simp: pool_has_def)
  from pool_list(1) [OF d' this] have f': "find_pool_locked phys (xs @ pool_take slot p # ys) = Some ?x" .
  have "slot_of phys p = slot \<Longrightarrow> x \<noteq> p" using A(2) x(3) q(2) by auto
  then show ?thesis using f f' by (auto simp: page_cow_refs_def slot_of_def)
qed

lemma refs_new_pool:
  assumes d: "distinct (map base_phys (n # ps))" "\<forall>q\<in>set (n # ps). pool_room q" and q: "page_used ps phys"
  shows "page_cow_refs phys (s\<lparr>pools := n # ps\<rparr>) = page_cow_refs phys (s\<lparr>pools := ps\<rparr>)"
proof -
  from q obtain x k where x: "x \<in> set ps" "k < 512" "phys = slot_addr x k" by (auto simp: page_used_def)
  have room: "pool_room x" using d(2) x(1) by simp
  have "\<not> pool_has phys n"
    using pool_has_unique [OF _ room _ slot_addr_props(1) [OF room x(2)], folded x(3)] d x(1) by auto
  then show ?thesis by (simp add: page_cow_refs_def)
qed

text \<open>A frame taken for another use.\<close>

lemma taken_frame:
  assumes wf: "slabs_wf lowest h" and m: "pmm_wf m" "same_geom (sl_frames h) m" "\<not> bm_test (bits_map (sl_frames h)) pg"
    "pg < unat (pages_size (sl_frames h))" "zone_struct (pages_struct (sl_frames h) pg) \<noteq> None"
    "bm_test (bits_map m) = (bm_test (bits_map (sl_frames h)))(pg := True)"
  shows "slabs_wf lowest (h\<lparr>sl_frames := m\<rparr>)" "keeps_frames h (h\<lparr>sl_frames := m\<rparr>)" "spare (h\<lparr>sl_frames := m\<rparr>) pg"
proof -
  note D = slabs_wfD(5) [OF wf] and G = same_geomD [OF m(2)]
  show "slabs_wf lowest (h\<lparr>sl_frames := m\<rparr>)"
    by (rule slabs_wf_frames [OF wf m(1,2)]) (use D m(6) in \<open>simp add: frame_ok_def\<close>)
  have u: "unowned (h\<lparr>sl_frames := m\<rparr>) = unowned h" by (simp add: fun_eq_iff unowned_def active_def)
  show "keeps_frames h (h\<lparr>sl_frames := m\<rparr>)" using m(2,6) by (simp add: keeps_frames_def spare_def u G)
  have "unowned h pg" using D m(3) by (auto simp: unowned_def frame_ok_def)
  then show "spare (h\<lparr>sl_frames := m\<rparr>) pg" using m(4-6) by (simp add: spare_def u G)
qed

lemma alloc_page_ok:
  assumes ok: "mach_ok lowest root m"
  shows "\<exists>phys s. alloc_4k_page (m_junk m) (subs m) = Some (phys, s) \<and> mach_ok lowest root (set_subs s m)
    \<and> keeps_frames (m_heap m) (m_heap (set_subs s m)) \<and> (phys = 0 \<longrightarrow> s = subs m)
    \<and> (phys \<noteq> 0 \<longrightarrow> \<not> page_used (m_pools m) phys \<and> page_cow_refs phys s = 0
        \<and> (\<forall>q. page_used (pools s) q \<longleftrightarrow> q = phys \<or> page_used (m_pools m) q)
        \<and> (\<forall>q. page_used (m_pools m) q \<longrightarrow> page_cow_refs q s = page_cow_refs q (subs m)))"
proof -
  from ok have wf: "sp_wf lowest (subs m)" and vm: "vm_wf lowest root m" by (simp_all add: mach_ok_def)
  note P = sp_wf_pools [OF wf]
  show ?thesis
  proof (cases "alloc_in_pools (m_pools m)")
    case (Some r)
    then obtain phys ps where r: "alloc_in_pools (pools (subs m)) = Some (phys, ps)" by (cases r) auto
    let ?s = "subs m\<lparr>pools := ps\<rparr>"
    note a = alloc_old_pool [OF wf r]
    from r obtain xs p ys slot where ps: "pools (subs m) = xs @ p # ys" "ps = xs @ pool_take slot p # ys"
      "phys = slot_addr p slot" "pool_free_slot p = Some slot" by (rule alloc_in_pools_Some)
    have "page_cow_refs q ?s = page_cow_refs q (subs m)" if q: "page_used (m_pools m) q" for q
    proof -
      have "q \<noteq> slot_addr p slot" using a q ps(3) by auto
      from refs_other_slot [OF P(1,2) [unfolded ps(1)] _ this, of "subs m"] q show ?thesis
        using pool_free_slot_Some(1) [OF ps(4)] ps(1) by (simp add: ps(2) flip: ps(1))
    qed
    moreover have m: "mach_ok lowest root (set_subs ?s m)"
      by (rule mach_ok_pools [OF ok]) (use a ps in auto)
    moreover have "m_heap (set_subs ?s m) = m_heap m" by simp
    ultimately show ?thesis using a r by (simp add: alloc_4k_page_def)
  next
    case None
    let ?h = "m_heap m"
    from vm have h: "slabs_wf lowest ?h" "tables_ok (paged ?h) (m_mem m) root" by (simp_all add: vm_wf_def)
    then have "pmm_wf (sl_frames ?h)" by (simp add: slabs_wf_def heap_frames_def)
    from alloc_normal [OF this] obtain r f where f: "alloc_pages ZONE_NORMAL 1 (sl_frames ?h) = Some (r, f)" "pmm_wf f" "same_geom (sl_frames ?h) f"
      "case r of None \<Rightarrow> f = sl_frames ?h | Some p \<Rightarrow> p < unat (pages_size (sl_frames ?h)) \<and> zone_struct (pages_struct (sl_frames ?h) p) \<noteq> None
         \<and> \<not> bm_test (bits_map (sl_frames ?h)) p \<and> bm_test (bits_map f) = (bm_test (bits_map (sl_frames ?h)))(p := True)" by blast
    show ?thesis
    proof (cases r)
      case r: None
      with f(4) have "subs m\<lparr>frame_mgr := f\<rparr> = subs m" by (simp add: subs_def)
      with None r f(1) ok show ?thesis by (simp add: alloc_4k_page_def)
    next
      case (Some pg)
      let ?base = "phy_address (pages_struct f pg)"
      let ?s = "subs m\<lparr>pools := new_pool ?base (m_junk m ?base) # m_pools m, frame_mgr := f\<rparr>"
      have T: "slabs_wf lowest (?h\<lparr>sl_frames := f\<rparr>)" "keeps_frames ?h (?h\<lparr>sl_frames := f\<rparr>)" "spare (?h\<lparr>sl_frames := f\<rparr>) pg"
        by (rule taken_frame [OF h(1) f(2,3)]; use f(4) Some in simp)+
      note a = alloc_new_pool [OF wf f(1) [unfolded Some, folded subs_simps(2)], of "m_junk m"]
      have "vm_wf lowest root (set_subs ?s m)" using vm T(1) by (simp add: vm_wf_def)
      moreover have "pool_frames (set_subs ?s m)"
        using ok T(2,3) unfolding mach_ok_def pool_frames_def keeps_frames_def
        by (simp add: new_pool_def same_geomD [OF f(3)]) metis
      ultimately have "mach_ok lowest root (set_subs ?s m)" using a by (simp add: mach_ok_def)
      moreover have "page_cow_refs q ?s = page_cow_refs q (subs m)" if "page_used (m_pools m) q" for q
        using refs_new_pool [of _ "m_pools m" q "subs m\<lparr>frame_mgr := f\<rparr>"] that sp_wf_pools [of lowest ?s] a
        by (simp add: page_cow_refs_def)
      ultimately show ?thesis using None Some f(1) a T(2) by (simp add: alloc_4k_page_def Let_def)
    qed
  qed
qed

section \<open>The other operations\<close>

lemma walk_step_frames:
  assumes "slabs_wf lowest (m_heap m)" "\<not> kmalloc_creating (m_heap m)" "walk_step t i fl b m = Some (r, m')"
  shows "slabs_wf lowest (m_heap m') \<and> \<not> kmalloc_creating (m_heap m') \<and> keeps_frames (m_heap m) (m_heap m')"
  using assms kmalloc_addresses(1,2,5) [OF assms(1,2)]
  by (auto simp: walk_step_def calloc_def store_def Let_def split: if_splits option.splits)

lemma and_then_inv:
  assumes "and_then r f = Some (x, m)" "\<And>p m1. r = Some (p, m1) \<Longrightarrow> Q m1" "\<And>t m1. Q m1 \<Longrightarrow> f t m1 = Some (x, m) \<Longrightarrow> Q m"
  shows "Q m"
  using assms by (auto simp: and_then_def bind_eq_Some_conv split: option.splits)

lemma walk_frames:
  assumes wf: "slabs_wf lowest (m_heap m)" "\<not> kmalloc_creating (m_heap m)" and run: "vmm_pt_walk root virt fl b m = Some (r, m')"
  shows "keeps_frames (m_heap m) (m_heap m')"
proof -
  let ?Q = "\<lambda>m1. slabs_wf lowest (m_heap m1) \<and> \<not> kmalloc_creating (m_heap m1) \<and> keeps_frames (m_heap m) (m_heap m1)"
  have step: "?Q m2" if "walk_step t i f b m1 = Some (q, m2)" "?Q m1" for m1 m2 t i f q
    using walk_step_frames [OF _ _ that(1)] that(2) keeps_frames_trans by blast
  have "?Q m'" if low: "\<not> 256 \<le> pt_index 39 virt"
    using run low unfolding vmm_pt_walk_def Let_def
    by (simp only: if_False) (erule and_then_inv, erule step, use wf in simp,
      erule and_then_inv, erule step, assumption, auto split: if_splits elim!: and_then_inv dest: step)
  then show ?thesis using run by (cases "256 \<le> pt_index 39 virt") (simp_all add: vmm_pt_walk_def)
qed

lemma map_page_ok:
  assumes ok: "mach_ok lowest root m" and run: "vmm_map_4k_page root phys virt flags m = Some (r, m')"
  shows "mach_ok lowest root m' \<and> m_pools m' = m_pools m \<and>
    (\<forall>v. pte_of root v m' = (if r = Inr () \<and> same_page v virt then (phys AND PAGE_4K_MASK) OR (flags AND NOT PAGE_4K_MASK)
       else pte_of root v m)) \<and> (r = Inr () \<or> r = Inl ENOMEM)"
proof -
  from ok have wf: "vm_wf lowest root m" by (simp add: mach_ok_def)
  note M = map_4k_cases [OF wf run [unfolded vmm_map_4k_page_def]]
  from run obtain a m1 where w: "vmm_pt_walk root virt flags True m = Some (a, m1)" "m_heap m' = m_heap m1"
    by (auto simp: vmm_map_4k_page_def x86_vmm_map_4k_page_def store_def split: option.splits)
  have "keeps_frames (m_heap m) (m_heap m')" using walk_frames [OF _ _ w(1), of lowest] wf w(2) by (simp add: vm_wf_def)
  with M mach_ok_heap [OF ok] show ?thesis by blast
qed

lemma upd_pool_bases: "(\<And>p. base_phys (f p) = base_phys p) \<Longrightarrow> map base_phys (upd_pool phys f ps) = map base_phys ps"
  by (induction ps) simp_all

lemma pool_bases:
  "map base_phys (pools (snd (page_cow_put phys s))) = map base_phys (pools s)"
  "map base_phys (pools (page_cow_get phys s)) = map base_phys (pools s)"
  "map base_phys (pools (free_4k_page phys s)) = map base_phys (pools s)"
  by (auto simp: page_cow_put_def page_cow_get_def free_4k_page_def pool_release_def Let_def
      intro!: upd_pool_bases split: option.split)

lemma same_bases: "map base_phys ps = map base_phys qs \<Longrightarrow> base_phys ` set ps \<subseteq> base_phys ` set qs"
  by (simp only: flip: set_map)

lemma cow_put_ok:
  assumes ok: "mach_ok lowest root m" and u: "page_used (m_pools m) phys"
  shows "\<exists>s. page_cow_put phys (subs m) = (page_cow_refs phys (subs m) = 1, s) \<and> mach_ok lowest root (set_subs s m)
    \<and> frame_mgr s = sl_frames (m_heap m) \<and> (\<forall>q. page_used (pools s) q \<longleftrightarrow> page_used (m_pools m) q)
    \<and> page_cow_refs phys s = (if page_cow_refs phys (subs m) = 0 then 0 else page_cow_refs phys (subs m) - 1)
    \<and> (\<forall>q. page_used (m_pools m) q \<and> q \<noteq> phys \<longrightarrow> page_cow_refs q s = page_cow_refs q (subs m))"
proof -
  from ok have wf: "sp_wf lowest (subs m)" by (simp add: mach_ok_def)
  obtain s where s: "page_cow_put phys (subs m) = (page_cow_refs phys (subs m) = 1, s)" "sp_wf lowest s"
    "page_cow_refs phys s = (if page_cow_refs phys (subs m) = 0 then 0 else page_cow_refs phys (subs m) - 1)"
    "\<And>q. page_used (pools (subs m)) q \<Longrightarrow> q \<noteq> phys \<Longrightarrow> page_cow_refs q s = page_cow_refs q (subs m)"
    "\<And>q. page_used (pools s) q \<longleftrightarrow> page_used (pools (subs m)) q" "frame_mgr s = frame_mgr (subs m)"
    by (rule cow_put_used [OF wf, of phys]) (use u in simp_all)
  have "base_phys ` set (pools s) \<subseteq> base_phys ` set (m_pools m)"
    using pool_bases(1) [of phys "subs m"] by (intro same_bases) (simp add: s(1))
  with s mach_ok_pools [OF ok s(2)] show ?thesis by simp
qed

lemma find_pool_upd:
  assumes "\<And>p. base_phys (f p) = base_phys p" "\<And>p. cow_count (f p) = cow_count p"
  shows "page_cow_refs q (s\<lparr>pools := upd_pool phys f ps\<rparr>) = page_cow_refs q (s\<lparr>pools := ps\<rparr>)"
  using assms by (induction ps) (simp_all add: page_cow_refs_def pool_has_def slot_of_def)

lemma free_page_ok:
  assumes ok: "mach_ok lowest root m" and u: "page_used (m_pools m) phys"
  shows "mach_ok lowest root (set_subs (free_4k_page phys (subs m)) m)"
    "page_used (pools (free_4k_page phys (subs m))) q \<longleftrightarrow> q \<noteq> phys \<and> page_used (m_pools m) q"
    "page_cow_refs q (free_4k_page phys (subs m)) = page_cow_refs q (subs m)"
proof -
  from ok have wf: "sp_wf lowest (subs m)" by (simp add: mach_ok_def)
  note F = free_used_page [OF wf, of phys]
  have "frame_mgr (free_4k_page phys (subs m)) = sl_frames (m_heap m)" by (simp add: free_4k_page_def)
  then show "mach_ok lowest root (set_subs (free_4k_page phys (subs m)) m)"
    using F u same_bases [OF pool_bases(3) [of phys "subs m"]] by (intro mach_ok_pools [OF ok]) simp_all
  show "page_used (pools (free_4k_page phys (subs m))) q \<longleftrightarrow> q \<noteq> phys \<and> page_used (m_pools m) q" using F u by simp
  show "page_cow_refs q (free_4k_page phys (subs m)) = page_cow_refs q (subs m)"
    using find_pool_upd [where f = "pool_release phys" and q = q and s = "subs m" and phys = phys and ps = "m_pools m"]
    by (simp add: free_4k_page_def pool_release_def Let_def)
qed

text \<open>Objects of at most 512 bytes, and their release.\<close>

lemma kmalloc_ok:
  assumes ok: "mach_ok lowest root m" and sz: "sz \<le> 512"
  shows "\<exists>p h. kmalloc sz (m_heap m) = Some (p, h) \<and> mach_ok lowest root (m\<lparr>m_heap := h\<rparr>)
    \<and> (p \<noteq> 0 \<longrightarrow> live 5 h p \<and> \<not> live 16 (m_heap m) p)"
proof -
  let ?h = "m_heap m"
  from ok have h: "slabs_wf lowest ?h" "\<not> kmalloc_creating ?h" "tables_ok (paged ?h) (m_mem m) root"
    by (simp_all add: mach_ok_def vm_wf_def)
  from kmalloc_small [OF h(1,2) sz] obtain p h' where p: "kmalloc sz ?h = Some (p, h')"
    "p \<noteq> 0 \<longrightarrow> live 5 h' p \<and> \<not> live 16 ?h p" by blast
  note K = kmalloc_addresses [OF h(1,2) p(1)]
  have "tables_ok (paged h') (m_mem m) root" by (rule tables_ok_mono [OF h(3)]) (rule K(4))
  then have "mach_ok lowest root (m\<lparr>m_heap := h'\<rparr>)" using K(1,2,5) by (intro mach_ok_heap [OF ok]) (simp_all add: vm_wf_def)
  with p show ?thesis by blast
qed

lemma kfree_ok:
  assumes ok: "mach_ok lowest root m" and a: "live 5 (m_heap m) a"
  shows "\<exists>h. free_object a m = Some (m\<lparr>m_heap := h\<rparr>) \<and> mach_ok lowest root (m\<lparr>m_heap := h\<rparr>)
    \<and> (\<forall>n x. live n h x \<longleftrightarrow> live n (m_heap m) x \<and> x \<noteq> a)"
proof -
  let ?h = "m_heap m"
  from ok have h: "slabs_wf lowest ?h" "\<not> kmalloc_creating ?h" "tables_ok (paged ?h) (m_mem m) root"
    by (simp_all add: mach_ok_def vm_wf_def)
  obtain h' where h': "kfree a ?h = Some (1, h')" "slabs_wf lowest h'" "kmalloc_creating h' = kmalloc_creating ?h"
    "\<And>n x. live n h' x \<longleftrightarrow> live n ?h x \<and> x \<noteq> a" "\<And>pg. spare ?h pg \<Longrightarrow> spare h' pg" "same_geom (sl_frames ?h) (sl_frames h')"
    unfolding kfree_def by (rule kfree_small [OF h(1) a, of kfree_nested]) blast
  have "tables_ok (paged h') (m_mem m) root" by (rule tables_ok_mono [OF h(3)]) (use a h'(4) in \<open>auto simp: paged_def\<close>)
  then have "mach_ok lowest root (m\<lparr>m_heap := h'\<rparr>)"
    using h' h(2) by (intro mach_ok_heap [OF ok]) (simp_all add: vm_wf_def keeps_frames_def)
  with h'(1,4) show ?thesis by (intro exI [of _ h']) (simp add: free_object_def)
qed

end
