(* ===== verification/Fault.thy ===== *)
theory Fault
  imports Machine
begin

text \<open>
  The page fault of user mode in \<^verbatim>\<open>kernel/arch/x86_64/intr/trap.c\<close>: copy-on-write resolution and
  demand paging. The faulting task is a user task with an address space; \<open>cr2\<close> is the snapshot of
  the faulting address and \<open>error_code\<close> the word that the processor pushed.

  The read operation of a file node, a pointer in its table of operations, is a parameter. It gets
  the offset, the size and the buffer, and answers a count or a negative error with the buffer.
\<close>

section \<open>Files\<close>

type_synonym page = "nat \<Rightarrow> u8"
type_synonym read_op = "u64 \<Rightarrow> u64 \<Rightarrow> page \<Rightarrow> int \<times> page"

definition vfs_read :: "(nat \<Rightarrow> read_op option) \<Rightarrow> nat \<Rightarrow> u64 \<Rightarrow> u64 \<Rightarrow> page \<Rightarrow> int \<times> page" where
  "vfs_read ops node offset sz buffer =
    (case ops node of None \<Rightarrow> (- 1, buffer) | Some rd \<Rightarrow> rd offset sz buffer)"

section \<open>The handler\<close>

datatype outcome = Resumed | Killed

definition set_page :: "u64 \<Rightarrow> page \<Rightarrow> world \<Rightarrow> world" where
  "set_page phys d w = w\<lparr>w_data := (w_data w)(phys := d)\<rparr>"

text \<open>
  Making the page behind entry \<open>p\<close> private: a copy if it is shared, the page itself otherwise.
  The entry gets the bits \<open>flags\<close>.
\<close>

definition cow_resolve :: "u64 \<Rightarrow> u64 \<Rightarrow> world \<Rightarrow> (outcome \<times> world) option" where
  "cow_resolve p flags w =
    (let old_phys = m_mem (w_m w) p AND PAGE_4K_MASK in
     if page_cow_refs old_phys (subs (w_m w)) > 1 then
       Option.bind (w_alloc_4k w) (\<lambda>(new_phys, w1).
         if new_phys = 0 then Some (Killed, w1)
         else case w_cow_put old_phys (w_store p (new_phys OR flags) (set_page new_phys (w_data w1 old_phys) w1)) of
           (free_old, w2) \<Rightarrow> Some (Resumed, if free_old then w_free_4k old_phys w2 else w2))
     else Some (Resumed, w_store p (old_phys OR flags) (snd (w_cow_put old_phys w))))"

text \<open>A fault outside every area: only a write to a copy-on-write page of the program image is served.\<close>

definition fault_no_area :: "u64 \<Rightarrow> u64 \<Rightarrow> world \<Rightarrow> (outcome \<times> world) option" where
  "fault_no_area cr2 error_code w =
    (if error_code AND 3 = 3 then
       Option.bind (vmm_pt_walk (user_pgd w) cr2 0 False (w_m w)) (\<lambda>(upte, _).
         case upte of None \<Rightarrow> Some (Killed, w)
         | Some p \<Rightarrow>
           let e = m_mem (w_m w) p in
           if e AND PAGE_VALID \<noteq> 0 \<and> e AND PAGE_COW \<noteq> 0
           then cow_resolve p (((e AND NOT PAGE_4K_MASK) OR PAGE_WRITE) AND NOT PAGE_COW) w
           else Some (Killed, w))
     else Some (Killed, w))"

text \<open>Mapping the page \<open>phys\<close>, whose contents are in place, at the faulting page.\<close>

definition fault_map :: "u64 \<Rightarrow> u64 \<Rightarrow> u64 \<Rightarrow> world \<Rightarrow> (outcome \<times> world) option" where
  "fault_map cr2 phys prot w =
    map_option (\<lambda>(r, m). let w1 = w\<lparr>w_m := m\<rparr> in
      case r of Inl _ \<Rightarrow> (Killed, w_free_4k phys w1) | Inr _ \<Rightarrow> (Resumed, w1))
      (vmm_map_4k_page (user_pgd w) phys (cr2 AND PAGE_4K_MASK) prot (w_m w))"

definition fault_anon :: "u64 \<Rightarrow> vma \<Rightarrow> world \<Rightarrow> (outcome \<times> world) option" where
  "fault_anon cr2 v w =
    Option.bind (w_alloc_4k w) (\<lambda>(phys, w1).
      if phys = 0 then Some (Killed, w1)
      else fault_map cr2 phys (vm_page_prot v) (set_page phys (\<lambda>_. 0) w1))"

definition fault_file :: "(nat \<Rightarrow> read_op option) \<Rightarrow> u64 \<Rightarrow> vma \<Rightarrow> nat \<Rightarrow> world \<Rightarrow> (outcome \<times> world) option" where
  "fault_file ops cr2 v node w =
    Option.bind (w_alloc_4k w) (\<lambda>(phys, w1).
      if phys = 0 then Some (Killed, w1)
      else
        let file_off = (cr2 - vm_start v) + push_bit 12 (vm_pgoff v);
            (n, d) = vfs_read ops node file_off PAGE_4K_SIZE (w_data w1 phys) in
        if n < 0 then Some (Killed, w_free_4k phys (set_page phys d w1))
        else fault_map cr2 phys (vm_page_prot v)
          (set_page phys (if n < 4096 then \<lambda>i. if nat n \<le> i \<and> i < 4096 then 0 else d i else d) w1))"

definition do_page_fault_user :: "(nat \<Rightarrow> read_op option) \<Rightarrow> u64 \<Rightarrow> u64 \<Rightarrow> world \<Rightarrow> (outcome \<times> world) option" where
  "do_page_fault_user ops cr2 error_code w =
    (case vma_find (vma_list (w_mm w)) cr2 of None \<Rightarrow> fault_no_area cr2 error_code w
     | Some v \<Rightarrow>
       if vm_flags v AND (VMA_PROT_READ OR VMA_PROT_WRITE OR VMA_PROT_EXEC) = 0 then Some (Killed, w)
       else if error_code AND 3 = 3 \<and> vm_flags v AND VMA_PROT_WRITE = 0 then Some (Killed, w)
       else if error_code AND 0x10 \<noteq> 0 \<and> vm_flags v AND VMA_PROT_EXEC = 0 then Some (Killed, w)
       else Option.bind (if error_code AND 3 = 3 then map_option fst (vmm_pt_walk (user_pgd w) cr2 0 False (w_m w)) else Some None) (\<lambda>pte.
         case pte of
           Some p \<Rightarrow>
             if m_mem (w_m w) p AND PAGE_COW \<noteq> 0 then
               if vm_flags v AND VMA_HEAP \<noteq> 0 \<and>
                  \<not> (cr2 \<ge> mm_start_brk (w_mm w) \<and> cr2 < (mm_end_brk (w_mm w) + (PAGE_4K_SIZE - 1)) AND PAGE_4K_MASK)
               then Some (Killed, w)
               else cow_resolve p (vm_page_prot v) w
             else Some (Killed, w)
         | None \<Rightarrow>
             if error_code AND 1 \<noteq> 0 then Some (Killed, w)
             else if vm_flags v AND VMA_HEAP \<noteq> 0 then Some (Killed, w)
             else if vm_flags v AND VMA_ANON \<noteq> 0 then fault_anon cr2 v w
             else case vm_file v of
               Some node \<Rightarrow> if vm_flags v AND VMA_IO = 0 then fault_file ops cr2 v node w else Some (Killed, w)
             | None \<Rightarrow> Some (Killed, w)))"

section \<open>Addresses and entries\<close>

lemma pt_index_masked: "12 \<le> s \<Longrightarrow> pt_index s (x AND PAGE_4K_MASK) = pt_index s x"
proof -
  assume s: "12 \<le> s"
  have "drop_bit s (x AND NOT (mask 12)) = drop_bit s x"
    by (rule bit_word_eqI) (use s in \<open>auto simp: bit_simps dest: bit_imp_le_length\<close>)
  then show ?thesis by (simp add: pt_index_def mask_4K)
qed

lemma same_page_masked: "same_page v (x AND PAGE_4K_MASK) \<longleftrightarrow> same_page v x"
  by (simp add: same_page_def pt_path_def pt_index_masked)

lemma and_not_id:
  assumes "x AND m = (0 :: u64)"
  shows "x AND NOT m = x"
proof -
  have "x AND NOT m = (x AND m) OR (x AND NOT m)" using assms by simp
  also have "\<dots> = x AND (m OR NOT m)" by (simp only: bit.conj_disj_distrib)
  finally show ?thesis by simp
qed

lemma used_aligned:
  assumes "sp_wf lowest s" "page_used (pools s) q"
  shows "q AND PAGE_4K_MASK = q"
proof -
  from assms(2) obtain p k where p: "p \<in> set (pools s)" "k < 512" "q = slot_addr p k" by (auto simp: page_used_def)
  have "q AND (PAGE_4K_SIZE - 1) = 0" unfolding p(3) by (rule slot_addr_props(5) [OF sp_wf_room [OF assms(1) p(1)] p(2)])
  then show ?thesis unfolding PAGE_4K_MASK_def by (rule and_not_id)
qed

lemma entry_parts:
  assumes "q AND PAGE_4K_MASK = q" "flags AND PAGE_4K_MASK = 0"
  shows "(q OR flags) AND PAGE_4K_MASK = q"
  using assms by (simp add: bit.conj_disj_distrib2)

lemma pte_pointer:
  assumes "vmm_pt_walk root virt 0 False m = Some (Some p, m')"
  obtains t where "pt_index 39 virt < 256" "table_at (m_mem m) 0 root (pt_path virt) = Some t"
    "p = entry t (pt_index 12 virt)" "m_mem m p = pte_of root virt m"
  using assms by (auto simp: walk_lookup pte_of_def pte_at_def split: if_splits)

lemma world_simps [simp]:
  "w_m (w_store p e w) = store p e (w_m w)" "w_mm (w_store p e w) = w_mm w" "w_data (w_store p e w) = w_data w"
  "w_m (set_page q d w) = w_m w" "w_mm (set_page q d w) = w_mm w" "w_data (set_page q d w) = (w_data w)(q := d)"
  "w_m (w_free_4k q w) = set_subs (free_4k_page q (subs (w_m w))) (w_m w)" "w_mm (w_free_4k q w) = w_mm w" "w_data (w_free_4k q w) = w_data w"
  "subs (store a v m) = subs m" "m_pools (store a v m) = m_pools m" "m_heap (store a v m) = m_heap m" "m_junk (store a v m) = m_junk m"
  by (simp_all add: w_store_def set_page_def w_free_4k_def store_def subs_def)

lemma pte_of_subs [simp]: "pte_of root v (set_subs s m) = pte_of root v m"
  by (rule pte_of_mem) simp

lemma store_ok:
  assumes "mach_ok lowest root m" "pt_index 39 virt < 256" "table_at (m_mem m) 0 root (pt_path virt) = Some t"
  shows "mach_ok lowest root (store (entry t (pt_index 12 virt)) x m)"
    "pte_of root v (store (entry t (pt_index 12 virt)) x m) = (if same_page v virt then x else pte_of root v m)"
proof -
  from assms(1) have "vm_wf lowest root m" by (simp add: mach_ok_def)
  note S = store_leaf [OF this assms(2,3)]
  show "mach_ok lowest root (store (entry t (pt_index 12 virt)) x m)" by (rule mach_ok_mem [OF assms(1) S(1)])
  show "pte_of root v (store (entry t (pt_index 12 virt)) x m) = (if same_page v virt then x else pte_of root v m)" by (rule S(2))
qed

lemma w_alloc_ok:
  assumes "mach_ok lowest root (w_m w)"
  obtains phys w1 where "w_alloc_4k w = Some (phys, w1)" "mach_ok lowest root (w_m w1)" "w_mm w1 = w_mm w" "w_data w1 = w_data w"
    "m_mem (w_m w1) = m_mem (w_m w)" "phys = 0 \<Longrightarrow> w1 = w"
    "phys \<noteq> 0 \<Longrightarrow> \<not> page_used (m_pools (w_m w)) phys" "phys \<noteq> 0 \<Longrightarrow> page_cow_refs phys (subs (w_m w1)) = 0"
    "\<And>q. page_used (m_pools (w_m w1)) q \<longleftrightarrow> phys \<noteq> 0 \<and> q = phys \<or> page_used (m_pools (w_m w)) q"
    "\<And>q. page_used (m_pools (w_m w)) q \<Longrightarrow> page_cow_refs q (subs (w_m w1)) = page_cow_refs q (subs (w_m w))"
proof -
  from alloc_page_ok [OF assms] obtain phys s where "alloc_4k_page (m_junk (w_m w)) (subs (w_m w)) = Some (phys, s)"
    "mach_ok lowest root (set_subs s (w_m w))" "phys = 0 \<longrightarrow> s = subs (w_m w)"
    "phys \<noteq> 0 \<longrightarrow> \<not> page_used (m_pools (w_m w)) phys \<and> page_cow_refs phys s = 0
        \<and> (\<forall>q. page_used (pools s) q \<longleftrightarrow> q = phys \<or> page_used (m_pools (w_m w)) q)
        \<and> (\<forall>q. page_used (m_pools (w_m w)) q \<longrightarrow> page_cow_refs q s = page_cow_refs q (subs (w_m w)))" by blast
  then show ?thesis by (intro that [of phys "w\<lparr>w_m := set_subs s (w_m w)\<rparr>"]) (auto simp: w_alloc_4k_def)
qed

text \<open>What resolving a copy-on-write entry does when it succeeds.\<close>

definition resolved :: "u64 \<Rightarrow> u64 \<Rightarrow> u64 \<Rightarrow> world \<Rightarrow> world \<Rightarrow> bool" where
  "resolved root virt flags w w' \<longleftrightarrow>
    (let old = pte_of root virt (w_m w) AND PAGE_4K_MASK; new = pte_of root virt (w_m w') AND PAGE_4K_MASK;
         refs = page_cow_refs old (subs (w_m w)) in
     pte_of root virt (w_m w') = new OR flags \<and> w_data w' new = w_data w old
     \<and> page_cow_refs old (subs (w_m w')) = (if refs = 0 then 0 else refs - 1)
     \<and> (if refs > 1 then \<not> page_used (m_pools (w_m w)) new \<and> page_cow_refs new (subs (w_m w')) = 0 else new = old)
     \<and> (\<forall>q. page_used (m_pools (w_m w')) q \<longleftrightarrow> q = new \<or> page_used (m_pools (w_m w)) q))"

lemma cow_resolve_ok:
  assumes ok: "mach_ok lowest root (w_m w)" and t: "pt_index 39 virt < 256" "table_at (m_mem (w_m w)) 0 root (pt_path virt) = Some t"
    and u: "page_used (m_pools (w_m w)) (pte_of root virt (w_m w) AND PAGE_4K_MASK)" and fl: "flags AND PAGE_4K_MASK = 0"
  shows "\<exists>r w'. cow_resolve (entry t (pt_index 12 virt)) flags w = Some (r, w') \<and> mach_ok lowest root (w_m w') \<and> w_mm w' = w_mm w
    \<and> (\<forall>v. \<not> same_page v virt \<longrightarrow> pte_of root v (w_m w') = pte_of root v (w_m w))
    \<and> (\<forall>q. page_used (m_pools (w_m w)) q \<longrightarrow> w_data w' q = w_data w q)
    \<and> (r = Killed \<longrightarrow> w' = w) \<and> (r = Resumed \<longrightarrow> resolved root virt flags w w')"
proof -
  let ?m = "w_m w" and ?p = "entry t (pt_index 12 virt)" and ?old = "pte_of root virt (w_m w) AND PAGE_4K_MASK"
  have e: "m_mem ?m ?p = pte_of root virt ?m" using t by (simp add: pte_of_def pte_at_def)
  have sp: "same_page virt virt" by (simp add: same_page_def)
  have al: "q AND PAGE_4K_MASK = q" if "page_used (m_pools x) q" "mach_ok lowest root x" for q x
    by (rule used_aligned [of lowest "subs x"]) (use that in \<open>simp_all add: mach_ok_def\<close>)
  show ?thesis
  proof (cases "page_cow_refs ?old (subs ?m) > 1")
    case False
    from cow_put_ok [OF ok u] obtain s where s: "page_cow_put ?old (subs ?m) = (page_cow_refs ?old (subs ?m) = 1, s)"
      "mach_ok lowest root (set_subs s ?m)" "\<forall>q. page_used (pools s) q \<longleftrightarrow> page_used (m_pools ?m) q"
      "page_cow_refs ?old s = (if page_cow_refs ?old (subs ?m) = 0 then 0 else page_cow_refs ?old (subs ?m) - 1)" by blast
    let ?w = "w_store ?p (?old OR flags) (w\<lparr>w_m := set_subs s ?m\<rparr>)"
    have run: "cow_resolve ?p flags w = Some (Resumed, ?w)" using False s(1) by (simp add: cow_resolve_def e w_cow_put_def Let_def)
    have T: "mach_ok lowest root (w_m ?w)" "pte_of root v (w_m ?w) = (if same_page v virt then ?old OR flags else pte_of root v ?m)" for v
      using store_ok [OF s(2) t(1), of t] t(2) by simp_all
    have "resolved root virt flags w ?w"
      using False s(3,4) u T(2) sp entry_parts [OF al [OF u ok] fl] by (auto simp: resolved_def Let_def)
    with run T show ?thesis by simp
  next
    case True
    obtain phys w1 where a: "w_alloc_4k w = Some (phys, w1)" "mach_ok lowest root (w_m w1)" "w_mm w1 = w_mm w" "w_data w1 = w_data w"
      "m_mem (w_m w1) = m_mem ?m" "phys = 0 \<Longrightarrow> w1 = w" "phys \<noteq> 0 \<Longrightarrow> \<not> page_used (m_pools ?m) phys"
      "phys \<noteq> 0 \<Longrightarrow> page_cow_refs phys (subs (w_m w1)) = 0"
      "\<And>q. page_used (m_pools (w_m w1)) q \<longleftrightarrow> phys \<noteq> 0 \<and> q = phys \<or> page_used (m_pools ?m) q"
      "\<And>q. page_used (m_pools ?m) q \<Longrightarrow> page_cow_refs q (subs (w_m w1)) = page_cow_refs q (subs ?m)"
      by (rule w_alloc_ok [OF ok]) blast
    show ?thesis
    proof (cases "phys = 0")
      case zero: True
      with a(1,6) True ok show ?thesis by (simp add: cow_resolve_def e Let_def)
    next
      case new: False
      let ?m2 = "store ?p (phys OR flags) (w_m w1)"
      have T: "mach_ok lowest root ?m2" "pte_of root v ?m2 = (if same_page v virt then phys OR flags else pte_of root v ?m)" for v
        using store_ok [OF a(2) t(1), of t] t(2) pte_of_mem [OF a(5)] by (simp_all add: a(5))
      have u2: "page_used (m_pools ?m2) ?old" using u a(9) by simp
      from cow_put_ok [OF T(1) u2] obtain s where s: "page_cow_put ?old (subs ?m2) = (page_cow_refs ?old (subs ?m2) = 1, s)"
        "mach_ok lowest root (set_subs s ?m2)" "\<forall>q. page_used (pools s) q \<longleftrightarrow> page_used (m_pools ?m2) q"
        "page_cow_refs ?old s = (if page_cow_refs ?old (subs ?m2) = 0 then 0 else page_cow_refs ?old (subs ?m2) - 1)"
        "\<forall>q. page_used (m_pools ?m2) q \<and> q \<noteq> ?old \<longrightarrow> page_cow_refs q s = page_cow_refs q (subs ?m2)" by blast
      have r: "page_cow_refs ?old (subs ?m2) = page_cow_refs ?old (subs ?m)" using a(10) [OF u] by simp
      let ?w = "(w_store ?p (phys OR flags) (set_page phys (w_data w1 ?old) w1))\<lparr>w_m := set_subs s ?m2\<rparr>"
      have run: "cow_resolve ?p flags w = Some (Resumed, ?w)"
        using True a(1) s(1) r new by (simp add: cow_resolve_def e w_cow_put_def Let_def)
      have ne: "phys \<noteq> ?old" using a(7) [OF new] u by auto
      have "page_used (m_pools (w_m w1)) phys" using a(9) new by simp
      note P = entry_parts [OF al [OF this a(2)] fl]
      have "resolved root virt flags w ?w"
        using True s(3,4,5) T(2) sp r P new a(4,7,8,9) ne by (auto simp: resolved_def Let_def)
      moreover have "\<forall>q. page_used (m_pools ?m) q \<longrightarrow> w_data ?w q = w_data w q" using a(4) a(7) [OF new] by auto
      ultimately show ?thesis using run s(2) T(2) a(3) by simp
    qed
  qed
qed

lemma fault_map_ok:
  assumes ok: "mach_ok lowest root (w_m w)" and root: "user_pgd w = root" and u: "page_used (m_pools (w_m w)) phys"
    and prot: "prot AND PAGE_4K_MASK = 0" and run: "fault_map cr2 phys prot w = Some (r, w')"
  shows "mach_ok lowest root (w_m w') \<and> w_mm w' = w_mm w \<and> w_data w' = w_data w
    \<and> (\<forall>v. pte_of root v (w_m w') = (if r = Resumed \<and> same_page v cr2 then phys OR prot else pte_of root v (w_m w)))
    \<and> (\<forall>q. page_used (m_pools (w_m w')) q \<longleftrightarrow> page_used (m_pools (w_m w)) q \<and> (r = Resumed \<or> q \<noteq> phys))"
proof -
  from run root obtain x m where x: "vmm_map_4k_page root phys (cr2 AND PAGE_4K_MASK) prot (w_m w) = Some (x, m)"
    by (auto simp: fault_map_def)
  note M = map_page_ok [OF ok x, unfolded same_page_masked]
  have al: "phys AND PAGE_4K_MASK = phys" by (rule used_aligned [of lowest "subs (w_m w)"]) (use ok u in \<open>simp_all add: mach_ok_def\<close>)
  show ?thesis
  proof (cases x)
    case (Inl err)
    have "mach_ok lowest root m" "page_used (m_pools m) phys" using M u by auto
    note F = free_page_ok [OF this]
    from Inl run x root have "r = Killed" "w' = w_free_4k phys (w\<lparr>w_m := m\<rparr>)" by (simp_all add: fault_map_def Let_def)
    with F M Inl show ?thesis by auto
  next
    case (Inr a)
    with run x root have "r = Resumed" "w' = w\<lparr>w_m := m\<rparr>" by (simp_all add: fault_map_def Let_def)
    with M Inr al and_not_id [OF prot] show ?thesis by auto
  qed
qed

text \<open>
  The demand paths: an anonymous page and a page of a file. Both allocate a page, fill it and map it.
\<close>

definition filled :: "u64 \<Rightarrow> u64 \<Rightarrow> u64 \<Rightarrow> outcome \<Rightarrow> world \<Rightarrow> world \<Rightarrow> u64 \<Rightarrow> bool" where
  "filled lowest root cr2 r w w' prot \<longleftrightarrow> mach_ok lowest root (w_m w') \<and> w_mm w' = w_mm w
    \<and> (\<forall>v. \<not> same_page v cr2 \<longrightarrow> pte_of root v (w_m w') = pte_of root v (w_m w))
    \<and> (\<forall>q. page_used (m_pools (w_m w)) q \<longrightarrow> w_data w' q = w_data w q)
    \<and> (case r of Killed \<Rightarrow> (\<forall>v. pte_of root v (w_m w') = pte_of root v (w_m w))
          \<and> (\<forall>q. page_used (m_pools (w_m w')) q \<longleftrightarrow> page_used (m_pools (w_m w)) q)
       | Resumed \<Rightarrow> let phys = pte_of root cr2 (w_m w') AND PAGE_4K_MASK in
          \<not> page_used (m_pools (w_m w)) phys \<and> pte_of root cr2 (w_m w') = phys OR prot
          \<and> (\<forall>q. page_used (m_pools (w_m w')) q \<longleftrightarrow> q = phys \<or> page_used (m_pools (w_m w)) q))"

lemma fill_ok:
  assumes ok: "mach_ok lowest root (w_m w)" and root: "user_pgd w = root" and prot: "prot AND PAGE_4K_MASK = 0"
    and a: "w_alloc_4k w = Some (phys, w1)" "phys \<noteq> 0" and run: "fault_map cr2 phys prot (set_page phys d w1) = Some (r, w')"
  shows "filled lowest root cr2 r w w' prot" "r = Resumed \<Longrightarrow> w_data w' phys = d"
    "r = Resumed \<Longrightarrow> pte_of root cr2 (w_m w') AND PAGE_4K_MASK = phys"
proof -
  have W: "mach_ok lowest root (w_m w1)" "w_mm w1 = w_mm w" "w_data w1 = w_data w" "m_mem (w_m w1) = m_mem (w_m w)"
      "\<not> page_used (m_pools (w_m w)) phys" "\<And>q. page_used (m_pools (w_m w1)) q \<longleftrightarrow> q = phys \<or> page_used (m_pools (w_m w)) q"
    using w_alloc_ok [OF ok] a by (metis option.inject prod.inject)+
  have u: "page_used (m_pools (w_m (set_page phys d w1))) phys" using W(6) by simp
  note F = fault_map_ok [OF _ _ u prot run, of lowest root]
  have sp: "same_page cr2 cr2" by (simp add: same_page_def)
  have al: "phys AND PAGE_4K_MASK = phys"
    by (rule used_aligned [of lowest "subs (w_m w1)"]) (use W(1) u in \<open>simp_all add: mach_ok_def\<close>)
  note P = entry_parts [OF al prot] and pte = pte_of_mem [OF W(4)]
  have G: "mach_ok lowest root (w_m w')" "w_mm w' = w_mm w" "w_data w' = (w_data w)(phys := d)"
    "\<And>v. pte_of root v (w_m w') = (if r = Resumed \<and> same_page v cr2 then phys OR prot else pte_of root v (w_m w))"
    "\<And>q. page_used (m_pools (w_m w')) q \<longleftrightarrow> (q = phys \<or> page_used (m_pools (w_m w)) q) \<and> (r = Resumed \<or> q \<noteq> phys)"
    using F W root by (simp_all add: user_pgd_def pte)
  show "filled lowest root cr2 r w w' prot"
    using G W(5) sp P by (cases r) (auto simp: filled_def Let_def)
  show "r = Resumed \<Longrightarrow> w_data w' phys = d" "r = Resumed \<Longrightarrow> pte_of root cr2 (w_m w') AND PAGE_4K_MASK = phys"
    using G(3,4) sp P by simp_all
qed

lemma filled_killed:
  assumes "mach_ok lowest root (w_m w)" shows "filled lowest root cr2 Killed w w prot"
  using assms by (simp add: filled_def)

definition zero_tail :: "int \<times> page \<Rightarrow> page" where
  "zero_tail = (\<lambda>(n, d). if n < 4096 then \<lambda>i. if nat n \<le> i \<and> i < 4096 then 0 else d i else d)"

definition fault_offset :: "u64 \<Rightarrow> vma \<Rightarrow> u64" where
  "fault_offset cr2 v = (cr2 - vm_start v) + push_bit 12 (vm_pgoff v)"

lemma fault_anon_ok:
  assumes ok: "mach_ok lowest root (w_m w)" and root: "user_pgd w = root" and prot: "vm_page_prot v AND PAGE_4K_MASK = 0"
    and run: "fault_anon cr2 v w = Some (r, w')"
  shows "filled lowest root cr2 r w w' (vm_page_prot v)"
    "r = Resumed \<Longrightarrow> w_data w' (pte_of root cr2 (w_m w') AND PAGE_4K_MASK) = (\<lambda>_. 0)"
proof -
  obtain phys w1 where a: "w_alloc_4k w = Some (phys, w1)" "phys = 0 \<Longrightarrow> w1 = w" by (rule w_alloc_ok [OF ok]) blast
  have "filled lowest root cr2 r w w' (vm_page_prot v)
    \<and> (r = Resumed \<longrightarrow> w_data w' (pte_of root cr2 (w_m w') AND PAGE_4K_MASK) = (\<lambda>_. 0))"
  proof (cases "phys = 0")
    case True
    with run a filled_killed [OF ok] show ?thesis by (auto simp: fault_anon_def)
  next
    case False
    with run a have "fault_map cr2 phys (vm_page_prot v) (set_page phys (\<lambda>_. 0) w1) = Some (r, w')" by (simp add: fault_anon_def)
    from fill_ok [OF ok root prot a(1) False this] show ?thesis by simp
  qed
  then show "filled lowest root cr2 r w w' (vm_page_prot v)"
    "r = Resumed \<Longrightarrow> w_data w' (pte_of root cr2 (w_m w') AND PAGE_4K_MASK) = (\<lambda>_. 0)" by blast+
qed

lemma fault_file_ok:
  assumes ok: "mach_ok lowest root (w_m w)" and root: "user_pgd w = root" and prot: "vm_page_prot v AND PAGE_4K_MASK = 0"
    and run: "fault_file ops cr2 v node w = Some (r, w')"
  shows "filled lowest root cr2 r w w' (vm_page_prot v)"
    "r = Resumed \<Longrightarrow> let phys = pte_of root cr2 (w_m w') AND PAGE_4K_MASK in
       w_data w' phys = zero_tail (vfs_read ops node (fault_offset cr2 v) PAGE_4K_SIZE (w_data w phys))"
proof -
  obtain phys w1 where a: "w_alloc_4k w = Some (phys, w1)" "mach_ok lowest root (w_m w1)" "w_mm w1 = w_mm w" "w_data w1 = w_data w"
    "m_mem (w_m w1) = m_mem (w_m w)" "phys = 0 \<Longrightarrow> w1 = w" "phys \<noteq> 0 \<Longrightarrow> \<not> page_used (m_pools (w_m w)) phys"
    "\<And>q. page_used (m_pools (w_m w1)) q \<longleftrightarrow> phys \<noteq> 0 \<and> q = phys \<or> page_used (m_pools (w_m w)) q"
    by (rule w_alloc_ok [OF ok]) blast
  obtain n d where nd: "vfs_read ops node (fault_offset cr2 v) PAGE_4K_SIZE (w_data w phys) = (n, d)" by fastforce
  have "filled lowest root cr2 r w w' (vm_page_prot v) \<and> (r = Resumed \<longrightarrow>
    (let phys = pte_of root cr2 (w_m w') AND PAGE_4K_MASK in
       w_data w' phys = zero_tail (vfs_read ops node (fault_offset cr2 v) PAGE_4K_SIZE (w_data w phys))))"
  proof (cases "phys = 0 \<or> n < 0")
    case True
    show ?thesis
    proof (cases "phys = 0")
      case True
      with run a filled_killed [OF ok] show ?thesis by (auto simp: fault_file_def)
    next
      case False
      with True run a(1) nd have w': "r = Killed" "w' = w_free_4k phys (set_page phys d w1)"
        by (simp_all add: fault_file_def fault_offset_def Let_def a(4))
      have "page_used (m_pools (w_m w1)) phys" using a(8) False by simp
      from free_page_ok [OF a(2) this] a False show ?thesis by (auto simp: w' filled_def pte_of_mem [OF a(5)])
    qed
  next
    case False
    then have pos: "phys \<noteq> 0" by simp
    from False run a nd have f: "fault_map cr2 phys (vm_page_prot v) (set_page phys (zero_tail (n, d)) w1) = Some (r, w')"
      by (auto simp: fault_file_def fault_offset_def zero_tail_def Let_def)
    note F = fill_ok [OF ok root prot a(1) pos f]
    with nd show ?thesis by (simp add: Let_def)
  qed
  then show "filled lowest root cr2 r w w' (vm_page_prot v)"
    "r = Resumed \<Longrightarrow> let phys = pte_of root cr2 (w_m w') AND PAGE_4K_MASK in
       w_data w' phys = zero_tail (vfs_read ops node (fault_offset cr2 v) PAGE_4K_SIZE (w_data w phys))" by blast+
qed

lemma image_flags: "(((e AND NOT PAGE_4K_MASK) OR PAGE_WRITE) AND NOT PAGE_COW) AND PAGE_4K_MASK = 0"
  by (rule bit_word_eqI) (auto simp: bit_simps mask_4K PAGE_WRITE_def)

text \<open>What the handler guarantees, by the outcome and the kind of fault.\<close>

definition fault_post :: "(nat \<Rightarrow> read_op option) \<Rightarrow> u64 \<Rightarrow> u64 \<Rightarrow> u64 \<Rightarrow> u64 \<Rightarrow> outcome \<Rightarrow> world \<Rightarrow> world \<Rightarrow> bool" where
  "fault_post ops lowest root cr2 ec r w w' \<longleftrightarrow>
    mach_ok lowest root (w_m w') \<and> w_mm w' = w_mm w
    \<and> (\<forall>x. \<not> same_page x cr2 \<longrightarrow> pte_of root x (w_m w') = pte_of root x (w_m w))
    \<and> (\<forall>q. page_used (m_pools (w_m w)) q \<longrightarrow> w_data w' q = w_data w q)
    \<and> (let area = vma_find (vma_list (w_mm w)) cr2; e = pte_of root cr2 (w_m w) in
       case r of Killed \<Rightarrow> pte_of root cr2 (w_m w') = e \<and> (\<forall>q. page_used (m_pools (w_m w')) q \<longleftrightarrow> page_used (m_pools (w_m w)) q)
       | Resumed \<Rightarrow>
         if ec AND 3 = 3 then e AND PAGE_COW \<noteq> 0 \<and>
           (case area of None \<Rightarrow> resolved root cr2 (((e AND NOT PAGE_4K_MASK) OR PAGE_WRITE) AND NOT PAGE_COW) w w'
            | Some v \<Rightarrow> vm_flags v AND VMA_PROT_WRITE \<noteq> 0 \<and> resolved root cr2 (vm_page_prot v) w w')
         else \<exists>v. area = Some v \<and> filled lowest root cr2 Resumed w w' (vm_page_prot v) \<and>
           (let phys = pte_of root cr2 (w_m w') AND PAGE_4K_MASK in
            if vm_flags v AND VMA_ANON \<noteq> 0 then w_data w' phys = (\<lambda>_. 0)
            else \<exists>node. vm_file v = Some node
              \<and> w_data w' phys = zero_tail (vfs_read ops node (fault_offset cr2 v) PAGE_4K_SIZE (w_data w phys))))"

lemma fault_post_killed: "mach_ok lowest root (w_m w) \<Longrightarrow> fault_post ops lowest root cr2 ec Killed w w"
  by (simp add: fault_post_def Let_def)

lemma fault_post_filled:
  assumes "filled lowest root cr2 r w w' (vm_page_prot v)" "vma_find (vma_list (w_mm w)) cr2 = Some v" "ec AND 3 \<noteq> 3"
    "r = Resumed \<Longrightarrow> (let phys = pte_of root cr2 (w_m w') AND PAGE_4K_MASK in
       if vm_flags v AND VMA_ANON \<noteq> 0 then w_data w' phys = (\<lambda>_. 0)
       else \<exists>node. vm_file v = Some node
         \<and> w_data w' phys = zero_tail (vfs_read ops node (fault_offset cr2 v) PAGE_4K_SIZE (w_data w phys)))"
  shows "fault_post ops lowest root cr2 ec r w w'"
  using assms by (cases r) (auto simp: fault_post_def filled_def Let_def)

lemma cow_fault_ok:
  assumes ok: "mach_ok lowest root (w_m w)" and fl: "flags AND PAGE_4K_MASK = 0"
    and walk: "vmm_pt_walk root cr2 0 False (w_m w) = Some (Some p, m')"
    and cow: "m_mem (w_m w) p AND PAGE_COW \<noteq> 0"
    and used: "pte_of root cr2 (w_m w) AND PAGE_COW \<noteq> 0 \<longrightarrow> page_used (m_pools (w_m w)) (pte_of root cr2 (w_m w) AND PAGE_4K_MASK)"
    and ec: "ec AND 3 = 3" and area: "case vma_find (vma_list (w_mm w)) cr2 of
      None \<Rightarrow> flags = ((pte_of root cr2 (w_m w) AND NOT PAGE_4K_MASK) OR PAGE_WRITE) AND NOT PAGE_COW
    | Some v \<Rightarrow> flags = vm_page_prot v \<and> vm_flags v AND VMA_PROT_WRITE \<noteq> 0"
  shows "\<exists>r w'. cow_resolve p flags w = Some (r, w') \<and> fault_post ops lowest root cr2 ec r w w'"
proof -
  from walk obtain t where t: "pt_index 39 cr2 < 256" "table_at (m_mem (w_m w)) 0 root (pt_path cr2) = Some t"
    "p = entry t (pt_index 12 cr2)" "m_mem (w_m w) p = pte_of root cr2 (w_m w)" by (rule pte_pointer)
  with cow used have "page_used (m_pools (w_m w)) (pte_of root cr2 (w_m w) AND PAGE_4K_MASK)" by simp
  from cow_resolve_ok [OF ok t(1,2) this fl] obtain r w' where w': "cow_resolve p flags w = Some (r, w')"
    "mach_ok lowest root (w_m w') \<and> w_mm w' = w_mm w
      \<and> (\<forall>v. \<not> same_page v cr2 \<longrightarrow> pte_of root v (w_m w') = pte_of root v (w_m w))
      \<and> (\<forall>q. page_used (m_pools (w_m w)) q \<longrightarrow> w_data w' q = w_data w q)"
    "r = Killed \<longrightarrow> w' = w" "r = Resumed \<longrightarrow> resolved root cr2 flags w w'" unfolding t(3) by blast
  have "fault_post ops lowest root cr2 ec r w w'"
  proof (cases r)
    case Killed
    with w'(3) show ?thesis using fault_post_killed [OF ok] by simp
  next
    case Resumed
    with w'(2,4) ec area cow t(4) show ?thesis by (simp add: fault_post_def Let_def split: option.split_asm option.split)
  qed
  with w'(1) show ?thesis by blast
qed

lemma fault_write_ok:
  assumes ok: "mach_ok lowest (user_pgd w) (w_m w)"
    and used: "pte_of (user_pgd w) cr2 (w_m w) AND PAGE_COW \<noteq> 0 \<longrightarrow>
      page_used (m_pools (w_m w)) (pte_of (user_pgd w) cr2 (w_m w) AND PAGE_4K_MASK)"
    and prot: "\<forall>v\<in>set (vma_list (w_mm w)). vm_page_prot v AND PAGE_4K_MASK = 0" and ec: "ec AND 3 = 3"
  shows "\<exists>r w'. do_page_fault_user ops cr2 ec w = Some (r, w') \<and> fault_post ops lowest (user_pgd w) cr2 ec r w w'"
proof -
  let ?pgd = "user_pgd w" and ?area = "vma_find (vma_list (w_mm w)) cr2"
  note K = fault_post_killed [OF ok, of ops cr2 ec]
  have e1: "ec AND 1 \<noteq> 0"
  proof -
    have "odd (ec AND 3)" unfolding ec by simp
    then show ?thesis by (simp add: even_and_iff and_one_eq odd_iff_mod_2_eq_one)
  qed
  obtain a where walk: "vmm_pt_walk ?pgd cr2 0 False (w_m w) = Some (a, w_m w)" by (simp add: walk_lookup)
  show ?thesis
  proof (cases ?area)
    case None
    show ?thesis
    proof (cases "\<exists>p. a = Some p \<and> m_mem (w_m w) p AND PAGE_VALID \<noteq> 0 \<and> m_mem (w_m w) p AND PAGE_COW \<noteq> 0")
      case True
      then obtain p where p: "a = Some p" "m_mem (w_m w) p AND PAGE_VALID \<noteq> 0" "m_mem (w_m w) p AND PAGE_COW \<noteq> 0" by blast
      have e: "m_mem (w_m w) p = pte_of ?pgd cr2 (w_m w)" using walk [unfolded p(1)] by (rule pte_pointer)
      let ?f = "((pte_of ?pgd cr2 (w_m w) AND NOT PAGE_4K_MASK) OR PAGE_WRITE) AND NOT PAGE_COW"
      have "do_page_fault_user ops cr2 ec w = cow_resolve p ?f w"
        using p walk e None ec by (simp add: do_page_fault_user_def fault_no_area_def Let_def)
      moreover have "\<exists>r w'. cow_resolve p ?f w = Some (r, w') \<and> fault_post ops lowest ?pgd cr2 ec r w w'"
        by (rule cow_fault_ok [OF ok image_flags walk [unfolded p(1)] p(3) used ec]) (simp add: None)
      ultimately show ?thesis by simp
    next
      case False
      then have "do_page_fault_user ops cr2 ec w = Some (Killed, w)"
        using None ec walk by (auto simp: do_page_fault_user_def fault_no_area_def Let_def split: option.split)
      with K show ?thesis by blast
    qed
  next
    case (Some v)
    then have pv: "vm_page_prot v AND PAGE_4K_MASK = 0" using vma_find_sound prot by blast
    show ?thesis
    proof (cases "\<exists>p. a = Some p \<and> m_mem (w_m w) p AND PAGE_COW \<noteq> 0 \<and> vm_flags v AND VMA_PROT_WRITE \<noteq> 0")
      case True
      then obtain p where p: "a = Some p" "m_mem (w_m w) p AND PAGE_COW \<noteq> 0" "vm_flags v AND VMA_PROT_WRITE \<noteq> 0" by blast
      show ?thesis
      proof (cases "do_page_fault_user ops cr2 ec w = Some (Killed, w)")
        case True
        with K show ?thesis by blast
      next
        case served: False
        then have "do_page_fault_user ops cr2 ec w = cow_resolve p (vm_page_prot v) w"
          using p walk Some ec by (auto simp: do_page_fault_user_def split: if_splits)
        moreover have "\<exists>r w'. cow_resolve p (vm_page_prot v) w = Some (r, w') \<and> fault_post ops lowest ?pgd cr2 ec r w w'"
          by (rule cow_fault_ok [OF ok pv walk [unfolded p(1)] p(2) used ec]) (simp add: Some p(3))
        ultimately show ?thesis by simp
      qed
    next
      case False
      then have "do_page_fault_user ops cr2 ec w = Some (Killed, w)"
        using Some ec e1 walk by (auto simp: do_page_fault_user_def split: option.split)
      with K show ?thesis by blast
    qed
  qed
qed


text \<open>A file whose read operation copies \<open>size\<close> bytes from \<open>offset\<close>.\<close>

definition exact_read :: "(nat \<Rightarrow> u8) \<Rightarrow> read_op" where
  "exact_read f offset sz buffer = (int (unat sz), \<lambda>i. if i < unat sz then f (unat offset + i) else buffer i)"

text \<open>
  C29. A fault in a file mapping reads the file from the offset of the faulting address, not from
  the offset of its page: byte \<open>i\<close> of the page is the byte of the file that belongs at \<open>i\<close> plus the
  offset of the faulting address in its page, so the contents of the mapping depend on which
  byte is touched first.
\<close>

theorem file_fault_shifted:
  fixes w :: world
  assumes ok: "mach_ok lowest (user_pgd w) (w_m w)"
    and used: "pte_of (user_pgd w) cr2 (w_m w) AND PAGE_COW \<noteq> 0 \<longrightarrow>
      page_used (m_pools (w_m w)) (pte_of (user_pgd w) cr2 (w_m w) AND PAGE_4K_MASK)"
    and prot: "\<forall>v\<in>set (vma_list (w_mm w)). vm_page_prot v AND PAGE_4K_MASK = 0"
    and ec: "error_code AND 3 \<noteq> 3" and v: "vma_find (vma_list (w_mm w)) cr2 = Some v" "vm_flags v AND VMA_ANON = 0"
    and node: "vm_file v = Some node" "ops node = Some (exact_read f)"
    and run: "do_page_fault_user ops cr2 error_code w = Some (Resumed, w')" and i: "i < 4096"
  shows "w_data w' (pte_of (user_pgd w) cr2 (w_m w') AND PAGE_4K_MASK) i
    = f (unat (fault_offset (cr2 AND PAGE_4K_MASK) v + (cr2 AND NOT PAGE_4K_MASK)) + i)"
proof -
  from run ec v node(1) have r: "fault_file ops cr2 v node w = Some (Resumed, w')"
    by (auto simp: do_page_fault_user_def split: if_splits)
  have pv: "vm_page_prot v AND PAGE_4K_MASK = 0" using vma_find_sound [OF v(1)] prot by blast
  have "(cr2 AND PAGE_4K_MASK) + (cr2 AND NOT PAGE_4K_MASK) = (cr2 AND PAGE_4K_MASK) OR (cr2 AND NOT PAGE_4K_MASK)"
    by (rule disjunctive_add) (auto simp: bit_simps)
  also have "\<dots> = cr2 AND (PAGE_4K_MASK OR NOT PAGE_4K_MASK)" by (simp only: bit.conj_disj_distrib)
  finally have "cr2 = (cr2 AND PAGE_4K_MASK) + (cr2 AND NOT PAGE_4K_MASK)" by simp
  then have "fault_offset cr2 v = fault_offset (cr2 AND PAGE_4K_MASK) v + (cr2 AND NOT PAGE_4K_MASK)"
    unfolding fault_offset_def by (metis (no_types, lifting) add.commute add.left_commute add_diff_eq)
  moreover note fault_file_ok(2) [OF ok refl pv r refl]
  ultimately show ?thesis using i node(2)
    by (simp add: Let_def vfs_read_def exact_read_def zero_tail_def PAGE_4K_SIZE_def)
qed

definition demo_file_area :: vma where
  "demo_file_area = \<lparr>vm_self = 0, vm_start = 0x40000000, vm_end = 0x40003000, vm_flags = 0x01, vm_page_prot = 5, vm_pgoff = 0, vm_file = Some 7\<rparr>"

lemma mach_ok_fresh:
  assumes "vm_wf lowest root m" "m_pools m = []"
  shows "mach_ok lowest root m"
  using assms by (simp add: mach_ok_def sp_wf_def pool_frames_def vm_wf_def slabs_wf_def heap_frames_def mod_eq_0_iff_dvd)

lemma demo_machine:
  obtains m where "vmm_alloc_map demo_vm = Some (0xffff800001000000, m)" "mach_ok 0x200000 0xffff800001000000 m" "m_pools m = []"
proof (rule demo_space)
  fix m assume m: "vmm_alloc_map demo_vm = Some (0xffff800001000000, m)" "vm_wf 0x200000 0xffff800001000000 m"
  then have "m_pools m = []" by (auto simp: vmm_alloc_map_def calloc_def demo_vm_def Let_def split: option.splits if_splits)
  with mach_ok_fresh [OF m(2)] m(1) that show ?thesis by blast
qed

lemma demo_no_leaf:
  assumes "vmm_alloc_map demo_vm = Some (0xffff800001000000, m)"
  shows "pte_of 0xffff800001000000 0x40001234 m = 0" "pte_of 0xffff800001000000 0x40000010 m = 0"
proof -
  have "map_option (\<lambda>(r, m). (pte_of r 0x40001234 m, pte_of r 0x40000010 m)) (vmm_alloc_map demo_vm) = Some (0, 0)" by code_simp
  with assms show "pte_of 0xffff800001000000 0x40001234 m = 0" "pte_of 0xffff800001000000 0x40000010 m = 0" by auto
qed


theorem file_fault_shifted_witness:
  "\<exists>w w'. do_page_fault_user (\<lambda>_. Some (exact_read of_nat)) 0x40000010 4 w = Some (Resumed, w')
     \<and> fault_offset 0x40000000 demo_file_area = 0 \<and> w_data w' (pte_of (user_pgd w) 0x40000010 (w_m w') AND PAGE_4K_MASK) 0 = 0x10"
proof (rule demo_machine)
  fix m assume m: "vmm_alloc_map demo_vm = Some (0xffff800001000000, m)" "mach_ok 0x200000 0xffff800001000000 m"
  let ?w = "demo_world [demo_file_area] m" and ?ops = "\<lambda>_. Some (exact_read of_nat)"
  have "map_option (\<lambda>(_, m). map_option fst (do_page_fault_user ?ops 0x40000010 4 (demo_world [demo_file_area] m))) (vmm_alloc_map demo_vm)
    = Some (Some Resumed)" by code_simp
  then obtain w' where w': "do_page_fault_user ?ops 0x40000010 4 ?w = Some (Resumed, w')" using m(1) by auto
  have c: "(4 :: u64) AND 3 \<noteq> 3" "vma_find [demo_file_area] 0x40000010 = Some demo_file_area"
    "vm_flags demo_file_area AND VMA_ANON = 0" "vm_file demo_file_area = Some 7" "vm_page_prot demo_file_area AND PAGE_4K_MASK = 0"
    "unat (fault_offset (0x40000010 AND PAGE_4K_MASK) demo_file_area + (0x40000010 AND NOT PAGE_4K_MASK)) = 0x10"
    "fault_offset 0x40000000 demo_file_area = 0" by code_simp+
  from file_fault_shifted [where w = ?w and ?cr2.0 = "0x40000010" and v = demo_file_area and node = 7 and ops = ?ops
      and f = of_nat and i = 0 and error_code = 4 and lowest = "0x200000" and w' = w'] m(2) w' c demo_no_leaf [OF m(1)]
  have "w_data w' (pte_of 0xffff800001000000 0x40000010 (w_m w') AND PAGE_4K_MASK) 0 = 0x10" by simp
  with w' c(7) show ?thesis by (intro exI [of _ ?w] exI [of _ w']) simp
qed

end
