(* ===== verification/Uaccess.thy ===== *)
theory Uaccess
  imports Fault
begin

text \<open>
  Access of the kernel to user memory: the permission walk of \<^verbatim>\<open>kernel/include/arch/mmu.h\<close>, the
  range checks, the copy-on-write preparation and the fault-tolerant copies of
  \<^verbatim>\<open>kernel/memory/uaccess.c\<close>, and \<open>user_write_range_begin\<close> of \<^verbatim>\<open>kernel/memory/vma.c\<close>.

  The loops over a range advance by 4 KiB or 2 MiB and are written as partial functions: a loop
  that does not end is \<^term>\<open>None\<close>. The limit of the user addresses of the current task is a parameter.
\<close>

section \<open>Permission walk\<close>

partial_function (option) range_walk :: "(u64 \<Rightarrow> u64) \<Rightarrow> u64 \<Rightarrow> bool \<Rightarrow> u64 \<Rightarrow> u64 \<Rightarrow> bool option" where
  "range_walk mem pgd writable e va =
    (if \<not> va < e then Some True else
     let e0 = mem (entry pgd (pt_index 39 va)) in
     if e0 AND 1 = 0 then Some False else
     let user = (e0 AND 4 \<noteq> 0); rw = (e0 AND 2 \<noteq> 0);
         e1 = mem (entry (next_table e0) (pt_index 30 va)) in
     if e1 AND 1 = 0 then Some False else
     let user = (user \<and> e1 AND 4 \<noteq> 0); rw = (rw \<and> e1 AND 2 \<noteq> 0) in
     if e1 AND 0x80 \<noteq> 0 then Some False else
     let e2 = mem (entry (next_table e1) (pt_index 21 va)) in
     if e2 AND 1 = 0 then Some False else
     let user = (user \<and> e2 AND 4 \<noteq> 0); rw = (rw \<and> e2 AND 2 \<noteq> 0) in
     if e2 AND 0x80 \<noteq> 0 then
       if \<not> user \<or> writable \<and> \<not> rw then Some False
       else range_walk mem pgd writable e ((va AND NOT 0x1fffff) + 0x200000)
     else
     let e3 = mem (entry (next_table e2) (pt_index 12 va)) in
     if e3 AND 1 = 0 then Some False else
     let user = (user \<and> e3 AND 4 \<noteq> 0); upper_rw = rw; rw = (rw \<and> e3 AND 2 \<noteq> 0); cow = (e3 AND push_bit 10 1 \<noteq> 0) in
     if \<not> user \<or> writable \<and> \<not> rw \<and> \<not> (upper_rw \<and> cow) then Some False
     else range_walk mem pgd writable e (va + 0x1000))"

definition arch_user_range_accessible :: "(u64 \<Rightarrow> u64) \<Rightarrow> u64 \<Rightarrow> u64 \<Rightarrow> u64 \<Rightarrow> bool \<Rightarrow> bool option" where
  "arch_user_range_accessible mem pgd addr len writable =
    (if len = 0 then Some True
     else if addr + len < addr then Some False
     else range_walk mem pgd writable (addr + len) (addr AND NOT 0xfff))"

section \<open>Checks of a range\<close>

text \<open>The loop over the leaves: whether every copy-on-write leaf may be written, and their number.\<close>

partial_function (option) cow_scan :: "machine \<Rightarrow> mm \<Rightarrow> u64 \<Rightarrow> u64 \<Rightarrow> u64 \<Rightarrow> (bool \<times> u64) option" where
  "cow_scan m mm e va cnt =
    (if \<not> va < e then Some (True, cnt) else
     Option.bind (vmm_pt_walk (Phy_To_Virt (mm_pgdir mm)) va 0 False m) (\<lambda>r.
       case fst r of None \<Rightarrow> cow_scan m mm e ((va AND PAGE_2M_MASK) + PAGE_2M_SIZE) cnt
       | Some p \<Rightarrow>
         if m_mem m p AND PAGE_COW \<noteq> 0 then
           (case vma_find (vma_list mm) va of None \<Rightarrow> Some (False, cnt)
            | Some v \<Rightarrow>
              if vm_flags v AND VMA_PROT_WRITE = 0 \<or> vm_flags v AND VMA_IO \<noteq> 0 then Some (False, cnt)
              else cow_scan m mm e (va + PAGE_4K_SIZE) (cnt + 1))
         else cow_scan m mm e (va + PAGE_4K_SIZE) cnt))"

definition user_write_range_valid :: "u64 \<Rightarrow> u64 \<Rightarrow> u64 \<Rightarrow> world \<Rightarrow> (bool \<times> u64) option" where
  "user_write_range_valid addr_limit addr len w =
    (let mm = w_mm w in
     if len = 0 then Some (True, 0)
     else if mm_pgdir mm = 0 \<or> addr < USER_MIN_ADDR \<or> addr \<ge> addr_limit \<or> len > addr_limit - addr then Some (False, 0)
     else Option.bind (arch_user_range_accessible (m_mem (w_m w)) (Phy_To_Virt (mm_pgdir mm)) addr len True) (\<lambda>ok.
       if \<not> ok then Some (False, 0)
       else cow_scan (w_m w) mm (addr + len) (addr AND PAGE_4K_MASK) 0))"

definition syscall_check_user_range :: "u64 \<Rightarrow> u64 \<Rightarrow> u64 \<Rightarrow> bool \<Rightarrow> world \<Rightarrow> bool option" where
  "syscall_check_user_range addr_limit addr len writable w =
    (if len = 0 then Some True
     else if addr < USER_MIN_ADDR \<or> addr \<ge> addr_limit \<or> len > addr_limit - addr \<or> mm_pgdir (w_mm w) = 0 then Some False
     else if writable then map_option fst (user_write_range_valid addr_limit addr len w)
     else arch_user_range_accessible (m_mem (w_m w)) (user_pgd w) addr len False)"

section \<open>Preparing a write\<close>

record user_write_cow =
  uw_pte :: u64
  uw_old_pte :: u64
  uw_new_phys :: u64

definition sizeof_user_write_cow :: u64 where "sizeof_user_write_cow = 32"

text \<open>Staging: the error, if any, and the records of the leaves so far in order.\<close>

partial_function (option) stage_cow ::
  "u64 \<Rightarrow> u64 \<Rightarrow> u64 \<Rightarrow> user_write_cow list \<Rightarrow> world \<Rightarrow> (errno option \<times> user_write_cow list \<times> world) option" where
  "stage_cow pgd e va staged w =
    (if \<not> va < e then Some (None, staged, w) else
     Option.bind (vmm_pt_walk pgd va 0 False (w_m w)) (\<lambda>r.
       case fst r of None \<Rightarrow> stage_cow pgd e ((va AND PAGE_2M_MASK) + PAGE_2M_SIZE) staged w
       | Some p \<Rightarrow>
         let pte = m_mem (w_m w) p; phys = pte AND PAGE_4K_MASK; refs = page_cow_refs phys (subs (w_m w)) in
         if pte AND PAGE_COW = 0 then stage_cow pgd e (va + PAGE_4K_SIZE) staged w
         else if refs = 0 then Some (Some EFAULT, staged, w)
         else if refs > 1 then
           Option.bind (w_alloc_4k w) (\<lambda>a.
             if fst a = 0 then Some (Some ENOMEM, staged, snd a)
             else stage_cow pgd e (va + PAGE_4K_SIZE) (staged @ [\<lparr>uw_pte = p, uw_old_pte = pte, uw_new_phys = fst a\<rparr>])
               (set_page (fst a) (w_data (snd a) phys) (snd a)))
         else stage_cow pgd e (va + PAGE_4K_SIZE) (staged @ [\<lparr>uw_pte = p, uw_old_pte = pte, uw_new_phys = 0\<rparr>]) w))"

text \<open>One leaf of the commit, which also says whether the old page is to be freed.\<close>

definition commit_cow :: "user_write_cow \<Rightarrow> world \<Rightarrow> bool \<times> world" where
  "commit_cow s w =
    (let old_phys = uw_old_pte s AND PAGE_4K_MASK;
         phys = (if uw_new_phys s \<noteq> 0 then uw_new_phys s else old_phys);
         flags = (uw_old_pte s AND NOT PAGE_4K_MASK AND NOT PAGE_COW) OR PAGE_WRITE in
     case w_cow_put old_phys (w_store (uw_pte s) (phys OR flags) w) of
       (l, w1) \<Rightarrow> (l \<and> uw_new_phys s \<noteq> 0, w1))"

fun commit_all :: "user_write_cow list \<Rightarrow> world \<Rightarrow> u64 list \<times> world" where
  "commit_all [] w = ([], w)"
| "commit_all (s # ss) w =
    (case commit_cow s w of (free_old, w1) \<Rightarrow>
       case commit_all ss w1 of (fs, w2) \<Rightarrow> (if free_old then (uw_old_pte s AND PAGE_4K_MASK) # fs else fs, w2))"

definition prepare_user_write_range_locked :: "u64 \<Rightarrow> u64 \<Rightarrow> u64 \<Rightarrow> world \<Rightarrow> ((errno + unit) \<times> world) option" where
  "prepare_user_write_range_locked addr_limit addr len w =
    Option.bind (user_write_range_valid addr_limit addr len w) (\<lambda>(ok, count).
      if \<not> ok then Some (Inl EFAULT, w)
      else if count = 0 then Some (Inr (), w)
      else if count > - 1 div sizeof_user_write_cow then Some (Inl ENOMEM, w)
      else Option.bind (w_kmalloc (count * sizeof_user_write_cow) w) (\<lambda>(staged, w1).
        if staged = 0 then Some (Inl ENOMEM, w1)
        else Option.bind (stage_cow (user_pgd w) (addr + len) (addr AND PAGE_4K_MASK) [] w1) (\<lambda>(rc, ss, w2).
          case rc of None \<Rightarrow>
            (case commit_all ss w2 of (fs, w3) \<Rightarrow> map_option (Pair (Inr ())) (w_kfree staged (fold w_free_4k fs w3)))
          | Some e \<Rightarrow>
            map_option (Pair (Inl e))
              (w_kfree staged (fold w_free_4k (filter (\<lambda>a. a \<noteq> 0) (map uw_new_phys ss)) w2)))))"

definition prepare_user_write_range :: "u64 \<Rightarrow> u64 \<Rightarrow> u64 \<Rightarrow> world \<Rightarrow> ((errno + unit) \<times> world) option" where
  "prepare_user_write_range addr_limit addr len w =
    (if len = 0 then Some (Inr (), w) else prepare_user_write_range_locked addr_limit addr len w)"

text \<open>
  The pair around a write that does not block; the first component of the state says whether
  \<open>mm->lock\<close> is held. Taking a lock that is held spins for ever.
\<close>

definition user_write_range_begin :: "u64 \<Rightarrow> u64 \<Rightarrow> u64 \<Rightarrow> bool \<times> world \<Rightarrow> ((errno + unit) \<times> bool \<times> world) option" where
  "user_write_range_begin addr_limit addr len = (\<lambda>(held, w).
    if held then None
    else map_option (\<lambda>(r, w1). (r, r = Inr (), w1)) (prepare_user_write_range_locked addr_limit addr len w))"

definition user_write_range_end :: "bool \<times> world \<Rightarrow> bool \<times> world" where
  "user_write_range_end = (\<lambda>(held, w). (False, w))"

section \<open>Copies that survive a fault\<close>

text \<open>
  The fields of the current task that arm the recovery, with 0 for NULL, and the calls of
  cleanup functions so far. What the processor does on an access is a parameter: whether it
  faults, and the byte it reads or writes.
\<close>

record access =
  a_faults :: "u64 \<Rightarrow> world \<Rightarrow> bool"
  a_read :: "u64 \<Rightarrow> world \<Rightarrow> u8"
  a_write :: "u64 \<Rightarrow> u8 \<Rightarrow> world \<Rightarrow> world"

record ft_state =
  ft_world :: world
  fault_jmp :: u64
  fault_cleanup :: u64
  fault_cleanup_arg :: u64
  ft_calls :: "(u64 \<times> u64) list"

text \<open>
  A page fault of kernel mode: the buffer that execution continues at, or \<^term>\<open>None\<close> when the
  kernel halts.
\<close>

definition do_page_fault_kernel :: "u64 \<Rightarrow> u64 \<Rightarrow> ft_state \<Rightarrow> u64 option" where
  "do_page_fault_kernel addr_limit cr2 st = (if cr2 < addr_limit \<and> fault_jmp st \<noteq> 0 then Some (fault_jmp st) else None)"

fun write_bytes :: "access \<Rightarrow> u64 \<Rightarrow> u8 list \<Rightarrow> world \<Rightarrow> u64 option \<times> world" where
  "write_bytes hw dst [] w = (None, w)"
| "write_bytes hw dst (b # bs) w = (if a_faults hw dst w then (Some dst, w) else write_bytes hw (dst + 1) bs (a_write hw dst b w))"

fun read_bytes :: "access \<Rightarrow> u64 \<Rightarrow> nat \<Rightarrow> world \<Rightarrow> u64 + u8 list" where
  "read_bytes hw src 0 w = Inr []"
| "read_bytes hw src (Suc n) w =
    (if a_faults hw src w then Inl src else map_sum id ((#) (a_read hw src w)) (read_bytes hw (src + 1) n w))"

definition call_cleanup :: "u64 \<Rightarrow> u64 \<Rightarrow> ft_state \<Rightarrow> ft_state" where
  "call_cleanup f arg st = (if f = 0 then st else st\<lparr>ft_calls := ft_calls st @ [(f, arg)]\<rparr>)"

definition arm :: "u64 \<Rightarrow> u64 \<Rightarrow> u64 \<Rightarrow> ft_state \<Rightarrow> ft_state" where
  "arm jb f arg st = st\<lparr>fault_jmp := jb, fault_cleanup := f, fault_cleanup_arg := arg\<rparr>"

text \<open>The address \<open>jb\<close> is the one of the jump buffer on the stack of the copy.\<close>

definition copy_to_user_ft_res ::
  "access \<Rightarrow> u64 \<Rightarrow> u64 \<Rightarrow> u64 \<Rightarrow> u8 list \<Rightarrow> u64 \<Rightarrow> u64 \<Rightarrow> ft_state \<Rightarrow> ((errno + u64) \<times> ft_state) option" where
  "copy_to_user_ft_res hw addr_limit jb dst src on_fault arg st =
    (let n = of_nat (length src); old = (fault_jmp st, fault_cleanup st, fault_cleanup_arg st);
         restore = (\<lambda>st. case old of (j, f, a) \<Rightarrow> arm j f a st) in
     if n = 0 then Some (Inr 0, st)
     else Option.bind (prepare_user_write_range addr_limit dst n (ft_world st)) (\<lambda>(r, w).
       case r of Inl e \<Rightarrow> Some (Inl e, call_cleanup on_fault arg (st\<lparr>ft_world := w\<rparr>))
       | Inr _ \<Rightarrow>
         let st1 = arm jb on_fault arg st in
         (case write_bytes hw dst src w of
            (None, w1) \<Rightarrow> Some (Inr n, restore (st1\<lparr>ft_world := w1\<rparr>))
          | (Some cr2, w1) \<Rightarrow>
            Option.bind (do_page_fault_kernel addr_limit cr2 st1) (\<lambda>_.
              Some (Inl EFAULT, restore (call_cleanup on_fault arg (st1\<lparr>ft_world := w1\<rparr>)))))))"

definition copy_from_user_ft_res ::
  "access \<Rightarrow> u64 \<Rightarrow> u64 \<Rightarrow> u64 \<Rightarrow> nat \<Rightarrow> u64 \<Rightarrow> u64 \<Rightarrow> ft_state \<Rightarrow> ((errno + u8 list) \<times> ft_state) option" where
  "copy_from_user_ft_res hw addr_limit jb src n on_fault arg st =
    (let old = (fault_jmp st, fault_cleanup st, fault_cleanup_arg st);
         restore = (\<lambda>st. case old of (j, f, a) \<Rightarrow> arm j f a st) in
     if n = 0 then Some (Inr [], st)
     else let st1 = arm jb on_fault arg st in
       (case read_bytes hw src n (ft_world st) of
          Inr bs \<Rightarrow> Some (Inr bs, restore st1)
        | Inl cr2 \<Rightarrow> Option.bind (do_page_fault_kernel addr_limit cr2 st1) (\<lambda>_.
            Some (Inl EFAULT, restore (call_cleanup on_fault arg st1)))))"

text \<open>The scan for the end of a string, at most \<open>max\<close> bytes: the count, or the faulting address.\<close>

fun strnlen_scan :: "access \<Rightarrow> u64 \<Rightarrow> nat \<Rightarrow> world \<Rightarrow> u64 + nat" where
  "strnlen_scan hw p 0 w = Inr 0"
| "strnlen_scan hw p (Suc n) w =
    (if a_faults hw p w then Inl p else if a_read hw p w = 0 then Inr 0 else map_sum id Suc (strnlen_scan hw (p + 1) n w))"

definition strnlen_user :: "access \<Rightarrow> u64 \<Rightarrow> u64 \<Rightarrow> u64 \<Rightarrow> u64 \<Rightarrow> ft_state \<Rightarrow> ((errno + u32) \<times> ft_state) option" where
  "strnlen_user hw addr_limit jb p max_len st =
    (let st1 = st\<lparr>fault_jmp := jb\<rparr>; restore = (\<lambda>st1. st1\<lparr>fault_jmp := fault_jmp st\<rparr>) in
     case strnlen_scan hw p (unat max_len) (ft_world st) of
       Inr i \<Rightarrow> Some (Inr (of_nat i), restore st1)
     | Inl cr2 \<Rightarrow> Option.bind (do_page_fault_kernel addr_limit cr2 st1) (\<lambda>_. Some (Inl EFAULT, restore st1)))"

section \<open>The walk and the permissions of an address\<close>

text \<open>
  The effective permissions of one address: every level must be present and allow user access; a
  write needs the write bit on every level, where a copy-on-write leaf counts as writable.
\<close>

definition user_ok :: "(u64 \<Rightarrow> u64) \<Rightarrow> u64 \<Rightarrow> bool \<Rightarrow> u64 \<Rightarrow> bool" where
  "user_ok mem pgd writable x =
    (let e0 = mem (entry pgd (pt_index 39 x)); e1 = mem (entry (next_table e0) (pt_index 30 x));
         e2 = mem (entry (next_table e1) (pt_index 21 x)); e3 = mem (entry (next_table e2) (pt_index 12 x));
         upper = [e0, e1, e2] in
     list_all (\<lambda>e. e AND 1 \<noteq> 0 \<and> e AND 4 \<noteq> 0 \<and> (writable \<longrightarrow> e AND 2 \<noteq> 0)) upper \<and> e1 AND 0x80 = 0
     \<and> (e2 AND 0x80 = 0 \<longrightarrow> e3 AND 1 \<noteq> 0 \<and> e3 AND 4 \<noteq> 0 \<and> (writable \<longrightarrow> e3 AND 2 \<noteq> 0 \<or> e3 AND push_bit 10 1 \<noteq> 0)))"

definition huge_leaf :: "(u64 \<Rightarrow> u64) \<Rightarrow> u64 \<Rightarrow> u64 \<Rightarrow> bool" where
  "huge_leaf mem pgd x =
    (mem (entry (next_table (mem (entry (next_table (mem (entry pgd (pt_index 39 x)))) (pt_index 30 x)))) (pt_index 21 x)) AND 0x80 \<noteq> 0)"

definition next_va :: "(u64 \<Rightarrow> u64) \<Rightarrow> u64 \<Rightarrow> u64 \<Rightarrow> u64" where
  "next_va mem pgd va = (if huge_leaf mem pgd va then (va AND NOT 0x1fffff) + 0x200000 else va + 0x1000)"

lemma range_walk_step:
  "range_walk mem pgd writable e va =
    (if \<not> va < e then Some True else if user_ok mem pgd writable va then range_walk mem pgd writable e (next_va mem pgd va) else Some False)"
  by (subst range_walk.simps) (auto simp: user_ok_def next_va_def huge_leaf_def Let_def)

lemma pt_index_same: "unat x div 2 ^ k = unat y div 2 ^ k \<Longrightarrow> k \<le> s \<Longrightarrow> pt_index s x = pt_index s y"
proof -
  assume d: "unat x div 2 ^ k = unat y div 2 ^ k" and "k \<le> s"
  then obtain j where "s = k + j" using le_iff_add by blast
  then show ?thesis unfolding pt_index_div by (simp add: power_add div_mult2_eq d)
qed

lemma user_ok_page:
  assumes "unat x div 2 ^ k = unat y div 2 ^ k" "k = 12 \<or> k = 21 \<and> huge_leaf mem pgd x"
  shows "user_ok mem pgd writable x = user_ok mem pgd writable y"
proof -
  have k: "k \<le> 21" using assms(2) by auto
  have i: "pt_index 39 x = pt_index 39 y" "pt_index 30 x = pt_index 30 y" "pt_index 21 x = pt_index 21 y"
    using k by (auto intro!: pt_index_same [OF assms(1)])
  have "huge_leaf mem pgd x = huge_leaf mem pgd y" by (simp add: huge_leaf_def i)
  show ?thesis
  proof (cases "huge_leaf mem pgd x")
    case True
    then show ?thesis by (simp add: user_ok_def huge_leaf_def i Let_def)
  next
    case False
    with assms(2) have "k \<le> 12" by simp
    then have "pt_index 12 x = pt_index 12 y" by (rule pt_index_same [OF assms(1)])
    then show ?thesis by (simp add: user_ok_def i)
  qed
qed

text \<open>The step leads to the start of the next page.\<close>

lemma next_va_nat:
  fixes mem :: "u64 \<Rightarrow> u64" and pgd :: u64
  assumes "unat va < 2 ^ 47" "4096 dvd unat va"
  defines "k \<equiv> (if huge_leaf mem pgd va then 21 else 12 :: nat)"
  shows "unat (next_va mem pgd va) = (unat va div 2 ^ k + 1) * 2 ^ k"
proof -
  have m: "(0x1fffff :: u64) = mask 21" by (simp add: mask_eq_exp_minus_1)
  have "unat (va AND NOT 0x1fffff) = unat va div 2 ^ 21 * 2 ^ 21"
    unfolding m unat_and_not_mask by (metis minus_mod_eq_div_mult)
  moreover have "unat va div 2 ^ 21 * 2 ^ 21 \<le> unat va" by simp
  ultimately have h: "unat ((va AND NOT 0x1fffff) + 0x200000) = (unat va div 2 ^ 21 + 1) * 2 ^ 21"
    using assms(1) by (subst unat_add_small) simp_all
  have "unat (va + 0x1000) = unat va + 4096" using assms(1) by (subst unat_add_small) simp_all
  also have "\<dots> = (unat va div 2 ^ 12 + 1) * 2 ^ 12" using assms(2) by (auto elim!: dvdE)
  finally show ?thesis using h by (simp add: next_va_def k_def)
qed

lemma range_walk_exact:
  assumes "4096 dvd unat va" "unat e \<le> 2 ^ 47"
  shows "range_walk mem pgd writable e va = Some (\<forall>x. va \<le> x \<and> x < e \<longrightarrow> user_ok mem pgd writable x)"
  using assms(1)
proof (induction "2 ^ 48 - unat va" arbitrary: va rule: less_induct)
  case less
  show ?case
  proof (cases "va < e \<and> user_ok mem pgd writable va")
    case False
    then show ?thesis by (subst range_walk_step) auto
  next
    case True
    let ?k = "if huge_leaf mem pgd va then 21 else 12 :: nat" and ?n = "next_va mem pgd va"
    from True assms(2) have b: "unat va < 2 ^ 47" by (simp add: word_less_nat_alt)
    note n = next_va_nat [OF b less.prems, of mem pgd]
    have lt: "unat va < unat ?n" unfolding n by (simp add: dividend_less_div_times add.commute)
    have dv: "4096 dvd unat ?n" unfolding n by (auto intro: dvd_mult)
    have same: "user_ok mem pgd writable x" if x: "va \<le> x" "x < ?n" for x
    proof -
      have "unat va div 2 ^ ?k = unat x div 2 ^ ?k"
        using x unfolding word_le_nat_alt word_less_nat_alt n
        by (intro div_nat_eqI [symmetric]) (auto simp: algebra_simps intro: order_trans [OF div_times_less_eq_dividend])
      from user_ok_page [OF this, of mem pgd writable] True show ?thesis by (auto split: if_splits)
    qed
    have "range_walk mem pgd writable e va = range_walk mem pgd writable e ?n" using True by (subst range_walk_step) simp
    also have "\<dots> = Some (\<forall>x. ?n \<le> x \<and> x < e \<longrightarrow> user_ok mem pgd writable x)"
      by (rule less.hyps) (use lt b dv in simp_all)
    finally show ?thesis using same lt by (auto simp: word_le_nat_alt word_less_nat_alt) (metis not_le)
  qed
qed

lemma unat_page_base: "unat (x AND NOT 0xfff) = unat x div 4096 * 4096" for x :: u64
proof -
  have m: "(0xfff :: u64) = mask 12" by (simp add: mask_eq_exp_minus_1)
  show ?thesis unfolding m unat_and_not_mask using minus_mod_eq_div_mult [of "unat x" "2 ^ 12"] by simp
qed

lemma accessible_exact:
  assumes "unat addr + unat len \<le> 2 ^ 47"
  shows "arch_user_range_accessible mem pgd addr len writable = Some (\<forall>x. addr \<le> x \<and> x < addr + len \<longrightarrow> user_ok mem pgd writable x)"
proof (cases "len = 0")
  case True
  then show ?thesis by (auto simp: arch_user_range_accessible_def)
next
  case False
  then have pos: "0 < unat len" by (simp add: unat_gt_0)
  have e: "unat (addr + len) = unat addr + unat len" using assms by (subst unat_add_small) simp_all
  let ?b = "addr AND NOT 0xfff"
  have b: "unat ?b \<le> unat addr" "4096 dvd unat ?b" "unat addr < unat ?b + 4096" unfolding unat_page_base by (simp_all add: dividend_less_div_times mult.commute)
  have "unat (addr + len) \<le> 2 ^ 47" using e assms by simp
  from range_walk_exact [OF b(2) this] have "range_walk mem pgd writable (addr + len) ?b
      = Some (\<forall>x. ?b \<le> x \<and> x < addr + len \<longrightarrow> user_ok mem pgd writable x)" .
  moreover have "user_ok mem pgd writable x" if x: "?b \<le> x" "x < addr" and a: "user_ok mem pgd writable addr" for x
  proof -
    have "unat x div 2 ^ 12 = unat addr div 2 ^ 12"
      using x b unfolding word_le_nat_alt word_less_nat_alt unat_page_base by (intro div_nat_eqI) auto
    from user_ok_page [OF this, of mem pgd writable] a show ?thesis by simp
  qed
  moreover have "addr < addr + len" "\<not> addr + len < addr" using pos e by (simp_all add: word_less_nat_alt)
  ultimately have "range_walk mem pgd writable (addr + len) ?b = Some (\<forall>x. addr \<le> x \<and> x < addr + len \<longrightarrow> user_ok mem pgd writable x)"
    using b(1) by (auto simp: word_le_nat_alt) (metis linorder_not_le order_refl word_le_nat_alt)+
  then show ?thesis using False \<open>\<not> addr + len < addr\<close> by (simp add: arch_user_range_accessible_def)
qed

text \<open>
  C30. The permission walk is exact: for every contents of the page tables and every range below
  128 TiB it ends, and it answers true exactly when each single address of the range is present,
  open to user mode and, for a write, writable or copy-on-write. Steps over 2 MiB leaves skip
  no address with other permissions.
\<close>

theorem user_range_exact:
  assumes "unat addr + unat len \<le> 2 ^ 47"
  shows "arch_user_range_accessible mem pgd addr len writable = Some (\<forall>x. addr \<le> x \<and> x < addr + len \<longrightarrow> user_ok mem pgd writable x)"
  by (rule accessible_exact [OF assms])

theorem user_range_exact_witness:
  "arch_user_range_accessible (\<lambda>_. 7) 0 0x400123 0x2000 True = Some True
   \<and> arch_user_range_accessible (\<lambda>a. if a = 0xffff800000000010 then 5 else 7) 0 0x400123 0x2000 True = Some False"
proof -
  have "user_ok (\<lambda>_. 7) 0 True x" for x by (simp add: user_ok_def)
  moreover have "\<exists>x. 0x400123 \<le> x \<and> x < 0x400123 + 0x2000 \<and> \<not> user_ok (\<lambda>a. if a = 0xffff800000000010 then 5 else 7) 0 True x"
    by (rule exI [of _ "0x400123"]) code_simp
  ultimately show ?thesis
    using user_range_exact [of "0x400123" "0x2000" "\<lambda>_. 7" 0 True]
      user_range_exact [of "0x400123" "0x2000" "\<lambda>a. if a = 0xffff800000000010 then 5 else 7" 0 True] by simp
qed

section \<open>The leaves of a range\<close>

text \<open>The address of the entry for a 4 KiB page, if its table exists, and the pages of a range that have one.\<close>

definition slot :: "u64 \<Rightarrow> u64 \<Rightarrow> machine \<Rightarrow> u64 option" where
  "slot root va m = (if 256 \<le> pt_index 39 va then None
     else map_option (\<lambda>t. entry t (pt_index 12 va)) (table_at (m_mem m) 0 root (pt_path va)))"

definition leaf_pages :: "u64 \<Rightarrow> machine \<Rightarrow> u64 \<Rightarrow> u64 \<Rightarrow> u64 list" where
  "leaf_pages root m lo hi =
    filter (\<lambda>va. slot root va m \<noteq> None) (map (\<lambda>k. of_nat (4096 * k)) [unat lo div 4096 ..< (unat hi + 4095) div 4096])"

lemma leaf_pages_nil: "\<not> va < e \<Longrightarrow> 4096 dvd unat va \<Longrightarrow> leaf_pages root m va e = []"
proof -
  assume "\<not> va < e" "4096 dvd unat va"
  then have "(unat e + 4095) div 4096 \<le> unat va div 4096" by (auto simp: word_less_nat_alt elim!: dvdE)
  then show ?thesis by (simp add: leaf_pages_def)
qed

lemma slot_same: "unat x div 2 ^ 21 = unat y div 2 ^ 21 \<Longrightarrow> slot root x m = None \<longleftrightarrow> slot root y m = None"
  using pt_index_same [of x 21 y] by (simp add: slot_def pt_path_def)

lemma leaf_pages_skip:
  assumes lt: "va < e" and dv: "4096 dvd unat va" and e: "unat e \<le> 2 ^ 47" and n: "4096 dvd unat n" "unat va < unat n"
    and none: "\<And>k. unat va \<le> 4096 * k \<Longrightarrow> 4096 * k < unat n \<Longrightarrow> slot root (of_nat (4096 * k)) m = None"
  shows "leaf_pages root m va e = leaf_pages root m n e"
proof -
  let ?a = "unat va div 4096" and ?b = "unat n div 4096" and ?c = "(unat e + 4095) div 4096"
  have ab: "?a \<le> ?b" using n(2) by (simp add: div_le_mono)
  have z: "filter (\<lambda>va. slot root va m \<noteq> None) (map (\<lambda>k. of_nat (4096 * k)) [?a..<min ?b ?c]) = []"
    using none n(1) dv by (auto simp: filter_empty_conv elim!: dvdE)
  have "[?a..<?c] = [?a..<min ?b ?c] @ [min ?b ?c..<?c]"
    using upt_add_eq_append [OF ab, of "?c - ?b"] by (cases "?b \<le> ?c") (simp_all add: min_def)
  moreover have "[min ?b ?c..<?c] = [?b..<?c]" by (auto simp: min_def)
  ultimately show ?thesis using z by (simp add: leaf_pages_def)
qed

lemma mask_2M: "PAGE_2M_MASK = NOT (mask 21)"
  by (simp add: PAGE_2M_MASK_def PAGE_2M_SIZE_def mask_eq_exp_minus_1)

lemma step_2M:
  assumes "unat va < 2 ^ 47"
  shows "unat ((va AND PAGE_2M_MASK) + PAGE_2M_SIZE) = (unat va div 2 ^ 21 + 1) * 2 ^ 21"
proof -
  have "unat (va AND PAGE_2M_MASK) = unat va div 2 ^ 21 * 2 ^ 21"
    unfolding mask_2M unat_and_not_mask by (metis minus_mod_eq_div_mult)
  moreover have "unat va div 2 ^ 21 * 2 ^ 21 \<le> unat va" by simp
  ultimately show ?thesis using assms by (subst unat_add_small) (simp_all add: PAGE_2M_SIZE_def)
qed

lemma step_4K: "unat va < 2 ^ 47 \<Longrightarrow> unat (va + PAGE_4K_SIZE) = unat va + 4096"
  by (subst unat_add_small) simp_all

lemma walk_slot: "vmm_pt_walk root va 0 False m = Some (slot root va m, m)"
  by (simp add: walk_lookup slot_def)

lemma slot_pte: "slot root va m = Some p \<Longrightarrow> m_mem m p = pte_of root va m"
  by (auto simp: slot_def pte_of_def pte_at_def split: if_splits)

lemma slot_mem: "m_mem m = m_mem m' \<Longrightarrow> slot root va m = slot root va m'"
  by (simp add: slot_def)

lemma leaf_pages_step:
  assumes lt: "va < e" and dv: "4096 dvd unat va" and e: "unat e \<le> 2 ^ 47"
  shows "slot root va m \<noteq> None \<Longrightarrow> leaf_pages root m va e = va # leaf_pages root m (va + PAGE_4K_SIZE) e"
    "slot root va m = None \<Longrightarrow> leaf_pages root m va e = leaf_pages root m ((va AND PAGE_2M_MASK) + PAGE_2M_SIZE) e"
proof -
  from lt e have b: "unat va < 2 ^ 47" by (simp add: word_less_nat_alt)
  from dv obtain k where k: "unat va = 4096 * k" by (elim dvdE)
  have va: "of_nat (4096 * k) = va" unfolding k [symmetric] by simp
  assume "slot root va m \<noteq> None"
  moreover have "[k..<(unat e + 4095) div 4096] = k # [Suc k..<(unat e + 4095) div 4096]"
    using lt k by (intro upt_conv_Cons) (auto simp: word_less_nat_alt)
  ultimately show "leaf_pages root m va e = va # leaf_pages root m (va + PAGE_4K_SIZE) e"
    using va by (simp add: leaf_pages_def step_4K [OF b] k)
next
  from lt e have b: "unat va < 2 ^ 47" by (simp add: word_less_nat_alt)
  assume none: "slot root va m = None"
  note s = step_2M [OF b]
  show "leaf_pages root m va e = leaf_pages root m ((va AND PAGE_2M_MASK) + PAGE_2M_SIZE) e"
  proof (rule leaf_pages_skip [OF lt dv e])
    show "4096 dvd unat ((va AND PAGE_2M_MASK) + PAGE_2M_SIZE)" unfolding s by (rule dvd_mult) simp
    show "unat va < unat ((va AND PAGE_2M_MASK) + PAGE_2M_SIZE)" unfolding s by (simp add: dividend_less_div_times add.commute)
    fix k assume k: "unat va \<le> 4096 * k" "4096 * k < unat ((va AND PAGE_2M_MASK) + PAGE_2M_SIZE)"
    have "4096 * k < 2 ^ 64" using k(2) unat_less_2p64 by (rule less_trans)
    then have u: "unat (of_nat (4096 * k) :: u64) = 4096 * k" by (simp only: unsigned_of_nat) (simp add: take_bit_nat_eq_self)
    have "unat (of_nat (4096 * k) :: u64) div 2 ^ 21 = unat va div 2 ^ 21" unfolding u
      using k unfolding s by (intro div_nat_eqI) (auto simp: algebra_simps intro: order_trans [OF div_times_less_eq_dividend])
    from slot_same [OF this] none show "slot root (of_nat (4096 * k)) m = None" by simp
  qed
qed

definition cow_pages :: "u64 \<Rightarrow> machine \<Rightarrow> u64 \<Rightarrow> u64 \<Rightarrow> u64 list" where
  "cow_pages root m lo hi = filter (\<lambda>va. pte_of root va m AND PAGE_COW \<noteq> 0) (leaf_pages root m lo hi)"

definition may_write :: "mm \<Rightarrow> u64 \<Rightarrow> bool" where
  "may_write mm va = (case vma_find (vma_list mm) va of None \<Rightarrow> False
     | Some v \<Rightarrow> \<not> (vm_flags v AND VMA_PROT_WRITE = 0 \<or> vm_flags v AND VMA_IO \<noteq> 0))"

text \<open>A loop over a range, by the list of leaves.\<close>

lemma range_induct [consumes 2, case_names finished leaf gap]:
  assumes e: "unat e \<le> 2 ^ 47" and dv: "4096 dvd unat va"
    and fin: "\<And>va. \<not> va < e \<Longrightarrow> leaf_pages root m va e = [] \<Longrightarrow> P va"
    and leaf: "\<And>va p. va < e \<Longrightarrow> slot root va m = Some p \<Longrightarrow> leaf_pages root m va e = va # leaf_pages root m (va + PAGE_4K_SIZE) e \<Longrightarrow>
      P (va + PAGE_4K_SIZE) \<Longrightarrow> P va"
    and gap: "\<And>va. va < e \<Longrightarrow> slot root va m = None \<Longrightarrow>
      leaf_pages root m va e = leaf_pages root m ((va AND PAGE_2M_MASK) + PAGE_2M_SIZE) e \<Longrightarrow> P ((va AND PAGE_2M_MASK) + PAGE_2M_SIZE) \<Longrightarrow> P va"
  shows "P va"
  using dv
proof (induction "2 ^ 48 - unat va" arbitrary: va rule: less_induct)
  case less
  show ?case
  proof (cases "va < e")
    case False
    then show ?thesis by (rule fin) (rule leaf_pages_nil [OF False less.prems])
  next
    case True
    with e have b: "unat va < 2 ^ 47" by (simp add: word_less_nat_alt)
    note L = leaf_pages_step [OF True less.prems e]
    show ?thesis
    proof (cases "slot root va m")
      case None
      have "unat va < unat ((va AND PAGE_2M_MASK) + PAGE_2M_SIZE)" "4096 dvd unat ((va AND PAGE_2M_MASK) + PAGE_2M_SIZE)"
        unfolding step_2M [OF b] by (simp add: dividend_less_div_times add.commute, rule dvd_mult, simp)
      with b have "P ((va AND PAGE_2M_MASK) + PAGE_2M_SIZE)" by (intro less.hyps) simp_all
      with True None L(2) show ?thesis by (blast intro: gap)
    next
      case (Some p)
      have "P (va + PAGE_4K_SIZE)" by (rule less.hyps) (use b less.prems step_4K [OF b] in simp_all)
      with True Some L(1) show ?thesis by (blast intro: leaf)
    qed
  qed
qed

lemma cow_scan_ok:
  assumes "unat e \<le> 2 ^ 47" "4096 dvd unat va"
  shows "\<exists>n. cow_scan m mm e va c = Some (list_all (may_write mm) (cow_pages (Phy_To_Virt (mm_pgdir mm)) m va e), n)
    \<and> (list_all (may_write mm) (cow_pages (Phy_To_Virt (mm_pgdir mm)) m va e) \<longrightarrow>
        n = c + of_nat (length (cow_pages (Phy_To_Virt (mm_pgdir mm)) m va e)))"
  using assms
proof (induction va arbitrary: c rule: range_induct [where root = "Phy_To_Virt (mm_pgdir mm)" and m = m])
  case (finished va)
  then show ?case by (subst cow_scan.simps) (simp add: cow_pages_def)
next
  case (leaf va p)
  let ?root = "Phy_To_Virt (mm_pgdir mm)"
  have step: "cow_scan m mm e va c = (if pte_of ?root va m AND PAGE_COW = 0 then cow_scan m mm e (va + PAGE_4K_SIZE) c
      else if may_write mm va then cow_scan m mm e (va + PAGE_4K_SIZE) (c + 1) else Some (False, c))"
    using leaf(1,2) by (subst cow_scan.simps) (auto simp: walk_slot slot_pte may_write_def split: option.split)
  show ?case using leaf(3) leaf.IH [of c] leaf.IH [of "c + 1"] unfolding step by (auto simp: cow_pages_def)
next
  case (gap va)
  then show ?case by (subst cow_scan.simps) (simp add: cow_pages_def walk_slot)
qed

lemma slot_store:
  assumes "mach_ok lowest root m" "slot root va m = Some p"
  shows "mach_ok lowest root (store p x m)" "slot root v (store p x m) = slot root v m"
    "pte_of root v (store p x m) = (if same_page v va then x else pte_of root v m)"
proof -
  from assms(2) obtain t where t: "pt_index 39 va < 256" "table_at (m_mem m) 0 root (pt_path va) = Some t" "p = entry t (pt_index 12 va)"
    by (auto simp: slot_def split: if_splits)
  show "mach_ok lowest root (store p x m)" "pte_of root v (store p x m) = (if same_page v va then x else pte_of root v m)"
    unfolding t(3) by (rule store_ok [OF assms(1) t(1,2)])+
  from assms(1) have "vm_wf lowest root m" by (simp add: mach_ok_def)
  from store_leaf(3) [OF this t(1,2), of v x] show "slot root v (store p x m) = slot root v m"
    unfolding t(3) by (simp add: slot_def)
qed

lemma limit_room:
  fixes addr len lim :: u64
  assumes "\<not> addr \<ge> lim" "\<not> len > lim - addr"
  shows "unat addr + unat len \<le> unat lim"
proof -
  have "unat (lim - addr) = unat lim - unat addr" using assms(1) by (intro unat_sub_small) simp
  with assms show ?thesis by (simp add: word_le_nat_alt word_less_nat_alt)
qed

lemma valid_ok:
  assumes lim: "unat addr_limit \<le> 2 ^ 47"
  shows "\<exists>ok n. user_write_range_valid addr_limit addr len w = Some (ok, n) \<and> (ok \<and> len \<noteq> 0 \<longrightarrow>
    USER_MIN_ADDR \<le> addr \<and> unat addr + unat len \<le> unat addr_limit
    \<and> (\<forall>x. addr \<le> x \<and> x < addr + len \<longrightarrow> user_ok (m_mem (w_m w)) (user_pgd w) True x)
    \<and> list_all (may_write (w_mm w)) (cow_pages (user_pgd w) (w_m w) (addr AND PAGE_4K_MASK) (addr + len))
    \<and> n = of_nat (length (cow_pages (user_pgd w) (w_m w) (addr AND PAGE_4K_MASK) (addr + len))))"
proof (cases "len = 0 \<or> mm_pgdir (w_mm w) = 0 \<or> addr < USER_MIN_ADDR \<or> addr \<ge> addr_limit \<or> len > addr_limit - addr")
  case True
  then show ?thesis by (auto simp: user_write_range_valid_def Let_def)
next
  case False
  then have sum: "unat addr + unat len \<le> unat addr_limit" using limit_room by blast
  then have b: "unat addr + unat len \<le> 2 ^ 47" using lim by (rule order_trans)
  have "unat (addr + len) = unat addr + unat len" using b by (subst unat_add_small) simp_all
  then have e: "unat (addr + len) \<le> 2 ^ 47" using b by simp
  have m: "(0xfff :: u64) = mask 12" by (simp add: mask_eq_exp_minus_1)
  have dv: "4096 dvd unat (addr AND PAGE_4K_MASK)" using unat_page_base [of addr] unfolding mask_4K m by simp
  from cow_scan_ok [OF e dv, of "w_m w" "w_mm w" 0] obtain n where
    "cow_scan (w_m w) (w_mm w) (addr + len) (addr AND PAGE_4K_MASK) 0 =
       Some (list_all (may_write (w_mm w)) (cow_pages (user_pgd w) (w_m w) (addr AND PAGE_4K_MASK) (addr + len)), n)"
    "list_all (may_write (w_mm w)) (cow_pages (user_pgd w) (w_m w) (addr AND PAGE_4K_MASK) (addr + len)) \<longrightarrow>
       n = of_nat (length (cow_pages (user_pgd w) (w_m w) (addr AND PAGE_4K_MASK) (addr + len)))"
    unfolding user_pgd_def by auto
  moreover from False have "USER_MIN_ADDR \<le> addr" by (simp add: not_less)
  ultimately show ?thesis using False sum accessible_exact [OF b, of "m_mem (w_m w)" "user_pgd w" True]
    by (auto simp: user_write_range_valid_def Let_def user_pgd_def)
qed

text \<open>
  C31. With user addresses below 128 TiB the check of a user range always ends, whatever the page
  tables hold. When it answers true for a range that is not empty, the range lies between the
  lowest user address and the limit without wrapping, each of its addresses has the permission
  asked for, and for a write every copy-on-write page lies in a writable area that is no device.
\<close>

theorem user_check_returns:
  assumes lim: "unat addr_limit \<le> 2 ^ 47"
  shows "\<exists>b. syscall_check_user_range addr_limit addr len writable w = Some b \<and> (b \<and> len \<noteq> 0 \<longrightarrow>
    USER_MIN_ADDR \<le> addr \<and> unat addr + unat len \<le> unat addr_limit
    \<and> (\<forall>x. addr \<le> x \<and> x < addr + len \<longrightarrow> user_ok (m_mem (w_m w)) (user_pgd w) writable x)
    \<and> (writable \<longrightarrow> list_all (may_write (w_mm w)) (cow_pages (user_pgd w) (w_m w) (addr AND PAGE_4K_MASK) (addr + len))))"
proof (cases "len = 0 \<or> addr < USER_MIN_ADDR \<or> addr \<ge> addr_limit \<or> len > addr_limit - addr \<or> mm_pgdir (w_mm w) = 0")
  case True
  then show ?thesis by (auto simp: syscall_check_user_range_def)
next
  case False
  then have sum: "unat addr + unat len \<le> unat addr_limit" using limit_room by blast
  then have b: "unat addr + unat len \<le> 2 ^ 47" using lim by (rule order_trans)
  show ?thesis
  proof (cases writable)
    case True
    with False valid_ok [OF lim, of addr len w] show ?thesis by (auto simp: syscall_check_user_range_def)
  next
    case ro: False
    moreover from False have "USER_MIN_ADDR \<le> addr" by (simp add: not_less)
    ultimately show ?thesis using False sum accessible_exact [OF b, of "m_mem (w_m w)" "user_pgd w" False]
      by (auto simp: syscall_check_user_range_def user_pgd_def)
  qed
qed

theorem user_check_returns_witness:
  "syscall_check_user_range 0x800000000000 0x400123 0x2000 False
     (demo_world [] (demo_vm\<lparr>m_mem := (\<lambda>_. 0)\<rparr>)) = Some False"
proof -
  have "\<not> user_ok (\<lambda>_. 0) 0xffff800001000000 False 0x400123" by code_simp
  then show ?thesis
    using user_check_returns [of "0x800000000000" "0x400123" "0x2000" False "demo_world [] (demo_vm\<lparr>m_mem := (\<lambda>_. 0)\<rparr>)"] by auto
qed

end
