(* ===== verification/Fork.thy ===== *)
theory Fork
  imports Fault
begin

text \<open>
  The address space of a forked child, \<open>fork_mm_copy\<close> in \<^verbatim>\<open>kernel/sched/fork.c\<close>. The first pass builds
  the tables of the child and copies what is not shared; it may fail, and the roll back then
  releases what it built. The second pass turns the writable leaves of both sides into
  copy-on-write leaves and cannot fail.

  The parent's areas and tables are those of the state's address space. The bytes of a 2 MiB frame
  are those of its 512 pages.
\<close>

section \<open>First pass\<close>

fun try_each :: "nat list \<Rightarrow> (nat \<Rightarrow> world \<Rightarrow> (bool \<times> world) option) \<Rightarrow> world \<Rightarrow> (bool \<times> world) option" where
  "try_each [] f w = Some (True, w)"
| "try_each (i # is) f w = Option.bind (f i w) (\<lambda>(ok, w1). if ok then try_each is f w1 else Some (False, w1))"

definition fork_vaddr :: "nat \<Rightarrow> nat \<Rightarrow> nat \<Rightarrow> nat \<Rightarrow> u64" where
  "fork_vaddr l4 l3 l2 l1 = push_bit 39 (of_nat l4) OR push_bit 30 (of_nat l3) OR push_bit 21 (of_nat l2) OR push_bit 12 (of_nat l1)"

definition w_load :: "u64 \<Rightarrow> world \<Rightarrow> u64" where
  "w_load a w = m_mem (w_m w) a"

definition is_io :: "u64 \<Rightarrow> world \<Rightarrow> bool" where
  "is_io va w = (case vma_find (vma_list (w_mm w)) va of None \<Rightarrow> False | Some v \<Rightarrow> vm_flags v AND VMA_IO \<noteq> 0)"

text \<open>A new zeroed table, linked from entry \<open>i\<close> of \<open>t\<close> with the bits \<open>flags\<close>; 0 if there is no memory.\<close>

definition fork_table :: "u64 \<Rightarrow> nat \<Rightarrow> u64 \<Rightarrow> world \<Rightarrow> (u64 \<times> world) option" where
  "fork_table t i flags w =
    map_option (\<lambda>(c, m). let w1 = w\<lparr>w_m := m\<rparr> in
      if c = 0 then (0, w1) else (c, w_store (entry t i) (Virt_To_Phy c OR flags) w1)) (calloc 1 PAGE_4K_SIZE (w_m w))"

definition fork_huge :: "u64 \<Rightarrow> u64 \<Rightarrow> nat \<Rightarrow> u64 \<Rightarrow> world \<Rightarrow> (bool \<times> world) option" where
  "fork_huge vaddr child_pmd l2 pmde w =
    (if is_io vaddr w then Some (True, w_store (entry child_pmd l2) pmde w)
     else map_option (\<lambda>(s, f).
       let w1 = w\<lparr>w_m := (w_m w)\<lparr>m_heap := (m_heap (w_m w))\<lparr>sl_frames := f\<rparr>\<rparr>\<rparr> in
       case s of None \<Rightarrow> (False, w1)
       | Some pg \<Rightarrow>
         let dst = phy_address (pages_struct f pg); src = (pmde AND PAGE_2M_MASK) AND NOT PAGE_NO_EXEC;
             w2 = w1\<lparr>w_data := (\<lambda>p. if p - dst < PAGE_2M_SIZE then w_data w1 (p - dst + src) else w_data w1 p)\<rparr> in
         (True, w_store (entry child_pmd l2) (dst OR (pmde AND NOT PAGE_2M_MASK)) w2))
       (alloc_pages ZONE_NORMAL 1 (sl_frames (m_heap (w_m w)))))"

definition fork_leaf :: "u64 \<Rightarrow> u64 \<Rightarrow> u64 \<Rightarrow> nat \<Rightarrow> world \<Rightarrow> (bool \<times> world) option" where
  "fork_leaf vaddr parent_pte child_pte l1 w =
    (let pte = w_load (entry parent_pte l1) w; va = vaddr OR push_bit 12 (of_nat l1);
         area = vma_find (vma_list (w_mm w)) va; child = entry child_pte l1 in
     if pte AND (PAGE_VALID OR PAGE_PROTNONE) = 0 then Some (True, w)
     else if is_io va w then Some (True, w_store child pte w)
     else if area \<noteq> None \<and> pte AND PAGE_COW \<noteq> 0 then
       Some (True, w_store child pte (w\<lparr>w_m := set_subs (page_cow_get (pte AND PAGE_4K_MASK) (subs (w_m w))) (w_m w)\<rparr>))
     else if (case area of None \<Rightarrow> False | Some v \<Rightarrow> vm_flags v AND VMA_PROT_WRITE \<noteq> 0) \<and> pte AND PAGE_WRITE \<noteq> 0 then
       Some (True, w_store child PAGE_VALID w)
     else map_option (\<lambda>(new_phys, w1).
       if new_phys = 0 then (False, w1)
       else (True, w_store child (new_phys OR (pte AND 0xfff AND NOT PAGE_COW)) (set_page new_phys (w_data w1 (pte AND PAGE_4K_MASK)) w1)))
       (w_alloc_4k w))"

definition fork_pmd_entry :: "nat \<Rightarrow> nat \<Rightarrow> u64 \<Rightarrow> u64 \<Rightarrow> nat \<Rightarrow> world \<Rightarrow> (bool \<times> world) option" where
  "fork_pmd_entry l4 l3 parent_pmd child_pmd l2 w =
    (let pmde = w_load (entry parent_pmd l2) w; vaddr = fork_vaddr l4 l3 l2 0 in
     if pmde AND PAGE_VALID = 0 then Some (True, w)
     else if pmde AND PAGE_HUGE \<noteq> 0 then fork_huge vaddr child_pmd l2 pmde w
     else Option.bind (fork_table child_pmd l2 (pmde AND 0xfff) w) (\<lambda>(child_pte, w1).
       if child_pte = 0 then Some (False, w1)
       else try_each [0..<512] (fork_leaf vaddr (next_table pmde) child_pte) w1))"

definition fork_pud_entry :: "nat \<Rightarrow> u64 \<Rightarrow> u64 \<Rightarrow> nat \<Rightarrow> world \<Rightarrow> (bool \<times> world) option" where
  "fork_pud_entry l4 parent_pud child_pud l3 w =
    (let pude = w_load (entry parent_pud l3) w in
     if pude AND PAGE_VALID = 0 then Some (True, w)
     else Option.bind (fork_table child_pud l3 PAGE_USER_PUD w) (\<lambda>(child_pmd, w1).
       if child_pmd = 0 then Some (False, w1)
       else try_each [0..<512] (fork_pmd_entry l4 l3 (next_table pude) child_pmd) w1))"

definition fork_pgd_entry :: "u64 \<Rightarrow> u64 \<Rightarrow> nat \<Rightarrow> world \<Rightarrow> (bool \<times> world) option" where
  "fork_pgd_entry parent_pgd child_pgd l4 w =
    (let pgde = w_load (entry parent_pgd l4) w in
     if pgde AND PAGE_VALID = 0 then Some (True, w)
     else Option.bind (fork_table child_pgd l4 PAGE_USER_PGD w) (\<lambda>(child_pud, w1).
       if child_pud = 0 then Some (False, w1)
       else try_each [0..<512] (fork_pud_entry l4 (next_table pgde) child_pud) w1))"

section \<open>Second pass\<close>

definition share_leaf :: "u64 \<Rightarrow> u64 \<Rightarrow> nat \<Rightarrow> world \<Rightarrow> world" where
  "share_leaf child_pte parent_pte l1 w =
    (if w_load (entry child_pte l1) w \<noteq> PAGE_VALID then w
     else let ppte = w_load (entry parent_pte l1) w; paddr = ppte AND PAGE_4K_MASK;
         w1 = w\<lparr>w_m := set_subs (page_cow_get paddr (page_cow_get paddr (subs (w_m w)))) (w_m w)\<rparr>;
         new = (ppte AND NOT PAGE_WRITE) OR PAGE_COW in
       w_store (entry child_pte l1) new (w_store (entry parent_pte l1) new w1))"

definition share_pmd_entry :: "u64 \<Rightarrow> u64 \<Rightarrow> nat \<Rightarrow> world \<Rightarrow> world" where
  "share_pmd_entry child_pmd parent_pmd l2 w =
    (let e = w_load (entry child_pmd l2) w in
     if e AND PAGE_VALID = 0 \<or> e AND PAGE_HUGE \<noteq> 0 then w
     else fold (share_leaf (next_table e) (next_table (w_load (entry parent_pmd l2) w))) [0..<512] w)"

definition share_pud_entry :: "u64 \<Rightarrow> u64 \<Rightarrow> nat \<Rightarrow> world \<Rightarrow> world" where
  "share_pud_entry child_pud parent_pud l3 w =
    (let e = w_load (entry child_pud l3) w in
     if e AND PAGE_VALID = 0 then w
     else fold (share_pmd_entry (next_table e) (next_table (w_load (entry parent_pud l3) w))) [0..<512] w)"

definition share_pgd_entry :: "u64 \<Rightarrow> u64 \<Rightarrow> nat \<Rightarrow> world \<Rightarrow> world" where
  "share_pgd_entry child_pgd parent_pgd l4 w =
    (let e = w_load (entry child_pgd l4) w in
     if e AND PAGE_VALID = 0 then w
     else fold (share_pud_entry (next_table e) (next_table (w_load (entry parent_pgd l4) w))) [0..<512] w)"

section \<open>Roll back\<close>

fun do_each :: "nat list \<Rightarrow> (nat \<Rightarrow> world \<Rightarrow> world option) \<Rightarrow> world \<Rightarrow> world option" where
  "do_each [] f w = Some w"
| "do_each (i # is) f w = Option.bind (f i w) (do_each is f)"

definition undo_leaf :: "u64 \<Rightarrow> u64 \<Rightarrow> nat \<Rightarrow> world \<Rightarrow> world option" where
  "undo_leaf vaddr pt l1 w =
    (let pte = w_load (entry pt l1) w; va = vaddr OR push_bit 12 (of_nat l1) in
     Some (if pte AND (PAGE_VALID OR PAGE_PROTNONE) \<noteq> 0 \<and> pte AND PAGE_4K_MASK \<noteq> 0 \<and> pte \<noteq> PAGE_VALID \<and> \<not> is_io va w
       then if pte AND PAGE_COW \<noteq> 0 then snd (w_cow_put (pte AND PAGE_4K_MASK) w) else w_free_4k (pte AND PAGE_4K_MASK) w
       else w))"

definition undo_huge :: "u64 \<Rightarrow> u64 \<Rightarrow> world \<Rightarrow> world option" where
  "undo_huge vaddr pmde w =
    (if is_io vaddr w then Some w
     else let f = sl_frames (m_heap (w_m w)) in
       map_option (\<lambda>f'. w\<lparr>w_m := (w_m w)\<lparr>m_heap := (m_heap (w_m w))\<lparr>sl_frames := f'\<rparr>\<rparr>\<rparr>)
         (free_pages (Some (Phy_to_2M_Page f (pmde AND PAGE_2M_MASK))) 1 f))"

definition undo_pmd_entry :: "nat \<Rightarrow> nat \<Rightarrow> u64 \<Rightarrow> nat \<Rightarrow> world \<Rightarrow> world option" where
  "undo_pmd_entry l4 l3 pmd l2 w =
    (let pmde = w_load (entry pmd l2) w; vaddr = fork_vaddr l4 l3 l2 0 in
     if pmde AND PAGE_VALID = 0 then Some w
     else if pmde AND PAGE_HUGE \<noteq> 0 then undo_huge vaddr pmde w
     else Option.bind (do_each [0..<512] (undo_leaf vaddr (next_table pmde)) w) (w_kfree (next_table pmde)))"

definition undo_pud_entry :: "nat \<Rightarrow> u64 \<Rightarrow> nat \<Rightarrow> world \<Rightarrow> world option" where
  "undo_pud_entry l4 pud l3 w =
    (let pude = w_load (entry pud l3) w in
     if pude AND PAGE_VALID = 0 then Some w
     else Option.bind (do_each [0..<512] (undo_pmd_entry l4 l3 (next_table pude)) w) (w_kfree (next_table pude)))"

definition undo_pgd_entry :: "u64 \<Rightarrow> nat \<Rightarrow> world \<Rightarrow> world option" where
  "undo_pgd_entry child_pgd l4 w =
    (let pgde = w_load (entry child_pgd l4) w in
     if pgde AND PAGE_VALID = 0 then Some w
     else Option.bind (do_each [0..<512] (undo_pud_entry l4 (next_table pgde)) w) (w_kfree (next_table pgde)))"

section \<open>The copy\<close>

definition share_kernel_half :: "u64 \<Rightarrow> u64 \<Rightarrow> world \<Rightarrow> world" where
  "share_kernel_half child_pgd kernel_pgd = fold (\<lambda>i w. w_store (entry child_pgd i) (w_load (entry kernel_pgd i) w) w) [256..<512]"

text \<open>The answer is NULL or the child's \<open>mm\<close>; \<open>init_pgdir\<close> is the physical address of the kernel's root table.\<close>

definition fork_mm_copy :: "u64 \<Rightarrow> world \<Rightarrow> ((u64 \<times> mm) option \<times> world) option" where
  "fork_mm_copy init_pgdir w =
    Option.bind (mm_alloc (w_m w)) (\<lambda>(child, m1).
    Option.bind (vmm_alloc_map m1) (\<lambda>(child_pgd, m2).
      let w2 = w\<lparr>w_m := m2\<rparr>; drop_mm = (\<lambda>w. case child of None \<Rightarrow> Some w | Some (p, _) \<Rightarrow> w_kfree p w) in
      if child = None \<or> child_pgd = 0 then
        Option.bind (drop_mm w2) (\<lambda>w3.
          map_option (Pair None) (if child_pgd = 0 then Some w3 else w_kfree child_pgd w3))
      else
        Option.bind (try_each [0..<256] (fork_pgd_entry (user_pgd w) child_pgd)
            (share_kernel_half child_pgd (Phy_To_Virt init_pgdir) w2)) (\<lambda>(ok, w3).
          if ok then
            Some (map_option (\<lambda>(p, _). (p, (w_mm w)\<lparr>vma_list := [], mm_pgdir := Virt_To_Phy child_pgd\<rparr>)) child,
              fold (share_pgd_entry child_pgd (user_pgd w)) [0..<256] w3)
          else
            map_option (Pair None) (Option.bind (do_each [0..<256] (undo_pgd_entry child_pgd) w3) (\<lambda>w4.
              Option.bind (w_kfree child_pgd w4) drop_mm)))))"

end
