(* ===== verification/Byte_Ring.thy ===== *)
theory Byte_Ring
  imports OS01_Prelude
begin

text \<open>
  Bounded byte queues. The kernel keeps input bytes in a buffer of \<open>N\<close> bytes with a producer index
  \<open>head\<close> and a consumer index \<open>tail\<close>, and leaves one byte unused, so that equal indices mean an empty
  buffer: \<open>pipe_t\<close> in \<^verbatim>\<open>kernel/fs/file.c\<close> and the input ring of \<open>tty_t\<close> in \<^verbatim>\<open>kernel/tty/tty.c\<close>.

  The first part shows what the index arithmetic of both means for the list of the bytes held. The
  second part is the interface their clients use: a first-in first-out queue of a fixed capacity.
\<close>

section \<open>The bytes between two indices\<close>

definition ring_avail :: "nat \<Rightarrow> nat \<Rightarrow> nat \<Rightarrow> nat" where
  "ring_avail n head tail = (head + n - tail) mod n"

definition ring_list :: "nat \<Rightarrow> 'a list \<Rightarrow> nat \<Rightarrow> nat \<Rightarrow> 'a list" where
  "ring_list n buf head tail = map (\<lambda>i. buf ! ((tail + i) mod n)) [0..<ring_avail n head tail]"

definition ring_ok :: "nat \<Rightarrow> 'a list \<Rightarrow> nat \<Rightarrow> nat \<Rightarrow> bool" where
  "ring_ok n buf head tail \<longleftrightarrow> length buf = n \<and> head < n \<and> tail < n"

text \<open>Copying \<open>k\<close> bytes out of the buffer from \<open>tail\<close> on, in two pieces where they wrap.\<close>

definition ring_peek :: "nat \<Rightarrow> 'a list \<Rightarrow> nat \<Rightarrow> nat \<Rightarrow> 'a list" where
  "ring_peek n buf tail k =
    (if tail + k \<le> n then take k (drop tail buf)
     else take (n - tail) (drop tail buf) @ take (k - (n - tail)) buf)"

lemma ring_avail_eq:
  assumes "head < n" "tail < n"
  shows "ring_avail n head tail = (if tail \<le> head then head - tail else head + n - tail)"
proof (cases "tail \<le> head")
  case True
  then have e: "head + n - tail = (head - tail) + n" by simp
  have "(head + n - tail) mod n = head - tail" unfolding e using assms(1) by simp
  with True show ?thesis by (simp add: ring_avail_def)
qed (use assms in \<open>simp add: ring_avail_def\<close>)

lemma length_ring_list [simp]: "length (ring_list n buf head tail) = ring_avail n head tail"
  by (simp add: ring_list_def)

lemma mod_wrap: "x < 2 * n \<Longrightarrow> x mod n = (if x < n then x else x - n)" for x n :: nat
  by (simp add: mod_if)

lemma ring_list_nth: "i < ring_avail n head tail \<Longrightarrow> ring_list n buf head tail ! i = buf ! ((tail + i) mod n)"
  by (simp add: ring_list_def)

lemma ring_empty: "head < n \<Longrightarrow> tail < n \<Longrightarrow> ring_list n buf head tail = [] \<longleftrightarrow> head = tail"
  by (auto simp: ring_avail_eq simp flip: length_0_conv)

lemma ring_full: "head < n \<Longrightarrow> tail < n \<Longrightarrow> (head + 1) mod n = tail \<longleftrightarrow> ring_avail n head tail = n - 1"
  by (auto simp: ring_avail_eq mod_wrap)

lemma ring_bound: "head < n \<Longrightarrow> tail < n \<Longrightarrow> ring_avail n head tail < n"
  by (simp add: ring_avail_def)

lemma ring_put:
  assumes "ring_ok n buf head tail" "(head + 1) mod n \<noteq> tail"
  shows "ring_ok n (buf[head := c]) ((head + 1) mod n) tail"
    "ring_list n (buf[head := c]) ((head + 1) mod n) tail = ring_list n buf head tail @ [c]"
proof -
  from assms have b: "length buf = n" "head < n" "tail < n" by (auto simp: ring_ok_def)
  then show "ring_ok n (buf[head := c]) ((head + 1) mod n) tail" by (simp add: ring_ok_def)
  have a: "ring_avail n (Suc head mod n) tail = Suc (ring_avail n head tail)"
    using b assms(2) by (auto simp: ring_avail_eq mod_wrap)
  have i: "(tail + i) mod n = head \<longleftrightarrow> i = ring_avail n head tail" if "i \<le> ring_avail n head tail" for i
    using that b by (auto simp: ring_avail_eq mod_wrap split: if_splits)
  show "ring_list n (buf[head := c]) ((head + 1) mod n) tail = ring_list n buf head tail @ [c]"
  proof (rule nth_equalityI)
    fix j assume "j < length (ring_list n (buf[head := c]) ((head + 1) mod n) tail)"
    then have j: "j < Suc (ring_avail n head tail)" by (simp add: a)
    then show "ring_list n (buf[head := c]) ((head + 1) mod n) tail ! j = (ring_list n buf head tail @ [c]) ! j"
      using b i [of j] by (cases "j = ring_avail n head tail") (simp_all add: a ring_list_nth nth_append nth_list_update)
  qed (simp add: a)
qed

lemma ring_drop:
  assumes "ring_ok n buf head tail" "k \<le> ring_avail n head tail"
  shows "ring_ok n buf head ((tail + k) mod n)"
    "ring_list n buf head ((tail + k) mod n) = drop k (ring_list n buf head tail)"
proof -
  from assms have b: "length buf = n" "head < n" "tail < n" by (auto simp: ring_ok_def)
  then show "ring_ok n buf head ((tail + k) mod n)" by (simp add: ring_ok_def)
  have a: "ring_avail n head ((tail + k) mod n) = ring_avail n head tail - k"
    using b assms(2) by (auto simp: ring_avail_eq mod_wrap split: if_splits)
  show "ring_list n buf head ((tail + k) mod n) = drop k (ring_list n buf head tail)"
    by (rule nth_equalityI) (simp_all add: a ring_list_nth mod_add_left_eq add.assoc)
qed

lemma ring_peek_eq:
  assumes "ring_ok n buf head tail" "k \<le> ring_avail n head tail"
  shows "ring_peek n buf tail k = take k (ring_list n buf head tail)"
proof -
  from assms have b: "length buf = n" "head < n" "tail < n" by (auto simp: ring_ok_def)
  then have k: "k < n" using assms(2) ring_bound [of head n tail] by simp
  show ?thesis
  proof (rule nth_equalityI)
    show l: "length (ring_peek n buf tail k) = length (take k (ring_list n buf head tail))"
      using b k assms(2) by (simp add: ring_peek_def)
    fix j assume "j < length (ring_peek n buf tail k)"
    then have "j < k" using l assms(2) by simp
    moreover have "(tail + j) mod n = (if tail + j < n then tail + j else tail + j - n)"
      using b(3) k \<open>j < k\<close> by (intro mod_wrap) simp
    ultimately show "ring_peek n buf tail k ! j = take k (ring_list n buf head tail) ! j"
      using b k assms(2) by (cases "tail + j < n") (auto simp: ring_peek_def ring_list_nth nth_append add.commute)
  qed
qed

section \<open>Queues of bounded capacity\<close>

text \<open>
  What a client relies on: \<open>bytes\<close> is the contents, \<open>put\<close> appends one byte unless the queue is
  full, \<open>peek k\<close> copies the \<open>k\<close> oldest bytes and \<open>skip k\<close> removes them.
\<close>

locale bounded_queue =
  fixes ok :: "'s \<Rightarrow> bool" and bytes :: "'s \<Rightarrow> 'a list" and cap :: nat
    and full :: "'s \<Rightarrow> bool" and put :: "'a \<Rightarrow> 's \<Rightarrow> 's"
    and avail :: "'s \<Rightarrow> nat" and peek :: "nat \<Rightarrow> 's \<Rightarrow> 'a list" and skip :: "nat \<Rightarrow> 's \<Rightarrow> 's"
  assumes full_iff: "ok s \<Longrightarrow> full s \<longleftrightarrow> length (bytes s) = cap"
    and bound: "ok s \<Longrightarrow> length (bytes s) \<le> cap"
    and put_ok: "ok s \<Longrightarrow> \<not> full s \<Longrightarrow> ok (put c s) \<and> bytes (put c s) = bytes s @ [c]"
    and avail_eq: "ok s \<Longrightarrow> avail s = length (bytes s)"
    and peek_eq: "ok s \<Longrightarrow> k \<le> avail s \<Longrightarrow> peek k s = take k (bytes s)"
    and skip_ok: "ok s \<Longrightarrow> k \<le> avail s \<Longrightarrow> ok (skip k s) \<and> bytes (skip k s) = drop k (bytes s)"
begin

text \<open>A consumer copies the front of the queue and removes it later; what it copied is still the front then.\<close>

lemma peek_front: "ok s \<Longrightarrow> k \<le> avail s \<Longrightarrow> peek k s = take (length (peek k s)) (bytes s)"
  by (simp add: peek_eq avail_eq)

lemma skip_front:
  assumes "ok s" "bs = take (length bs) (bytes s)"
  shows "bytes s = bs @ bytes (skip (length bs) s)" "ok (skip (length bs) s)"
proof -
  from arg_cong [OF assms(2), of length] have "length bs \<le> avail s" by (simp add: avail_eq [OF assms(1)])
  from skip_ok [OF assms(1) this] assms(2) append_take_drop_id [of "length bs" "bytes s"]
  show "bytes s = bs @ bytes (skip (length bs) s)" "ok (skip (length bs) s)" by simp_all
qed

end

text \<open>A producer's loop: bytes are appended while there are any and the queue has room.\<close>

locale queue_producer = bounded_queue +
  fixes fill :: "'b list \<Rightarrow> 'a \<Rightarrow> nat \<times> 'a"
  assumes fill_Nil: "fill [] s = (0, s)"
    and fill_Cons: "fill (c # cs) s = (if full s then (0, s) else let (k, s') = fill cs (put c s) in (Suc k, s'))"
begin

lemma producer_fills:
  "ok s \<Longrightarrow> fill cs s = (k, s') \<Longrightarrow>
     ok s' \<and> bytes s' = bytes s @ take k cs \<and> k = min (length cs) (cap - length (bytes s))"
proof (induction cs arbitrary: s k)
  case Nil
  then show ?case by (simp add: fill_Nil)
next
  case (Cons c cs)
  show ?case
  proof (cases "full s")
    case True
    with Cons.prems full_iff [of s] show ?thesis by (auto simp: fill_Cons)
  next
    case False
    with Cons.prems obtain j where j: "fill cs (put c s) = (j, s')" "k = Suc j" by (auto simp: fill_Cons split: prod.splits)
    note p = put_ok [OF Cons.prems(1) False, of c]
    from full_iff [of s] bound [of s] Cons.prems(1) False have "length (bytes s) < cap" by simp
    with p Cons.IH [OF conjunct1 [OF p] j(1)] j(2) show ?thesis by auto
  qed
qed

end

end
