(* ===== verification/Pipe.thy ===== *)
theory Pipe
  imports Byte_Ring
begin

text \<open>
  The ring of a pipe, \<^verbatim>\<open>kernel/fs/file.c\<close>, and its proof of the interface of \<^verbatim>\<open>Byte_Ring\<close>. The sections of code
  that readers and writers run on it are in \<^verbatim>\<open>Pipe_Steps\<close>.

  A task is the number of its \<open>task_t\<close>; a wait queue is the list of the tasks whose \<open>io_wait_node\<close> is
  on it, and \<open>read_poll\<close> and \<open>write_poll\<close> are lists of the numbers of the polls registered.
\<close>

section \<open>The ring\<close>

definition PIPE_SIZE :: nat where "PIPE_SIZE = 512"

type_synonym tid = nat

record pipe =
  p_buf :: "u8 list"
  p_head :: nat
  p_tail :: nat
  readers :: int
  writers :: int
  read_wait :: "tid list"
  write_wait :: "tid list"
  read_poll :: "nat list"
  write_poll :: "nat list"
  read_busy :: bool
  read_busy_wq :: "tid list"

definition pipe_empty :: "pipe \<Rightarrow> bool" where
  "pipe_empty p = (p_head p = p_tail p)"

definition pipe_full :: "pipe \<Rightarrow> bool" where
  "pipe_full p = ((p_head p + 1) mod PIPE_SIZE = p_tail p)"

definition pipe_avail :: "pipe \<Rightarrow> nat" where
  "pipe_avail p = (p_head p + PIPE_SIZE - p_tail p) mod PIPE_SIZE"

definition pipe_peek :: "nat \<Rightarrow> pipe \<Rightarrow> u8 list" where
  "pipe_peek k p =
    (if p_tail p + k \<le> PIPE_SIZE then take k (drop (p_tail p) (p_buf p))
     else take (PIPE_SIZE - p_tail p) (drop (p_tail p) (p_buf p)) @ take (k - (PIPE_SIZE - p_tail p)) (p_buf p))"

definition pipe_commit :: "nat \<Rightarrow> pipe \<Rightarrow> pipe" where
  "pipe_commit k p = p\<lparr>p_tail := (p_tail p + k) mod PIPE_SIZE\<rparr>"

definition pipe_put :: "u8 \<Rightarrow> pipe \<Rightarrow> pipe" where
  "pipe_put c p = p\<lparr>p_buf := (p_buf p)[p_head p := c], p_head := (p_head p + 1) mod PIPE_SIZE\<rparr>"

text \<open>The drain loop of a writer: the number of bytes written, and the pipe.\<close>

fun pipe_drain :: "u8 list \<Rightarrow> pipe \<Rightarrow> nat \<times> pipe" where
  "pipe_drain [] p = (0, p)"
| "pipe_drain (c # cs) p = (if pipe_full p then (0, p) else let (k, p') = pipe_drain cs (pipe_put c p) in (Suc k, p'))"

definition pipe_new :: "u8 list \<Rightarrow> pipe" where
  "pipe_new buf = \<lparr>p_buf = buf, p_head = 0, p_tail = 0, readers = 1, writers = 1, read_wait = [], write_wait = [],
     read_poll = [], write_poll = [], read_busy = False, read_busy_wq = []\<rparr>"

definition pipe_bytes :: "pipe \<Rightarrow> u8 list" where
  "pipe_bytes p = ring_list PIPE_SIZE (p_buf p) (p_head p) (p_tail p)"

definition pipe_ok :: "pipe \<Rightarrow> bool" where
  "pipe_ok p = ring_ok PIPE_SIZE (p_buf p) (p_head p) (p_tail p)"

lemmas pipe_ring_defs = pipe_empty_def pipe_full_def pipe_avail_def pipe_peek_def pipe_commit_def pipe_put_def pipe_bytes_def pipe_ok_def

interpretation pipe_queue: bounded_queue pipe_ok pipe_bytes "PIPE_SIZE - 1" pipe_full pipe_put pipe_avail pipe_peek pipe_commit
proof
  fix p c k
  assume ok: "pipe_ok p"
  then have b: "p_head p < PIPE_SIZE" "p_tail p < PIPE_SIZE" and r: "ring_ok PIPE_SIZE (p_buf p) (p_head p) (p_tail p)"
    by (simp_all add: pipe_ok_def ring_ok_def)
  show "pipe_full p \<longleftrightarrow> length (pipe_bytes p) = PIPE_SIZE - 1" using ring_full [OF b] by (simp add: pipe_full_def pipe_bytes_def)
  show "length (pipe_bytes p) \<le> PIPE_SIZE - 1" using ring_bound [OF b] by (simp add: pipe_bytes_def)
  show "pipe_avail p = length (pipe_bytes p)" by (simp add: pipe_bytes_def pipe_avail_def ring_avail_def)
  show "pipe_ok (pipe_put c p) \<and> pipe_bytes (pipe_put c p) = pipe_bytes p @ [c]" if "\<not> pipe_full p"
    using that ring_put [OF r] by (simp add: pipe_ring_defs)
  assume "k \<le> pipe_avail p"
  then have k: "k \<le> ring_avail PIPE_SIZE (p_head p) (p_tail p)" by (simp add: pipe_avail_def ring_avail_def)
  show "pipe_peek k p = take k (pipe_bytes p)" using ring_peek_eq [OF r k] by (simp add: pipe_peek_def pipe_bytes_def ring_peek_def)
  show "pipe_ok (pipe_commit k p) \<and> pipe_bytes (pipe_commit k p) = drop k (pipe_bytes p)"
    using ring_drop [OF r k] by (simp add: pipe_ring_defs)
qed

interpretation pipe_writer: queue_producer pipe_ok pipe_bytes "PIPE_SIZE - 1" pipe_full pipe_put pipe_avail pipe_peek pipe_commit pipe_drain
  by unfold_locales simp_all

end
