(* ===== verification/Pipe_Steps.thy ===== *)
theory Pipe_Steps
  imports Pipe
begin

text \<open>
  Readers, writers and closers of a pipe as a step relation. A state holds the pipe and, for every
  task, the point it has reached in \<open>pipe_read_internal\<close>, \<open>pipe_write_internal\<close> or the pipe part of
  \<open>file_free\<close>. A step is a section under a lock, up to the next lock the section takes while it holds
  the first one, or an action of a task on its own data. Which task moves, whether a copy to or from
  user memory faults, whether memory runs out and whether a fatal signal is pending is left open.

  The locks that are taken while another one is held have their holder in the state: the lock of the
  pipe and those of its two queues \<open>read_wait\<close> and \<open>write_wait\<close>. Two fields record the bytes that all
  writes have put in and that all committed reads have taken out.
\<close>

section \<open>State\<close>

text \<open>A result is the byte count or the error; \<open>size\<close> is the size asked for, \<open>src\<close> the bytes of the user's buffer.\<close>

type_synonym result = "errno + nat"

datatype point =
    Idle
  | R_reserve nat | R_busy nat | R_busy_sleep nat
  | R_check nat | R_queue nat | R_register nat | R_sleep nat | R_signal nat
  | R_bounce nat | R_peek nat | R_copy "u8 list" | R_commit "u8 list" | R_wake "u8 list"
  | R_clear result | R_wake_all result | R_done result
  | W_alloc "u8 list" | W_stage "u8 list" nat | W_drain "u8 list" nat "u8 list" | W_wake "u8 list" nat
  | W_queue "u8 list" nat | W_register "u8 list" nat | W_sleep "u8 list" nat | W_signal "u8 list" nat | W_done result
  | C_close bool | C_wake_r bool | C_wake_w bool | C_done bool

record psys =
  pp :: pipe
  poll_wq :: "nat \<Rightarrow> tid list"
  p_lock :: "tid option"
  rw_lock :: "tid option"
  ww_lock :: "tid option"
  running :: "tid \<Rightarrow> bool"
  point :: "tid \<Rightarrow> point"
  put_in :: "u8 list"
  taken :: "u8 list"

definition go :: "tid \<Rightarrow> point \<Rightarrow> psys \<Rightarrow> psys" where
  "go t x s = s\<lparr>point := (point s)(t := x)\<rparr>"

definition on_pipe :: "(pipe \<Rightarrow> pipe) \<Rightarrow> psys \<Rightarrow> psys" where
  "on_pipe f s = s\<lparr>pp := f (pp s)\<rparr>"

section \<open>Wait queues\<close>

definition mark_running :: "tid list \<Rightarrow> psys \<Rightarrow> psys" where
  "mark_running ts s = s\<lparr>running := (\<lambda>t. t \<in> set ts \<or> running s t)\<rparr>"

text \<open>\<open>wait_queue_wake_all\<close> on the queue of each registered poll.\<close>

fun wake_polls :: "nat list \<Rightarrow> psys \<Rightarrow> psys" where
  "wake_polls [] s = s"
| "wake_polls (e # es) s = wake_polls es (mark_running (poll_wq s e) (s\<lparr>poll_wq := (poll_wq s)(e := [])\<rparr>))"

definition pipe_wake_readers :: "psys \<Rightarrow> psys" where
  "pipe_wake_readers s =
    (let s1 = mark_running (take 1 (read_wait (pp s))) (on_pipe (\<lambda>p. p\<lparr>read_wait := drop 1 (read_wait p)\<rparr>) s) in
     wake_polls (read_poll (pp s1)) (on_pipe (\<lambda>p. p\<lparr>read_poll := []\<rparr>) s1))"

definition pipe_wake_writers :: "psys \<Rightarrow> psys" where
  "pipe_wake_writers s =
    (let s1 = mark_running (take 1 (write_wait (pp s))) (on_pipe (\<lambda>p. p\<lparr>write_wait := drop 1 (write_wait p)\<rparr>) s) in
     wake_polls (write_poll (pp s1)) (on_pipe (\<lambda>p. p\<lparr>write_poll := []\<rparr>) s1))"

definition wake_busy :: "psys \<Rightarrow> psys" where
  "wake_busy s = mark_running (read_busy_wq (pp s)) (on_pipe (\<lambda>p. p\<lparr>read_busy_wq := []\<rparr>) s)"

definition sleep_mark :: "tid \<Rightarrow> psys \<Rightarrow> psys" where
  "sleep_mark t s = s\<lparr>running := (running s)(t := False)\<rparr>"

section \<open>Sections of a reader\<close>

definition read_start :: "tid \<Rightarrow> nat \<Rightarrow> psys \<Rightarrow> psys" where
  "read_start t sz s = go t (if sz = 0 then R_done (Inl EPERM) else R_reserve sz) s"

definition read_reserve :: "tid \<Rightarrow> nat \<Rightarrow> psys \<Rightarrow> psys" where
  "read_reserve t sz s =
    (if \<not> read_busy (pp s) then go t (R_check sz) (on_pipe (\<lambda>p. p\<lparr>read_busy := True\<rparr>) s) else go t (R_busy sz) s)"

definition busy_enqueue :: "tid \<Rightarrow> nat \<Rightarrow> psys \<Rightarrow> psys" where
  "busy_enqueue t sz s =
    go t (R_busy_sleep sz) (sleep_mark t (on_pipe (\<lambda>p. p\<lparr>read_busy_wq := read_busy_wq p @ [t]\<rparr>) s))"

definition busy_awake :: "tid \<Rightarrow> nat \<Rightarrow> psys \<Rightarrow> psys" where
  "busy_awake t sz s = go t (R_reserve sz) (on_pipe (\<lambda>p. p\<lparr>read_busy_wq := removeAll t (read_busy_wq p)\<rparr>) s)"

definition read_check :: "tid \<Rightarrow> nat \<Rightarrow> psys \<Rightarrow> psys" where
  "read_check t sz s =
    go t (if \<not> pipe_empty (pp s) then R_bounce sz else if writers (pp s) = 0 then R_clear (Inr 0) else R_queue sz) s"

definition read_enqueue :: "tid \<Rightarrow> nat \<Rightarrow> psys \<Rightarrow> psys" where
  "read_enqueue t sz s =
    go t (R_register sz) (on_pipe (\<lambda>p. p\<lparr>read_wait := read_wait p @ [t]\<rparr>) (s\<lparr>rw_lock := Some t\<rparr>))"

definition read_register :: "tid \<Rightarrow> nat \<Rightarrow> psys \<Rightarrow> psys" where
  "read_register t sz s =
    (let s1 = s\<lparr>rw_lock := None\<rparr>; s2 = on_pipe (\<lambda>p. p\<lparr>read_wait := removeAll t (read_wait p)\<rparr>) s1 in
     if writers (pp s) = 0 \<and> pipe_empty (pp s) then go t (R_clear (Inr 0)) s2
     else if \<not> pipe_empty (pp s) then go t (R_signal sz) s2
     else go t (R_sleep sz) (sleep_mark t s1))"

definition read_awake :: "tid \<Rightarrow> nat \<Rightarrow> psys \<Rightarrow> psys" where
  "read_awake t sz s = go t (R_signal sz) (on_pipe (\<lambda>p. p\<lparr>read_wait := removeAll t (read_wait p)\<rparr>) s)"

definition read_signal :: "bool \<Rightarrow> tid \<Rightarrow> nat \<Rightarrow> psys \<Rightarrow> psys" where
  "read_signal fatal t sz s = go t (if fatal then R_clear (Inl EINTR) else R_check sz) s"

definition read_bounce :: "bool \<Rightarrow> tid \<Rightarrow> nat \<Rightarrow> psys \<Rightarrow> psys" where
  "read_bounce memory t sz s = go t (if memory then R_peek sz else R_clear (Inl ENOMEM)) s"

definition read_peek :: "tid \<Rightarrow> nat \<Rightarrow> psys \<Rightarrow> psys" where
  "read_peek t sz s =
    (let n = pipe_avail (pp s) in go t (R_copy (pipe_peek (if n > sz then sz else n) (pp s))) s)"

text \<open>On a fault the callback releases the reservation and the call returns.\<close>

definition read_copy :: "bool \<Rightarrow> tid \<Rightarrow> u8 list \<Rightarrow> psys \<Rightarrow> psys" where
  "read_copy fault t bs s = go t (if fault then R_clear (Inl EFAULT) else R_commit bs) s"

definition read_commit :: "tid \<Rightarrow> u8 list \<Rightarrow> psys \<Rightarrow> psys" where
  "read_commit t bs s =
    go t (R_wake bs) (on_pipe (pipe_commit (length bs)) (s\<lparr>p_lock := Some t, taken := taken s @ bs\<rparr>))"

definition read_wake :: "tid \<Rightarrow> u8 list \<Rightarrow> psys \<Rightarrow> psys" where
  "read_wake t bs s = go t (R_clear (Inr (length bs))) ((pipe_wake_writers s)\<lparr>p_lock := None\<rparr>)"

definition read_clear :: "tid \<Rightarrow> result \<Rightarrow> psys \<Rightarrow> psys" where
  "read_clear t r s =
    (if read_busy (pp s) then go t (R_wake_all r) (on_pipe (\<lambda>p. p\<lparr>read_busy := False\<rparr>) s) else go t (R_done r) s)"

definition read_wake_all :: "tid \<Rightarrow> result \<Rightarrow> psys \<Rightarrow> psys" where
  "read_wake_all t r s = go t (R_done r) (wake_busy s)"

section \<open>Sections of a writer\<close>

definition write_start :: "tid \<Rightarrow> u8 list \<Rightarrow> psys \<Rightarrow> psys" where
  "write_start t src s = go t (if src = [] then W_done (Inl EPERM) else W_alloc src) s"

definition write_alloc :: "bool \<Rightarrow> tid \<Rightarrow> u8 list \<Rightarrow> psys \<Rightarrow> psys" where
  "write_alloc memory t src s = go t (if memory then W_stage src 0 else W_done (Inl ENOMEM)) s"

definition write_stage :: "bool \<Rightarrow> tid \<Rightarrow> u8 list \<Rightarrow> nat \<Rightarrow> psys \<Rightarrow> psys" where
  "write_stage fault t src tot s =
    (let remaining = length src - tot; want = (if remaining < PIPE_SIZE then remaining else PIPE_SIZE) in
     go t (if fault then W_done (if tot = 0 then Inl EFAULT else Inr tot) else W_drain src tot (take want (drop tot src))) s)"

definition write_drain :: "tid \<Rightarrow> u8 list \<Rightarrow> nat \<Rightarrow> u8 list \<Rightarrow> psys \<Rightarrow> psys" where
  "write_drain t src tot staged s =
    (let (written, p) = pipe_drain staged (pp s); s1 = s\<lparr>pp := p, put_in := put_in s @ take written staged\<rparr> in
     if written > 0 then go t (W_wake src (tot + written)) (s1\<lparr>p_lock := Some t\<rparr>)
     else if readers (pp s) = 0 then go t (W_done (Inl EPIPE)) s1
     else go t (W_queue src tot) s1)"

definition write_wake :: "tid \<Rightarrow> u8 list \<Rightarrow> nat \<Rightarrow> psys \<Rightarrow> psys" where
  "write_wake t src tot s =
    go t (if tot = length src then W_done (Inr tot) else W_stage src tot) ((pipe_wake_readers s)\<lparr>p_lock := None\<rparr>)"

definition write_enqueue :: "tid \<Rightarrow> u8 list \<Rightarrow> nat \<Rightarrow> psys \<Rightarrow> psys" where
  "write_enqueue t src tot s =
    go t (W_register src tot) (on_pipe (\<lambda>p. p\<lparr>write_wait := write_wait p @ [t]\<rparr>) (s\<lparr>ww_lock := Some t\<rparr>))"

definition write_register :: "tid \<Rightarrow> u8 list \<Rightarrow> nat \<Rightarrow> psys \<Rightarrow> psys" where
  "write_register t src tot s =
    (let s1 = s\<lparr>ww_lock := None\<rparr>; s2 = on_pipe (\<lambda>p. p\<lparr>write_wait := removeAll t (write_wait p)\<rparr>) s1 in
     if readers (pp s) = 0 then go t (W_done (Inl EPIPE)) s2
     else if \<not> pipe_full (pp s) then go t (W_signal src tot) s2
     else go t (W_sleep src tot) (sleep_mark t s1))"

definition write_awake :: "tid \<Rightarrow> u8 list \<Rightarrow> nat \<Rightarrow> psys \<Rightarrow> psys" where
  "write_awake t src tot s = go t (W_signal src tot) (on_pipe (\<lambda>p. p\<lparr>write_wait := removeAll t (write_wait p)\<rparr>) s)"

definition write_signal :: "bool \<Rightarrow> tid \<Rightarrow> u8 list \<Rightarrow> nat \<Rightarrow> psys \<Rightarrow> psys" where
  "write_signal fatal t src tot s = go t (if fatal then W_done (Inl EINTR) else W_stage src tot) s"

section \<open>The end of a descriptor\<close>

text \<open>\<open>rd\<close> says whether the descriptor is the read end; \<open>C_done\<close> keeps whether the pipe is to be freed.\<close>

definition close_end :: "bool \<Rightarrow> tid \<Rightarrow> psys \<Rightarrow> psys" where
  "close_end rd t s =
    (let p = (if rd then (pp s)\<lparr>readers := readers (pp s) - 1\<rparr> else (pp s)\<lparr>writers := writers (pp s) - 1\<rparr>);
         final = (readers p = 0 \<and> writers p = 0) in
     go t (if rd then if readers p = 0 then C_wake_w final else C_done final
           else if writers p = 0 then C_wake_r final else C_done final) (s\<lparr>pp := p\<rparr>))"

definition close_wake_r :: "bool \<Rightarrow> tid \<Rightarrow> psys \<Rightarrow> psys" where
  "close_wake_r final t s = go t (C_done final) (pipe_wake_readers s)"

definition close_wake_w :: "bool \<Rightarrow> tid \<Rightarrow> psys \<Rightarrow> psys" where
  "close_wake_w final t s = go t (C_done final) (pipe_wake_writers s)"

section \<open>Steps\<close>

text \<open>
  Each rule names the task that moves. A section that takes the lock of the pipe or of one of its
  queues waits until the lock is free; a sleeping task waits until it is woken. The last three rules
  are what the rest of the kernel does to the tasks: a signal or a timeout makes a sleeper run again,
  a poll registers itself, and a poller goes to sleep.
\<close>

inductive pipe_step :: "tid \<Rightarrow> psys \<Rightarrow> psys \<Rightarrow> bool" where
  begin_read: "point s t = Idle \<Longrightarrow> running s t \<Longrightarrow> pipe_step t s (read_start t sz s)"
| reserve: "point s t = R_reserve sz \<Longrightarrow> pipe_step t s (read_reserve t sz s)"
| busy: "point s t = R_busy sz \<Longrightarrow> pipe_step t s (busy_enqueue t sz s)"
| busy_sleep: "point s t = R_busy_sleep sz \<Longrightarrow> running s t \<Longrightarrow> pipe_step t s (busy_awake t sz s)"
| check: "point s t = R_check sz \<Longrightarrow> p_lock s = None \<Longrightarrow> pipe_step t s (read_check t sz s)"
| queue_r: "point s t = R_queue sz \<Longrightarrow> rw_lock s = None \<Longrightarrow> pipe_step t s (read_enqueue t sz s)"
| register_r: "point s t = R_register sz \<Longrightarrow> p_lock s = None \<Longrightarrow> pipe_step t s (read_register t sz s)"
| sleep_r: "point s t = R_sleep sz \<Longrightarrow> running s t \<Longrightarrow> pipe_step t s (read_awake t sz s)"
| signal_r: "point s t = R_signal sz \<Longrightarrow> pipe_step t s (read_signal fatal t sz s)"
| bounce: "point s t = R_bounce sz \<Longrightarrow> pipe_step t s (read_bounce memory t sz s)"
| peek: "point s t = R_peek sz \<Longrightarrow> p_lock s = None \<Longrightarrow> pipe_step t s (read_peek t sz s)"
| copy: "point s t = R_copy bs \<Longrightarrow> pipe_step t s (read_copy fault t bs s)"
| commit: "point s t = R_commit bs \<Longrightarrow> p_lock s = None \<Longrightarrow> pipe_step t s (read_commit t bs s)"
| wake_w: "point s t = R_wake bs \<Longrightarrow> ww_lock s = None \<Longrightarrow> pipe_step t s (read_wake t bs s)"
| clear: "point s t = R_clear r \<Longrightarrow> pipe_step t s (read_clear t r s)"
| wake_all: "point s t = R_wake_all r \<Longrightarrow> pipe_step t s (read_wake_all t r s)"
| end_read: "point s t = R_done r \<Longrightarrow> pipe_step t s (go t Idle s)"
| begin_write: "point s t = Idle \<Longrightarrow> running s t \<Longrightarrow> pipe_step t s (write_start t src s)"
| alloc: "point s t = W_alloc src \<Longrightarrow> pipe_step t s (write_alloc memory t src s)"
| stage: "point s t = W_stage src n \<Longrightarrow> pipe_step t s (write_stage fault t src n s)"
| drain: "point s t = W_drain src n staged \<Longrightarrow> p_lock s = None \<Longrightarrow> pipe_step t s (write_drain t src n staged s)"
| wake_r: "point s t = W_wake src n \<Longrightarrow> rw_lock s = None \<Longrightarrow> pipe_step t s (write_wake t src n s)"
| queue_w: "point s t = W_queue src n \<Longrightarrow> ww_lock s = None \<Longrightarrow> pipe_step t s (write_enqueue t src n s)"
| register_w: "point s t = W_register src n \<Longrightarrow> p_lock s = None \<Longrightarrow> pipe_step t s (write_register t src n s)"
| sleep_w: "point s t = W_sleep src n \<Longrightarrow> running s t \<Longrightarrow> pipe_step t s (write_awake t src n s)"
| signal_w: "point s t = W_signal src n \<Longrightarrow> pipe_step t s (write_signal fatal t src n s)"
| end_write: "point s t = W_done r \<Longrightarrow> pipe_step t s (go t Idle s)"
| begin_close: "point s t = Idle \<Longrightarrow> running s t \<Longrightarrow> pipe_step t s (go t (C_close rd) s)"
| close: "point s t = C_close rd \<Longrightarrow> p_lock s = None \<Longrightarrow> pipe_step t s (close_end rd t s)"
| close_r: "point s t = C_wake_r final \<Longrightarrow> rw_lock s = None \<Longrightarrow> pipe_step t s (close_wake_r final t s)"
| close_w: "point s t = C_wake_w final \<Longrightarrow> ww_lock s = None \<Longrightarrow> pipe_step t s (close_wake_w final t s)"
| end_close: "point s t = C_done final \<Longrightarrow> pipe_step t s (go t Idle s)"
| rouse: "pipe_step t s (mark_running [t] s)"
| poll_r: "p_lock s = None \<Longrightarrow> pipe_step t s (on_pipe (\<lambda>p. p\<lparr>read_poll := read_poll p @ [e]\<rparr>) s)"
| poll_w: "p_lock s = None \<Longrightarrow> pipe_step t s (on_pipe (\<lambda>p. p\<lparr>write_poll := write_poll p @ [e]\<rparr>) s)"
| poll_sleep: "point s t = Idle \<Longrightarrow> pipe_step t s (sleep_mark t (s\<lparr>poll_wq := (poll_wq s)(e := poll_wq s e @ [t])\<rparr>))"

definition pipe_initial :: "u8 list \<Rightarrow> psys" where
  "pipe_initial buf = \<lparr>pp = pipe_new buf, poll_wq = (\<lambda>_. []), p_lock = None, rw_lock = None, ww_lock = None,
     running = (\<lambda>_. True), point = (\<lambda>_. Idle), put_in = [], taken = []\<rparr>"

inductive reachable :: "psys \<Rightarrow> bool" where
  initial: "length buf = PIPE_SIZE \<Longrightarrow> reachable (pipe_initial buf)"
| after: "reachable s \<Longrightarrow> pipe_step t s s' \<Longrightarrow> reachable s'"

lemmas go_defs = go_def on_pipe_def mark_running_def sleep_mark_def

lemmas section_defs = read_start_def read_reserve_def busy_enqueue_def busy_awake_def read_check_def read_enqueue_def
  read_register_def read_awake_def read_signal_def read_bounce_def read_peek_def read_copy_def read_commit_def read_wake_def
  read_clear_def read_wake_all_def write_start_def write_alloc_def write_stage_def write_drain_def write_wake_def
  write_enqueue_def write_register_def write_awake_def write_signal_def close_end_def close_wake_r_def close_wake_w_def

section \<open>What waking changes\<close>

lemma wake_polls_sel [simp]:
  "pp (wake_polls es s) = pp s" "p_lock (wake_polls es s) = p_lock s" "rw_lock (wake_polls es s) = rw_lock s"
  "ww_lock (wake_polls es s) = ww_lock s" "point (wake_polls es s) = point s" "put_in (wake_polls es s) = put_in s"
  "taken (wake_polls es s) = taken s"
  by (induction es arbitrary: s) (simp_all add: mark_running_def)

lemma wake_polls_running: "running s t \<Longrightarrow> running (wake_polls es s) t"
  by (induction es arbitrary: s) (simp_all add: mark_running_def)

lemma wake_sel [simp]:
  "pp (pipe_wake_readers s) = (pp s)\<lparr>read_wait := drop 1 (read_wait (pp s)), read_poll := []\<rparr>"
  "pp (pipe_wake_writers s) = (pp s)\<lparr>write_wait := drop 1 (write_wait (pp s)), write_poll := []\<rparr>"
  "point (pipe_wake_readers s) = point s" "point (pipe_wake_writers s) = point s"
  "p_lock (pipe_wake_readers s) = p_lock s" "p_lock (pipe_wake_writers s) = p_lock s"
  "rw_lock (pipe_wake_readers s) = rw_lock s" "rw_lock (pipe_wake_writers s) = rw_lock s"
  "ww_lock (pipe_wake_readers s) = ww_lock s" "ww_lock (pipe_wake_writers s) = ww_lock s"
  "put_in (pipe_wake_readers s) = put_in s" "put_in (pipe_wake_writers s) = put_in s"
  "taken (pipe_wake_readers s) = taken s" "taken (pipe_wake_writers s) = taken s"
  by (simp_all add: pipe_wake_readers_def pipe_wake_writers_def go_defs Let_def)

lemma wake_readers_running: "t \<in> set (take 1 (read_wait (pp s))) \<or> running s t \<Longrightarrow> running (pipe_wake_readers s) t"
  by (auto simp: pipe_wake_readers_def Let_def go_defs intro!: wake_polls_running)

lemma wake_writers_running: "t \<in> set (take 1 (write_wait (pp s))) \<or> running s t \<Longrightarrow> running (pipe_wake_writers s) t"
  by (auto simp: pipe_wake_writers_def Let_def go_defs intro!: wake_polls_running)

section \<open>The reservation\<close>

text \<open>The points of a read between the reservation and its release.\<close>

fun reading :: "point \<Rightarrow> bool" where
  "reading (R_check _) = True" | "reading (R_queue _) = True" | "reading (R_register _) = True"
| "reading (R_sleep _) = True" | "reading (R_signal _) = True" | "reading (R_bounce _) = True"
| "reading (R_peek _) = True" | "reading (R_copy _) = True" | "reading (R_commit _) = True"
| "reading (R_wake _) = True" | "reading (R_clear _) = True" | "reading _ = False"

definition one_reader :: "psys \<Rightarrow> bool" where
  "one_reader s \<longleftrightarrow> (\<forall>t. reading (point s t) \<longrightarrow> read_busy (pp s))
     \<and> (\<forall>t t'. reading (point s t) \<longrightarrow> reading (point s t') \<longrightarrow> t = t')"

lemma pipe_drain_rest: "read_busy (snd (pipe_drain cs p)) = read_busy p \<and> read_wait (snd (pipe_drain cs p)) = read_wait p
   \<and> writers (snd (pipe_drain cs p)) = writers p"
  by (induction cs p rule: pipe_drain.induct) (auto simp: pipe_put_def split: prod.split)

lemmas step_simps = section_defs go_defs wake_busy_def Let_def pipe_commit_def pipe_drain_rest case_prod_beta

lemma step_other: "pipe_step t s s' \<Longrightarrow> u \<noteq> t \<Longrightarrow> point s' u = point s u"
  by (erule pipe_step.cases) (simp_all add: step_simps)

lemma step_reading:
  "pipe_step t s s' \<Longrightarrow> reading (point s' t) \<Longrightarrow>
     read_busy (pp s') \<and> \<not> read_busy (pp s) \<or> reading (point s t) \<and> read_busy (pp s') = read_busy (pp s)"
  by (erule pipe_step.cases) (simp_all add: step_simps split: if_splits)

lemma step_busy: "pipe_step t s s' \<Longrightarrow> \<not> reading (point s t) \<Longrightarrow> read_busy (pp s) \<Longrightarrow> read_busy (pp s')"
  by (erule pipe_step.cases) (simp_all add: step_simps)

lemma one_reader_step:
  assumes "pipe_step t s s'" "one_reader s"
  shows "one_reader s'"
proof -
  have "read_busy (pp s')" if "reading (point s' u)" for u
    using that assms(2) step_reading [OF assms(1)] step_busy [OF assms(1)] step_other [OF assms(1), of u]
    by (cases "u = t") (auto simp: one_reader_def)
  moreover have "u = v" if "reading (point s' u)" "reading (point s' v)" for u v
    using that assms(2) step_reading [OF assms(1)] step_other [OF assms(1), of u] step_other [OF assms(1), of v]
    by (cases "u = t"; cases "v = t") (auto simp: one_reader_def)
  ultimately show ?thesis by (simp add: one_reader_def)
qed

section \<open>A pipe is a queue\<close>

text \<open>
  The specification: a queue of at most 511 bytes, with the bytes put in and taken out so far. A step
  appends bytes at the end, removes bytes at the front, or leaves all three alone.
\<close>

type_synonym fifo = "u8 list \<times> u8 list \<times> u8 list"

inductive fifo_step :: "fifo \<Rightarrow> fifo \<Rightarrow> bool" where
  stay: "fifo_step (q, i, out) (q, i, out)"
| append: "length q + length xs \<le> 511 \<Longrightarrow> fifo_step (q, i, out) (q @ xs, i @ xs, out)"
| remove: "fifo_step (xs @ q, i, out) (q, i, out @ xs)"

definition fifo_of :: "psys \<Rightarrow> fifo" where
  "fifo_of s = (pipe_bytes (pp s), put_in s, taken s)"

definition peeked :: "psys \<Rightarrow> bool" where
  "peeked s \<longleftrightarrow> (\<forall>t bs. point s t = R_copy bs \<or> point s t = R_commit bs \<longrightarrow> bs = take (length bs) (pipe_bytes (pp s)))"

definition pipe_inv :: "psys \<Rightarrow> bool" where
  "pipe_inv s \<longleftrightarrow> pipe_ok (pp s) \<and> one_reader s \<and> peeked s"

lemma ring_same:
  "p_buf p = p_buf q \<Longrightarrow> p_head p = p_head q \<Longrightarrow> p_tail p = p_tail q \<Longrightarrow> pipe_bytes p = pipe_bytes q \<and> pipe_ok p = pipe_ok q"
  by (simp add: pipe_bytes_def pipe_ok_def)

text \<open>Only the drain of a writer and the commit of a reader touch the ring.\<close>

definition ring_kept :: "psys \<Rightarrow> psys \<Rightarrow> bool" where
  "ring_kept s s' \<longleftrightarrow> p_buf (pp s') = p_buf (pp s) \<and> p_head (pp s') = p_head (pp s) \<and> p_tail (pp s') = p_tail (pp s)
     \<and> put_in s' = put_in s \<and> taken s' = taken s"

lemma step_ring:
  "pipe_step t s s' \<Longrightarrow> ring_kept s s' \<or> (\<exists>bs. point s t = R_commit bs \<and> s' = read_commit t bs s)
     \<or> (\<exists>src n staged. point s t = W_drain src n staged \<and> s' = write_drain t src n staged s)"
  unfolding ring_kept_def
  by (erule pipe_step.cases) (auto simp: section_defs go_defs wake_busy_def Let_def simp del: disj_not1)

lemma drain_appends:
  assumes "pipe_ok (pp s)"
  shows "\<exists>xs. pipe_bytes (pp (write_drain t src n staged s)) = pipe_bytes (pp s) @ xs \<and> pipe_ok (pp (write_drain t src n staged s))
     \<and> put_in (write_drain t src n staged s) = put_in s @ xs \<and> taken (write_drain t src n staged s) = taken s
     \<and> length (pipe_bytes (pp s)) + length xs \<le> 511"
proof -
  obtain k p where d: "pipe_drain staged (pp s) = (k, p)" by fastforce
  have f: "pipe_ok p \<and> pipe_bytes p = pipe_bytes (pp s) @ take k staged \<and> k = min (length staged) (PIPE_SIZE - 1 - length (pipe_bytes (pp s)))"
    by (rule pipe_writer.producer_fills [OF assms d])
  with pipe_queue.bound [OF assms] show ?thesis
    by (intro exI [of _ "take k staged"]) (auto simp: write_drain_def d go_def PIPE_SIZE_def Let_def)
qed

lemma commit_removes:
  assumes "pipe_ok (pp s)" "bs = take (length bs) (pipe_bytes (pp s))"
  shows "pipe_bytes (pp s) = bs @ pipe_bytes (pp (read_commit t bs s)) \<and> pipe_ok (pp (read_commit t bs s))
     \<and> taken (read_commit t bs s) = taken s @ bs \<and> put_in (read_commit t bs s) = put_in s"
  using pipe_queue.skip_front [OF assms] by (simp add: read_commit_def go_def on_pipe_def)

lemma inv_peeked: "pipe_inv s \<Longrightarrow> point s t = R_commit bs \<Longrightarrow> bs = take (length bs) (pipe_bytes (pp s))"
  by (simp add: pipe_inv_def peeked_def)

lemma step_fifo:
  assumes "pipe_inv s" "pipe_step t s s'"
  shows "fifo_step (fifo_of s) (fifo_of s')" "pipe_ok (pp s')"
proof -
  from assms(1) have ok: "pipe_ok (pp s)" by (simp add: pipe_inv_def)
  from step_ring [OF assms(2)] consider "ring_kept s s'" | bs where "point s t = R_commit bs" "s' = read_commit t bs s"
    | src n staged where "s' = write_drain t src n staged s" by blast
  then have "fifo_step (fifo_of s) (fifo_of s') \<and> pipe_ok (pp s')"
  proof cases
    case 1
    with ok ring_same [of "pp s'" "pp s"] show ?thesis by (simp add: fifo_of_def ring_kept_def fifo_step.stay)
  next
    case 2
    from commit_removes [OF ok inv_peeked [OF assms(1) 2(1)], of t] show ?thesis
      unfolding 2(2) fifo_of_def by (metis fifo_step.remove)
  next
    case 3
    from drain_appends [OF ok, of t src n staged] show ?thesis
      unfolding 3 fifo_of_def by (metis fifo_step.append)
  qed
  then show "fifo_step (fifo_of s) (fifo_of s')" "pipe_ok (pp s')" by simp_all
qed

lemma step_to_copy:
  "pipe_step t s s' \<Longrightarrow> point s' t = R_copy bs \<Longrightarrow>
     ring_kept s s' \<and> (point s t = R_copy bs \<or> (\<exists>k \<le> pipe_avail (pp s). bs = pipe_peek k (pp s)))"
  unfolding ring_kept_def
  by (erule pipe_step.cases)
    (auto simp: section_defs go_defs wake_busy_def Let_def case_prod_beta split: if_splits dest: less_imp_le)

lemma step_to_commit:
  "pipe_step t s s' \<Longrightarrow> point s' t = R_commit bs \<Longrightarrow> ring_kept s s' \<and> (point s t = R_copy bs \<or> point s t = R_commit bs)"
  unfolding ring_kept_def
  by (erule pipe_step.cases) (auto simp: section_defs go_defs wake_busy_def Let_def case_prod_beta split: if_splits)

lemma take_prefix: "bs = take (length bs) q \<Longrightarrow> bs = take (length bs) (q @ xs)"
  by (metis append_eq_conv_conj append_take_drop_id append_assoc)

lemma kept_bytes: "ring_kept s s' \<Longrightarrow> pipe_bytes (pp s') = pipe_bytes (pp s)"
  by (simp add: ring_kept_def pipe_bytes_def)

lemma peeked_step:
  assumes "pipe_inv s" "pipe_step t s s'"
  shows "peeked s'"
  unfolding peeked_def
proof (intro allI impI)
  fix u bs assume u: "point s' u = R_copy bs \<or> point s' u = R_commit bs"
  from assms(1) have ok: "pipe_ok (pp s)" and one: "one_reader s"
    and pk: "\<And>t bs. point s t = R_copy bs \<or> point s t = R_commit bs \<Longrightarrow> bs = take (length bs) (pipe_bytes (pp s))"
    unfolding pipe_inv_def peeked_def by blast+
  show "bs = take (length bs) (pipe_bytes (pp s'))"
  proof (cases "u = t")
    case True
    have "bs = take (length bs) (pipe_bytes (pp s))" if "k \<le> pipe_avail (pp s)" "bs = pipe_peek k (pp s)" for k
      using pipe_queue.peek_front [OF ok that(1)] that(2) by simp
    with u True step_to_copy [OF assms(2), of bs] step_to_commit [OF assms(2), of bs] pk [of t bs] show ?thesis
      by (auto simp: kept_bytes)
  next
    case False
    with u step_other [OF assms(2) False] have p: "bs = take (length bs) (pipe_bytes (pp s))" "reading (point s u)"
      using pk [of u bs] by auto
    with one False have "\<not> reading (point s t)" unfolding one_reader_def by blast
    with step_ring [OF assms(2)] have "ring_kept s s' \<or> (\<exists>src n staged. s' = write_drain t src n staged s)" by auto
    then show ?thesis
    proof
      assume "\<exists>src n staged. s' = write_drain t src n staged s"
      then obtain xs where "pipe_bytes (pp s') = pipe_bytes (pp s) @ xs" using drain_appends [OF ok] by blast
      with p(1) show ?thesis by (metis take_prefix)
    qed (use p(1) in \<open>simp add: kept_bytes\<close>)
  qed
qed

lemma inv_initial: "length buf = PIPE_SIZE \<Longrightarrow> pipe_inv (pipe_initial buf)"
  by (simp add: pipe_inv_def pipe_initial_def pipe_new_def pipe_ok_def ring_ok_def one_reader_def peeked_def PIPE_SIZE_def)

lemma reachable_inv: "reachable s \<Longrightarrow> pipe_inv s"
proof (induction rule: reachable.induct)
  case (after s t s')
  then have "pipe_ok (pp s')" "peeked s'" "one_reader s'"
    using step_fifo(2) peeked_step one_reader_step unfolding pipe_inv_def by blast+
  then show ?case by (simp add: pipe_inv_def)
qed (rule inv_initial)

lemma fifo_sum: "fifo_step (q, i, out) (q', i', out') \<Longrightarrow> i = out @ q \<Longrightarrow> i' = out' @ q'"
  by (erule fifo_step.cases) simp_all

text \<open>
  C32. Whatever readers, writers and closers of a pipe do, in any interleaving, with faults of the
  copies, memory shortage and signals at any point: every step of the system is a step of a queue of
  at most 511 bytes that appends bytes at its end, removes bytes at its front or does nothing. So the
  bytes put in are, in order, the bytes taken out followed by the bytes held; none is lost, doubled
  or reordered.
\<close>

theorem pipe_refines_queue:
  assumes "reachable s"
  shows "put_in s = taken s @ pipe_bytes (pp s) \<and> length (pipe_bytes (pp s)) \<le> 511
    \<and> (\<forall>t s'. pipe_step t s s' \<longrightarrow> fifo_step (fifo_of s) (fifo_of s'))"
proof -
  have "put_in s = taken s @ pipe_bytes (pp s)" using assms
  proof (induction rule: reachable.induct)
    case (initial buf)
    then show ?case by (simp add: pipe_initial_def pipe_new_def pipe_bytes_def ring_empty [THEN iffD2] PIPE_SIZE_def)
  next
    case (after s t s')
    from step_fifo(1) [OF reachable_inv [OF after(1)] after(2)] after(3) show ?case
      unfolding fifo_of_def by (rule fifo_sum)
  qed
  moreover have "length (pipe_bytes (pp s)) \<le> 511"
    using pipe_queue.bound [of "pp s"] reachable_inv [OF assms] by (simp add: pipe_inv_def PIPE_SIZE_def)
  ultimately show ?thesis using step_fifo(1) [OF reachable_inv [OF assms]] by blast
qed

section \<open>Locks\<close>

text \<open>The points at which a task holds the lock of the pipe, of \<open>read_wait\<close> and of \<open>write_wait\<close>.\<close>

fun holds_p :: "point \<Rightarrow> bool" where
  "holds_p (R_wake _) = True" | "holds_p (W_wake _ _) = True" | "holds_p _ = False"

fun holds_rw :: "point \<Rightarrow> bool" where
  "holds_rw (R_register _) = True" | "holds_rw _ = False"

definition locks_ok :: "psys \<Rightarrow> bool" where
  "locks_ok s \<longleftrightarrow> (\<forall>t. holds_p (point s t) \<longrightarrow> p_lock s = Some t) \<and> (\<forall>t. holds_rw (point s t) \<longrightarrow> rw_lock s = Some t)"

definition lock_move :: "tid \<Rightarrow> (point \<Rightarrow> bool) \<Rightarrow> tid option \<Rightarrow> tid option \<Rightarrow> point \<Rightarrow> point \<Rightarrow> bool" where
  "lock_move t holds l l' x x' \<longleftrightarrow> l' = l \<and> (holds x' \<longrightarrow> holds x) \<or> l = None \<and> l' = Some t \<or> holds x \<and> l' = None \<and> \<not> holds x'"

lemma step_p_lock: "pipe_step t s s' \<Longrightarrow> lock_move t holds_p (p_lock s) (p_lock s') (point s t) (point s' t)"
  by (erule pipe_step.cases) (simp_all add: step_simps lock_move_def)

lemma step_rw_lock: "pipe_step t s s' \<Longrightarrow> lock_move t holds_rw (rw_lock s) (rw_lock s') (point s t) (point s' t)"
  by (erule pipe_step.cases) (simp_all add: step_simps lock_move_def)

lemma lock_kept:
  assumes "lock_move t holds l l' (f t) (f' t)" "\<And>u. u \<noteq> t \<Longrightarrow> f' u = f u" "\<forall>u. holds (f u) \<longrightarrow> l = Some u"
  shows "\<forall>u. holds (f' u) \<longrightarrow> l' = Some u"
proof (intro allI impI)
  fix u assume "holds (f' u)"
  with assms show "l' = Some u" by (cases "u = t") (auto simp: lock_move_def)
qed

lemma locks_ok_step:
  assumes "pipe_step t s s'" "locks_ok s"
  shows "locks_ok s'"
  using assms(2) lock_kept [where f = "point s" and f' = "point s'", OF step_p_lock [OF assms(1)] step_other [OF assms(1)]]
    lock_kept [where f = "point s" and f' = "point s'", OF step_rw_lock [OF assms(1)] step_other [OF assms(1)]]
  by (simp add: locks_ok_def)

lemma reachable_locks: "reachable s \<Longrightarrow> locks_ok s"
  by (induction rule: reachable.induct) (simp add: locks_ok_def pipe_initial_def, rule locks_ok_step)

section \<open>Sleeping readers\<close>

text \<open>A task that is about to wake the readers.\<close>

fun waking :: "point \<Rightarrow> bool" where
  "waking (W_wake _ _) = True" | "waking (C_wake_r _) = True" | "waking _ = False"

definition may_sleep :: "psys \<Rightarrow> bool" where
  "may_sleep s \<longleftrightarrow> pipe_empty (pp s) \<and> writers (pp s) \<noteq> 0 \<or> (\<exists>u. waking (point s u))"

fun waiting :: "point \<Rightarrow> bool" where
  "waiting (R_register _) = True" | "waiting (R_sleep _) = True" | "waiting _ = False"

definition waiters_ok :: "psys \<Rightarrow> bool" where
  "waiters_ok s \<longleftrightarrow> (\<forall>t \<in> set (read_wait (pp s)). waiting (point s t))
    \<and> (\<forall>t n. point s t = R_register n \<longrightarrow> t \<in> set (read_wait (pp s)))
    \<and> (\<forall>t n. point s t = R_sleep n \<longrightarrow> \<not> running s t \<longrightarrow> t \<in> set (read_wait (pp s)) \<and> may_sleep s)"

lemma step_running: "pipe_step u s s' \<Longrightarrow> u \<noteq> t \<Longrightarrow> running s t \<Longrightarrow> running s' t"
  by (erule pipe_step.cases)
    (simp_all add: step_simps wake_readers_running [simplified] wake_writers_running [simplified])

lemma step_enqueued:
  "pipe_step u s s' \<Longrightarrow> x \<noteq> u \<Longrightarrow> x \<in> set (read_wait (pp s')) \<Longrightarrow> x \<in> set (read_wait (pp s))"
  by (erule pipe_step.cases) (auto simp: step_simps split: if_splits dest: in_set_dropD)

lemma step_self_waiting:
  "pipe_step u s s' \<Longrightarrow> u \<in> set (read_wait (pp s')) \<Longrightarrow> (u \<in> set (read_wait (pp s)) \<Longrightarrow> waiting (point s u)) \<Longrightarrow> waiting (point s' u)"
  by (erule pipe_step.cases) (auto simp: step_simps split: if_splits dest: in_set_dropD)

lemma step_queue_locked:
  "pipe_step u s s' \<Longrightarrow> t \<noteq> u \<Longrightarrow> rw_lock s \<noteq> None \<Longrightarrow> t \<in> set (read_wait (pp s)) \<Longrightarrow> t \<in> set (read_wait (pp s'))"
  by (erule pipe_step.cases) (simp_all add: step_simps)

lemma step_self_register:
  "pipe_step u s s' \<Longrightarrow> point s' u = R_register n \<Longrightarrow> (point s u = R_register n \<Longrightarrow> u \<in> set (read_wait (pp s))) \<Longrightarrow>
     u \<in> set (read_wait (pp s'))"
  by (erule pipe_step.cases) (auto simp: step_simps split: if_splits)

lemma step_self_sleep:
  "pipe_step u s s' \<Longrightarrow> point s' u = R_sleep n \<Longrightarrow> \<not> running s' u \<Longrightarrow>
     read_wait (pp s') = read_wait (pp s) \<and> pipe_empty (pp s') = pipe_empty (pp s) \<and> writers (pp s') = writers (pp s)
     \<and> (point s u = R_register n \<and> pipe_empty (pp s) \<and> writers (pp s) \<noteq> 0
        \<or> point s' = point s \<and> \<not> running s u)"
  by (erule pipe_step.cases) (auto simp: step_simps pipe_empty_def split: if_splits)

text \<open>A queue that holds one reader only: waking the first waiter wakes it.\<close>

lemma first_waiter: "set q = {t} \<Longrightarrow> t \<in> set (take 1 q)"
  by (cases q) auto

lemma step_waits:
  "pipe_step u s s' \<Longrightarrow> u \<noteq> t \<Longrightarrow> set (read_wait (pp s)) = {t} \<Longrightarrow> \<not> running s' t \<Longrightarrow> t \<in> set (read_wait (pp s'))"
  by (erule pipe_step.cases) (auto simp: step_simps wake_readers_running first_waiter simp del: One_nat_def)

lemma step_waking:
  "pipe_step u s s' \<Longrightarrow> u \<noteq> t \<Longrightarrow> set (read_wait (pp s)) = {t} \<Longrightarrow> \<not> running s' t \<Longrightarrow> waking (point s u) \<Longrightarrow> waking (point s' u)"
  by (erule pipe_step.cases) (auto simp: step_simps wake_readers_running first_waiter simp del: One_nat_def)

lemma drain_none: "fst (pipe_drain cs p) = 0 \<Longrightarrow> snd (pipe_drain cs p) = p"
  by (cases cs) (auto simp: case_prod_beta Let_def)

lemma step_fills:
  "pipe_step u s s' \<Longrightarrow> \<not> reading (point s u) \<Longrightarrow> pipe_empty (pp s) \<Longrightarrow> writers (pp s) \<noteq> 0 \<Longrightarrow>
     pipe_empty (pp s') \<and> writers (pp s') \<noteq> 0 \<or> waking (point s' u)"
  by (erule pipe_step.cases) (auto simp: step_simps pipe_empty_def drain_none split: if_splits)

lemma sole_waiter:
  assumes "one_reader s" "waiters_ok s" "t \<in> set (read_wait (pp s))"
  shows "set (read_wait (pp s)) = {t}" "\<And>u. u \<noteq> t \<Longrightarrow> \<not> reading (point s u)"
proof -
  have r: "reading x" if "waiting x" for x using that by (cases x) auto
  from assms show "set (read_wait (pp s)) = {t}" unfolding one_reader_def waiters_ok_def using r by blast
  from assms show "\<not> reading (point s u)" if "u \<noteq> t" for u
    using that r unfolding one_reader_def waiters_ok_def by blast
qed

lemma may_sleep_step:
  assumes "pipe_step u s s'" "u \<noteq> t" "set (read_wait (pp s)) = {t}" "\<not> reading (point s u)" "\<not> running s' t" "may_sleep s"
  shows "may_sleep s'"
  using assms(6) unfolding may_sleep_def
proof
  assume "pipe_empty (pp s) \<and> writers (pp s) \<noteq> 0"
  with step_fills [OF assms(1,4)] show "pipe_empty (pp s') \<and> writers (pp s') \<noteq> 0 \<or> (\<exists>u. waking (point s' u))" by blast
next
  assume "\<exists>v. waking (point s v)"
  then obtain v where "waking (point s v)" ..
  then have "waking (point s' v)"
    using step_waking [OF assms(1-3,5)] step_other [OF assms(1), of v] by (cases "v = u") auto
  then show "pipe_empty (pp s') \<and> writers (pp s') \<noteq> 0 \<or> (\<exists>u. waking (point s' u))" by blast
qed

lemma waiters_ok_step:
  assumes st: "pipe_step u s s'" and inv: "one_reader s" "locks_ok s" "waiters_ok s"
  shows "waiters_ok s'"
proof -
  have "waiting (point s' x)" if "x \<in> set (read_wait (pp s'))" for x
    using that inv(3) step_self_waiting [OF st] step_enqueued [OF st, of x] step_other [OF st, of x]
    by (cases "x = u") (auto simp: waiters_ok_def)
  moreover have "x \<in> set (read_wait (pp s'))" if "point s' x = R_register n" for x n
  proof (cases "x = u")
    case True
    with that inv(3) step_self_register [OF st, of n] show ?thesis by (auto simp: waiters_ok_def)
  next
    case False
    with that step_other [OF st False] have r: "point s x = R_register n" by simp
    then have "holds_rw (point s x)" by simp
    with inv(2) have "rw_lock s = Some x" unfolding locks_ok_def by blast
    moreover from inv(3) r have "x \<in> set (read_wait (pp s))" unfolding waiters_ok_def by blast
    ultimately show ?thesis using step_queue_locked [OF st False] by simp
  qed
  moreover have "x \<in> set (read_wait (pp s')) \<and> may_sleep s'" if x: "point s' x = R_sleep n" "\<not> running s' x" for x n
  proof (cases "x = u")
    case True
    with x inv(3) step_self_sleep [OF st, of n] show ?thesis by (auto simp: waiters_ok_def may_sleep_def)
  next
    case False
    with x step_other [OF st False] step_running [OF st, of x] have "point s x = R_sleep n" "\<not> running s x" by auto
    with inv(3) have w: "x \<in> set (read_wait (pp s))" "may_sleep s" by (auto simp: waiters_ok_def)
    note q = sole_waiter [OF inv(1,3) w(1)]
    from False have "u \<noteq> x" by simp
    with step_waits [OF st this q(1) x(2)] may_sleep_step [OF st this q(1) q(2) x(2) w(2)] show ?thesis by blast
  qed
  ultimately show ?thesis unfolding waiters_ok_def by blast
qed

lemma reachable_waiters: "reachable s \<Longrightarrow> waiters_ok s"
proof (induction rule: reachable.induct)
  case (initial buf)
  then show ?case by (simp add: waiters_ok_def pipe_initial_def pipe_new_def)
next
  case (after s t s')
  from after(1) have "one_reader s" "locks_ok s" using reachable_inv reachable_locks by (auto simp: pipe_inv_def)
  with after show ?case by (blast intro: waiters_ok_step)
qed

text \<open>
  C33. No reader sleeps through data: in every reachable state, a reader that sleeps in the queue of
  an empty pipe and has not been woken faces an empty pipe with a writer left, or another task is
  about to wake the readers, and the waking step of any such task makes this reader run again.
\<close>

theorem pipe_reader_woken:
  assumes "reachable s" "point s t = R_sleep n" "\<not> running s t"
  shows "(pipe_empty (pp s) \<and> writers (pp s) \<noteq> 0 \<or> (\<exists>u. waking (point s u)))
    \<and> (\<forall>u src k. running (write_wake u src k s) t) \<and> (\<forall>u f. running (close_wake_r f u s) t)"
proof -
  from reachable_waiters [OF assms(1)] assms(2,3) have w: "waiters_ok s" "t \<in> set (read_wait (pp s))" "may_sleep s"
    unfolding waiters_ok_def by blast+
  from assms(1) reachable_inv have "one_reader s" by (auto simp: pipe_inv_def)
  from first_waiter [OF sole_waiter(1) [OF this w(1,2)]] have "running (pipe_wake_readers s) t" by (simp add: wake_readers_running)
  with w(3) show ?thesis by (simp add: may_sleep_def write_wake_def close_wake_r_def go_def)
qed

section \<open>Runs that go wrong\<close>

text \<open>A task is stuck if no continuation of the run moves it.\<close>

inductive runs :: "psys \<Rightarrow> psys \<Rightarrow> bool" where
  same: "runs s s"
| more: "runs s s' \<Longrightarrow> pipe_step t s' s'' \<Longrightarrow> runs s s''"

definition stuck :: "tid \<Rightarrow> psys \<Rightarrow> bool" where
  "stuck t s \<longleftrightarrow> (\<forall>s'. runs s s' \<longrightarrow> point s' t = point s t)"

lemma step_blocked:
  assumes "pipe_step u s s'" "locks_ok s" "one_reader s" "point s r = R_register n" "point s w = W_wake src k"
  shows "point s' r = point s r \<and> point s' w = point s w"
proof -
  from assms(2,4,5) have l: "rw_lock s = Some r" "p_lock s = Some w" unfolding locks_ok_def by (metis holds_rw.simps(1), metis holds_p.simps(2))
  have "point s' r = point s r" if "u = r"
    using assms(1,4) l unfolding that by (cases rule: pipe_step.cases) (simp_all add: go_defs)
  moreover have "point s' w = point s w" if "u = w"
    using assms(1,5) l unfolding that by (cases rule: pipe_step.cases) (simp_all add: go_defs)
  ultimately show ?thesis using step_other [OF assms(1)] by metis
qed

lemma stuck_pair:
  assumes "reachable s" "point s r = R_register n" "point s w = W_wake src k"
  shows "stuck r s \<and> stuck w s"
proof -
  have "reachable s' \<and> point s' r = point s r \<and> point s' w = point s w" if "runs s s'" for s'
    using that assms
  proof (induction rule: runs.induct)
    case (more s s' t s'')
    then have r: "reachable s'" "point s' r = R_register n" "point s' w = W_wake src k" by simp_all
    moreover have "locks_ok s'" "one_reader s'" using r(1) reachable_inv reachable_locks by (auto simp: pipe_inv_def)
    ultimately show ?case using step_blocked [OF more(2)] more reachable.after by metis
  qed simp
  then show ?thesis by (simp add: stuck_def)
qed

definition zeros :: "u8 list" where "zeros = replicate 512 0"

lemma zeros_reachable: "reachable (pipe_initial zeros)"
  by (rule reachable.initial) (simp add: zeros_def PIPE_SIZE_def)

lemmas run_simps = pipe_initial_def pipe_new_def pipe_empty_def pipe_full_def pipe_put_def PIPE_SIZE_def Let_def

text \<open>A reader that finds the pipe empty, and a writer that has staged one byte.\<close>

lemma meet:
  defines "s \<equiv> write_stage False 2 [65] 0 (write_alloc True 2 [65] (write_start 2 [65]
    (read_check 1 10 (read_reserve 1 10 (read_start 1 10 (pipe_initial zeros))))))"
  shows "reachable s" "point s = (\<lambda>_. Idle)(1 := R_queue 10, 2 := W_drain [65] 0 [65])"
    "p_lock s = None" "rw_lock s = None" "pp s = (pipe_new zeros)\<lparr>read_busy := True\<rparr>"
proof -
  note d = section_defs go_defs run_simps
  have "reachable (read_start 1 10 (pipe_initial zeros))"
    by (rule reachable.after [OF zeros_reachable begin_read]) (simp_all add: d)
  then have "reachable (read_reserve 1 10 (read_start 1 10 (pipe_initial zeros)))"
    by (rule reachable.after [OF _ reserve]) (simp add: d)
  then have "reachable (read_check 1 10 (read_reserve 1 10 (read_start 1 10 (pipe_initial zeros))))"
    by (rule reachable.after [OF _ check]) (simp_all add: d)
  then have "reachable (write_start 2 [65] (read_check 1 10 (read_reserve 1 10 (read_start 1 10 (pipe_initial zeros)))))"
    by (rule reachable.after [OF _ begin_write]) (simp_all add: d)
  then have "reachable (write_alloc True 2 [65] (write_start 2 [65] (read_check 1 10 (read_reserve 1 10 (read_start 1 10 (pipe_initial zeros))))))"
    by (rule reachable.after [OF _ alloc]) (simp add: d)
  then show "reachable s" unfolding s_def by (rule reachable.after [OF _ stage]) (simp add: d)
  show "point s = (\<lambda>_. Idle)(1 := R_queue 10, 2 := W_drain [65] 0 [65])"
    "p_lock s = None" "rw_lock s = None" "pp s = (pipe_new zeros)\<lparr>read_busy := True\<rparr>"
    by (simp_all add: s_def d fun_eq_iff)
qed

text \<open>
  C34. A reader and a writer of a pipe can block each other for ever: the reader registers itself
  under the lock of the wait queue and then takes the lock of the pipe, while the writer wakes the
  readers, which takes the lock of the queue, under the lock of the pipe. From the state where each
  holds the lock the other one needs, no continuation moves either of them.
\<close>

theorem pipe_deadlock:
  "\<exists>s. reachable s \<and> point s 1 = R_register 10 \<and> point s 2 = W_wake [65] 1 \<and> stuck 1 s \<and> stuck 2 s"
proof -
  define s where "s = write_stage False 2 [65] 0 (write_alloc True 2 [65] (write_start 2 [65]
    (read_check 1 10 (read_reserve 1 10 (read_start 1 10 (pipe_initial zeros))))))"
  note s = meet [folded s_def]
  have "reachable (read_enqueue 1 10 s)" by (rule reachable.after [OF s(1) queue_r]) (simp_all add: s)
  then have r: "reachable (write_drain 2 [65] 0 [65] (read_enqueue 1 10 s))"
    by (rule reachable.after [OF _ drain]) (simp_all add: s read_enqueue_def go_defs)
  have "point (write_drain 2 [65] 0 [65] (read_enqueue 1 10 s)) 1 = R_register 10"
    "point (write_drain 2 [65] 0 [65] (read_enqueue 1 10 s)) 2 = W_wake [65] 1"
    by (simp_all add: s read_enqueue_def write_drain_def go_defs run_simps)
  with r stuck_pair [OF r this] show ?thesis by blast
qed

text \<open>
  C35. A reader can wait for ever for a reservation nobody holds: \<open>pipe_read_reserve\<close> tests \<open>read_busy\<close> and
  then enters the queue without a second test, so that a release in between wakes nobody. In the
  state reached, the reservation is free, every other task is idle, and the reader sleeps.
\<close>

theorem pipe_reserve_missed:
  "\<exists>s. reachable s \<and> \<not> read_busy (pp s) \<and> point s = (\<lambda>_. Idle)(2 := R_busy_sleep 1) \<and> \<not> running s 2 \<and> read_busy_wq (pp s) = [2]"
proof -
  note d = section_defs go_defs run_simps wake_busy_def
  let ?s0 = "close_wake_r False 3 (close_end False 3 (go 3 (C_close False) (pipe_initial zeros)))"
  have "reachable (go 3 (C_close False) (pipe_initial zeros))"
    by (rule reachable.after [OF zeros_reachable begin_close]) (simp_all add: d)
  then have "reachable (close_end False 3 (go 3 (C_close False) (pipe_initial zeros)))"
    by (rule reachable.after [OF _ close]) (simp_all add: d)
  then have "reachable ?s0" by (rule reachable.after [OF _ close_r]) (simp_all add: d)
  then have "reachable (go 3 Idle ?s0)" (is "reachable ?s1") by (rule reachable.after [OF _ end_close [where final = False]]) (simp add: d)
  then have "reachable (read_start 1 1 ?s1)" by (rule reachable.after [OF _ begin_read]) (simp_all add: d pipe_wake_readers_def)
  then have "reachable (read_reserve 1 1 (read_start 1 1 ?s1))" (is "reachable ?s2")
    by (rule reachable.after [OF _ reserve]) (simp add: d)
  then have "reachable (read_start 2 1 ?s2)" by (rule reachable.after [OF _ begin_read]) (simp_all add: d pipe_wake_readers_def)
  then have "reachable (read_reserve 2 1 (read_start 2 1 ?s2))" (is "reachable ?s3")
    by (rule reachable.after [OF _ reserve]) (simp add: d)
  then have "reachable (read_check 1 1 ?s3)" by (rule reachable.after [OF _ check]) (simp_all add: d)
  then have "reachable (read_clear 1 (Inr 0) (read_check 1 1 ?s3))" (is "reachable ?s4")
    by (rule reachable.after [OF _ clear]) (simp add: d)
  then have "reachable (read_wake_all 1 (Inr 0) ?s4)" by (rule reachable.after [OF _ wake_all]) (simp add: d)
  then have "reachable (go 1 Idle (read_wake_all 1 (Inr 0) ?s4))" (is "reachable ?s5")
    by (rule reachable.after [OF _ end_read [where r = "Inr 0"]]) (simp add: d)
  then have "reachable (busy_enqueue 2 1 ?s5)" by (rule reachable.after [OF _ busy]) (simp add: d)
  moreover have "\<not> read_busy (pp (busy_enqueue 2 1 ?s5)) \<and> point (busy_enqueue 2 1 ?s5) = (\<lambda>_. Idle)(2 := R_busy_sleep 1)
    \<and> \<not> running (busy_enqueue 2 1 ?s5) 2 \<and> read_busy_wq (pp (busy_enqueue 2 1 ?s5)) = [2]"
    by (simp add: d fun_eq_iff)
  ultimately show ?thesis by blast
qed

theorem pipe_refines_queue_witness:
  "\<exists>s. reachable s \<and> put_in s = [65] \<and> put_in s = taken s @ pipe_bytes (pp s)"
proof -
  define s where "s = write_stage False 2 [65] 0 (write_alloc True 2 [65] (write_start 2 [65]
    (read_check 1 10 (read_reserve 1 10 (read_start 1 10 (pipe_initial zeros))))))"
  note s = meet [folded s_def]
  have r: "reachable (write_drain 2 [65] 0 [65] s)" by (rule reachable.after [OF s(1) drain]) (simp_all add: s)
  have "put_in s = []" by (simp add: s_def section_defs go_defs run_simps)
  then have "put_in (write_drain 2 [65] 0 [65] s) = [65]" by (simp add: s write_drain_def go_defs run_simps)
  with r pipe_refines_queue [OF r] show ?thesis by blast
qed

theorem pipe_reader_woken_witness:
  "\<exists>s. reachable s \<and> point s 1 = R_sleep 10 \<and> \<not> running s 1 \<and> pipe_empty (pp s) \<and> running (write_wake 2 [65] 1 s) 1"
proof -
  define s where "s = write_stage False 2 [65] 0 (write_alloc True 2 [65] (write_start 2 [65]
    (read_check 1 10 (read_reserve 1 10 (read_start 1 10 (pipe_initial zeros))))))"
  note s = meet [folded s_def]
  have "reachable (read_enqueue 1 10 s)" by (rule reachable.after [OF s(1) queue_r]) (simp_all add: s)
  then have r: "reachable (read_register 1 10 (read_enqueue 1 10 s))"
    by (rule reachable.after [OF _ register_r]) (simp_all add: s read_enqueue_def go_defs)
  have "point (read_register 1 10 (read_enqueue 1 10 s)) 1 = R_sleep 10" "\<not> running (read_register 1 10 (read_enqueue 1 10 s)) 1"
    "pipe_empty (pp (read_register 1 10 (read_enqueue 1 10 s)))"
    by (simp_all add: s read_enqueue_def read_register_def go_defs run_simps)
  with r pipe_reader_woken [OF r this(1,2)] show ?thesis by blast
qed

end
