(* ===== verification/TTY.thy ===== *)
theory TTY
  imports Byte_Ring
begin

text \<open>
  The terminal of the console, \<^verbatim>\<open>kernel/tty/tty.c\<close>, with its line discipline \<^verbatim>\<open>kernel/tty/canon.c\<close>. Input
  arrives in interrupts and goes into a ring; a reader takes it from there, in canonical mode line by
  line through a second buffer. A read stages its bytes under the lock of the ring, copies them, and
  removes them in a second section under the lock, so readers and input are a step relation.

  The state records the characters echoed, the signals sent, the input accepted into the ring and the
  bytes that reads have returned. The \<open>termios\<close> settings stay the same during a run.
\<close>

section \<open>Data\<close>

definition TTY_BUF_SIZE :: nat where "TTY_BUF_SIZE = 256"
definition CANON_BUF_SIZE :: nat where "CANON_BUF_SIZE = 256"

definition ISIG :: u32 where "ISIG = 1"
definition ICANON :: u32 where "ICANON = 2"
definition ECHO :: u32 where "ECHO = 8"
definition OPOST :: u32 where "OPOST = 1"
definition ONLCR :: u32 where "ONLCR = 4"
definition ICRNL :: u32 where "ICRNL = 0x100"

definition VINTR :: nat where "VINTR = 0"
definition VQUIT :: nat where "VQUIT = 1"
definition VERASE :: nat where "VERASE = 2"
definition VKILL :: nat where "VKILL = 3"
definition VEOF :: nat where "VEOF = 4"
definition VTIME :: nat where "VTIME = 5"
definition VMIN :: nat where "VMIN = 6"
definition VSUSP :: nat where "VSUSP = 10"

definition SIGINT :: nat where "SIGINT = 2"
definition SIGQUIT :: nat where "SIGQUIT = 3"

record termios =
  c_iflag :: u32
  c_oflag :: u32
  c_cflag :: u32
  c_lflag :: u32
  c_line :: u8
  c_cc :: "u8 list"
  c_ispeed :: u32
  c_ospeed :: u32

record tty =
  t_ring :: "u8 list"
  t_head :: nat
  t_tail :: nat
  canon_buf :: "u8 list"
  canon_len :: nat
  t_term :: termios
  t_wait :: "nat list"
  t_poll :: "nat list"
  fg_pgrp :: int

definition raw_termios :: termios where
  "raw_termios = \<lparr>c_iflag = ICRNL, c_oflag = OPOST OR ONLCR, c_cflag = 0, c_lflag = ISIG, c_line = 0,
     c_cc = (replicate 32 0)[VMIN := 1, VTIME := 0, VINTR := 3, VQUIT := 28, VERASE := 127, VKILL := 21, VEOF := 4], c_ispeed = 0, c_ospeed = 0\<rparr>"

definition tty_alloc :: tty where
  "tty_alloc = \<lparr>t_ring = replicate TTY_BUF_SIZE 0, t_head = 0, t_tail = 0, canon_buf = replicate CANON_BUF_SIZE 0, canon_len = 0,
     t_term = raw_termios, t_wait = [], t_poll = [], fg_pgrp = 0\<rparr>"

definition canonical :: "tty \<Rightarrow> bool" where
  "canonical t = (c_lflag (t_term t) AND ICANON \<noteq> 0)"

section \<open>The ring\<close>

definition tty_ring_full :: "tty \<Rightarrow> bool" where
  "tty_ring_full t = ((t_head t + 1) mod TTY_BUF_SIZE = t_tail t)"

definition tty_put :: "u8 \<Rightarrow> tty \<Rightarrow> tty" where
  "tty_put c t = t\<lparr>t_ring := (t_ring t)[t_head t := c], t_head := (t_head t + 1) mod TTY_BUF_SIZE\<rparr>"

definition tty_ring_push :: "u8 \<Rightarrow> tty \<Rightarrow> bool \<times> tty" where
  "tty_ring_push c t = (if \<not> tty_ring_full t then (True, tty_put c t) else (False, t))"

definition tty_avail :: "tty \<Rightarrow> nat" where
  "tty_avail t = (t_head t + TTY_BUF_SIZE - t_tail t) mod TTY_BUF_SIZE"

definition tty_peek :: "nat \<Rightarrow> tty \<Rightarrow> u8 list" where
  "tty_peek k t =
    (if t_tail t + k \<le> TTY_BUF_SIZE then take k (drop (t_tail t) (t_ring t))
     else take (TTY_BUF_SIZE - t_tail t) (drop (t_tail t) (t_ring t)) @ take (k - (TTY_BUF_SIZE - t_tail t)) (t_ring t))"

definition tty_skip :: "nat \<Rightarrow> tty \<Rightarrow> tty" where
  "tty_skip k t = t\<lparr>t_tail := (t_tail t + k) mod TTY_BUF_SIZE\<rparr>"

section \<open>The line discipline\<close>

text \<open>Bytes move from the ring into the line buffer up to a newline or until the buffer is full.\<close>

definition canon_take :: "tty \<Rightarrow> tty" where
  "canon_take t = t\<lparr>t_tail := (t_tail t + 1) mod TTY_BUF_SIZE,
     canon_buf := (canon_buf t)[canon_len t := t_ring t ! t_tail t], canon_len := canon_len t + 1\<rparr>"

function canon_accumulate :: "tty \<Rightarrow> tty" where
  "canon_accumulate t =
    (if t_head t \<noteq> t_tail t \<and> canon_len t < CANON_BUF_SIZE then
       if t_ring t ! t_tail t = 10 then canon_take t else canon_accumulate (canon_take t)
     else t)"
  by pat_completeness auto
termination
  by (relation "measure (\<lambda>t. CANON_BUF_SIZE - canon_len t)") (auto simp: canon_take_def)

declare canon_accumulate.simps [simp del]

text \<open>The number of bytes before the first newline, or all of them.\<close>

definition first_nl :: "u8 list \<Rightarrow> nat" where
  "first_nl xs = length (takeWhile (\<lambda>c. c \<noteq> 10) xs)"

definition canon_line :: "tty \<Rightarrow> u8 list" where
  "canon_line t = take (canon_len t) (canon_buf t)"

text \<open>Removing the first \<open>n\<close> bytes of the line buffer; the length of the move must not be negative.\<close>

definition canon_drop :: "nat \<Rightarrow> tty \<Rightarrow> tty option" where
  "canon_drop n t =
    (if canon_len t < n then None
     else Some (t\<lparr>canon_buf := take (canon_len t - n) (drop n (canon_buf t)) @ drop (canon_len t - n) (canon_buf t),
                  canon_len := canon_len t - n\<rparr>))"

definition canon_copy :: "nat \<Rightarrow> tty \<Rightarrow> u8 list" where
  "canon_copy sz t =
    (let i = first_nl (canon_line t) in
     if i = canon_len t then [] else take (if i + 1 < sz then i + 1 else sz) (canon_buf t))"

definition canon_read :: "nat \<Rightarrow> tty \<Rightarrow> (u8 list \<times> tty) option" where
  "canon_read sz t =
    (let out = canon_copy sz t in if out = [] then Some ([], t) else map_option (Pair out) (canon_drop (length out) t))"

section \<open>State\<close>

datatype tpoint =
    T_idle | T_try nat bool | T_commit "u8 list" bool | T_block nat | T_asleep nat | T_done nat

record tsys =
  tt :: tty
  t_running :: "nat \<Rightarrow> bool"
  tpoint :: "nat \<Rightarrow> tpoint"
  accepted :: "u8 list"
  delivered :: "u8 list"
  echoed :: "u8 list"
  signals :: "(int \<times> nat) list"

definition tgo :: "nat \<Rightarrow> tpoint \<Rightarrow> tsys \<Rightarrow> tsys" where
  "tgo r x s = s\<lparr>tpoint := (tpoint s)(r := x)\<rparr>"

section \<open>Input\<close>

text \<open>A character is a signed \<open>char\<close> and a control character an unsigned one; 0 disables it.\<close>

definition is_cc :: "nat \<Rightarrow> u8 \<Rightarrow> tty \<Rightarrow> bool" where
  "is_cc k c t = (c_cc (t_term t) ! k \<noteq> 0 \<and> sint c = uint (c_cc (t_term t) ! k))"

definition signal_pgrp :: "nat \<Rightarrow> tsys \<Rightarrow> tsys" where
  "signal_pgrp sig s = (if fg_pgrp (tt s) \<noteq> 0 then s\<lparr>signals := signals s @ [(fg_pgrp (tt s), sig)]\<rparr> else s)"

definition tty_echo :: "u8 \<Rightarrow> tsys \<Rightarrow> tsys" where
  "tty_echo c s =
    (let l = c_lflag (t_term (tt s)) in
     if l AND ICANON \<noteq> 0 \<and> l AND ECHO \<noteq> 0 then
       s\<lparr>echoed := echoed s @ (if c = 10 \<and> c_oflag (t_term (tt s)) AND ONLCR \<noteq> 0 then [13, c] else [c])\<rparr>
     else s)"

definition tty_wake_waiters :: "tsys \<Rightarrow> tsys" where
  "tty_wake_waiters s =
    s\<lparr>t_running := (\<lambda>r. r \<in> set (t_wait (tt s)) \<or> t_running s r), tt := (tt s)\<lparr>t_wait := [], t_poll := []\<rparr>\<rparr>"

definition tty_push_input :: "u8 \<Rightarrow> tsys \<Rightarrow> tsys" where
  "tty_push_input c s =
    (let isig = (c_lflag (t_term (tt s)) AND ISIG \<noteq> 0) in
     if isig \<and> is_cc VINTR c (tt s) then signal_pgrp SIGINT s
     else if isig \<and> is_cc VQUIT c (tt s) then signal_pgrp SIGQUIT s
     else if isig \<and> is_cc VSUSP c (tt s) then s
     else let s1 = tty_echo c s; (ok, t) = tty_ring_push c (tt s1) in
       if \<not> ok then s1 else tty_wake_waiters (s1\<lparr>tt := t, accepted := accepted s1 @ [c]\<rparr>))"

section \<open>Reading\<close>

definition tty_stage :: "nat \<Rightarrow> tty \<Rightarrow> u8 list \<times> tty" where
  "tty_stage sz t =
    (if canonical t then let t1 = canon_accumulate t in (canon_copy sz t1, t1)
     else let want = (if tty_avail t < sz then tty_avail t else sz) in (if want > 0 then tty_peek want t else [], t))"

definition tty_commit :: "bool \<Rightarrow> nat \<Rightarrow> tty \<Rightarrow> tty option" where
  "tty_commit canon n t = (if canon then canon_drop n t else Some (tty_skip n t))"

definition tty_read_start :: "nat \<Rightarrow> nat \<Rightarrow> bool \<Rightarrow> tsys \<Rightarrow> tsys" where
  "tty_read_start r sz nonblock s = tgo r (if sz = 0 then T_done 0 else T_try sz nonblock) s"

definition tty_read_try :: "nat \<Rightarrow> nat \<Rightarrow> bool \<Rightarrow> tsys \<Rightarrow> tsys" where
  "tty_read_try r sz nonblock s =
    (let (bs, t) = tty_stage sz (tt s) in
     tgo r (if bs \<noteq> [] then T_commit bs (canonical t) else if nonblock then T_done 0 else T_block sz) (s\<lparr>tt := t\<rparr>))"

definition tty_read_commit :: "nat \<Rightarrow> u8 list \<Rightarrow> bool \<Rightarrow> tsys \<Rightarrow> tsys option" where
  "tty_read_commit r bs canon s =
    map_option (\<lambda>t. tgo r (T_done (length bs)) (s\<lparr>tt := t, delivered := delivered s @ bs\<rparr>)) (tty_commit canon (length bs) (tt s))"

text \<open>Going to sleep: the reader enters the queue and looks at the ring once more.\<close>

definition tty_read_block :: "bool \<Rightarrow> nat \<Rightarrow> nat \<Rightarrow> tsys \<Rightarrow> tsys" where
  "tty_read_block fatal r sz s =
    (if fatal then tgo r (T_done 0) s
     else if t_head (tt s) \<noteq> t_tail (tt s) then tgo r (T_try sz False) s
     else tgo r (T_asleep sz) (s\<lparr>t_running := (t_running s)(r := False), tt := (tt s)\<lparr>t_wait := t_wait (tt s) @ [r]\<rparr>\<rparr>))"

definition tty_read_awake :: "bool \<Rightarrow> nat \<Rightarrow> nat \<Rightarrow> tsys \<Rightarrow> tsys" where
  "tty_read_awake fatal r sz s =
    tgo r (if fatal then T_done 0 else T_try sz False) (s\<lparr>tt := (tt s)\<lparr>t_wait := removeAll r (t_wait (tt s))\<rparr>\<rparr>)"

text \<open>The steps, for the readers in \<open>R\<close>.\<close>

inductive tty_step :: "nat set \<Rightarrow> tsys \<Rightarrow> tsys \<Rightarrow> bool" for R where
  input: "tty_step R s (tty_push_input c s)"
| begin_read: "r \<in> R \<Longrightarrow> tpoint s r = T_idle \<Longrightarrow> tty_step R s (tty_read_start r sz nonblock s)"
| attempt: "tpoint s r = T_try sz nonblock \<Longrightarrow> tty_step R s (tty_read_try r sz nonblock s)"
| commit: "tpoint s r = T_commit bs canon \<Longrightarrow> tty_read_commit r bs canon s = Some s' \<Longrightarrow> tty_step R s s'"
| block: "tpoint s r = T_block sz \<Longrightarrow> tty_step R s (tty_read_block fatal r sz s)"
| awake: "tpoint s r = T_asleep sz \<Longrightarrow> t_running s r \<Longrightarrow> tty_step R s (tty_read_awake fatal r sz s)"
| end_read: "tpoint s r = T_done n \<Longrightarrow> tty_step R s (tgo r T_idle s)"
| rouse: "tty_step R s (s\<lparr>t_running := (t_running s)(r := True)\<rparr>)"

definition tty_initial :: "termios \<Rightarrow> tsys" where
  "tty_initial m = \<lparr>tt = tty_alloc\<lparr>t_term := m\<rparr>, t_running = (\<lambda>_. True), tpoint = (\<lambda>_. T_idle), accepted = [], delivered = [],
     echoed = [], signals = []\<rparr>"

inductive tty_reach :: "nat set \<Rightarrow> termios \<Rightarrow> tsys \<Rightarrow> bool" for R m where
  start: "tty_reach R m (tty_initial m)"
| later: "tty_reach R m s \<Longrightarrow> tty_step R s s' \<Longrightarrow> tty_reach R m s'"

section \<open>Output, poll and control\<close>

text \<open>The characters handed to \<open>output_char\<close>, and the count returned.\<close>

definition tty_write :: "u8 list \<Rightarrow> nat \<Rightarrow> u8 list \<times> nat" where
  "tty_write buf sz = (if sz = 0 then ([], 0) else (take sz buf, sz))"

text \<open>The mask of a poll; \<open>wants_read\<close> says that the caller asks for input, and \<open>pt\<close> is the poll to register, if any.\<close>

definition tty_poll :: "bool \<Rightarrow> nat option \<Rightarrow> tty \<Rightarrow> u32 \<times> tty" where
  "tty_poll wants_read pt t =
    (if t_head t \<noteq> t_tail t then (0x104 OR 0x041, t)
     else (0x104, case pt of Some e \<Rightarrow> if wants_read then t\<lparr>t_poll := t_poll t @ [e]\<rparr> else t | None \<Rightarrow> t))"

datatype tty_request =
    TCGETS | TCSETS termios | TIOCGWINSZ | TIOCGPGRP | TIOCSPGRP int | FIONREAD | Other_request

datatype tty_reply =
    No_reply | Reply_termios termios | Reply_winsize nat nat | Reply_pgrp int | Reply_avail nat

text \<open>
  The requests of \<open>tty_phys_ioctl\<close>. What a request reads from user memory is its argument. The caller gives
  whether the pointer is NULL, whether the range check passes, whether the copy faults, its own
  process group, and which process groups its session has.
\<close>

record caller =
  arg_null :: bool
  range_ok :: bool
  copy_faults :: bool
  own_pgrp :: int
  in_session :: "int \<Rightarrow> bool"

definition bad_arg :: "caller \<Rightarrow> bool" where
  "bad_arg c = (arg_null c \<or> \<not> range_ok c \<or> copy_faults c)"

fun tty_phys_ioctl :: "caller \<Rightarrow> tty_request \<Rightarrow> tty option \<Rightarrow> (errno + tty_reply) \<times> tty option" where
  "tty_phys_ioctl c TCGETS None = (Inl ENODEV, None)"
| "tty_phys_ioctl c TCGETS (Some t) = (if bad_arg c then Inl EFAULT else Inr (Reply_termios (t_term t)), Some t)"
| "tty_phys_ioctl c (TCSETS k) None = (Inl ENODEV, None)"
| "tty_phys_ioctl c (TCSETS k) (Some t) = (if bad_arg c then (Inl EFAULT, Some t) else (Inr No_reply, Some (t\<lparr>t_term := k\<rparr>)))"
| "tty_phys_ioctl c TIOCGWINSZ d = (if bad_arg c then Inl EFAULT else Inr (Reply_winsize 25 80), d)"
| "tty_phys_ioctl c TIOCGPGRP None = (Inl ENODEV, None)"
| "tty_phys_ioctl c TIOCGPGRP (Some t) = (if bad_arg c then Inl EFAULT else Inr (Reply_pgrp (fg_pgrp t)), Some t)"
| "tty_phys_ioctl c (TIOCSPGRP pg) None = (Inl ENODEV, None)"
| "tty_phys_ioctl c (TIOCSPGRP pg) (Some t) =
    (if bad_arg c then (Inl EFAULT, Some t)
     else if pg < 0 then (Inl EINVAL, Some t)
     else if pg \<noteq> 0 \<and> pg \<noteq> own_pgrp c \<and> \<not> in_session c pg then (Inl EPERM, Some t)
     else (Inr No_reply, Some (t\<lparr>fg_pgrp := pg\<rparr>)))"
| "tty_phys_ioctl c FIONREAD d =
    (if bad_arg c then Inl EFAULT else Inr (Reply_avail (case d of None \<Rightarrow> 0 | Some t \<Rightarrow> tty_avail t)), d)"
| "tty_phys_ioctl c Other_request d = (Inl ENOTTY, d)"

section \<open>The buffers\<close>

definition tty_bytes :: "tty \<Rightarrow> u8 list" where
  "tty_bytes t = ring_list TTY_BUF_SIZE (t_ring t) (t_head t) (t_tail t)"

definition tty_ok :: "tty \<Rightarrow> bool" where
  "tty_ok t = ring_ok TTY_BUF_SIZE (t_ring t) (t_head t) (t_tail t)"

definition canon_ok :: "tty \<Rightarrow> bool" where
  "canon_ok t \<longleftrightarrow> length (canon_buf t) = CANON_BUF_SIZE \<and> canon_len t \<le> CANON_BUF_SIZE"

lemmas tty_ring_defs = tty_ring_full_def tty_put_def tty_avail_def tty_peek_def tty_skip_def tty_bytes_def tty_ok_def

interpretation tty_queue: bounded_queue tty_ok tty_bytes "TTY_BUF_SIZE - 1" tty_ring_full tty_put tty_avail tty_peek tty_skip
proof
  fix t c k
  assume ok: "tty_ok t"
  then have b: "t_head t < TTY_BUF_SIZE" "t_tail t < TTY_BUF_SIZE" and r: "ring_ok TTY_BUF_SIZE (t_ring t) (t_head t) (t_tail t)"
    by (simp_all add: tty_ok_def ring_ok_def)
  show "tty_ring_full t \<longleftrightarrow> length (tty_bytes t) = TTY_BUF_SIZE - 1" using ring_full [OF b] by (simp add: tty_ring_full_def tty_bytes_def)
  show "length (tty_bytes t) \<le> TTY_BUF_SIZE - 1" using ring_bound [OF b] by (simp add: tty_bytes_def)
  show "tty_avail t = length (tty_bytes t)" by (simp add: tty_bytes_def tty_avail_def ring_avail_def)
  show "tty_ok (tty_put c t) \<and> tty_bytes (tty_put c t) = tty_bytes t @ [c]" if "\<not> tty_ring_full t"
    using that ring_put [OF r] by (simp add: tty_ring_defs)
  assume "k \<le> tty_avail t"
  then have k: "k \<le> ring_avail TTY_BUF_SIZE (t_head t) (t_tail t)" by (simp add: tty_avail_def ring_avail_def)
  show "tty_peek k t = take k (tty_bytes t)" using ring_peek_eq [OF r k] by (simp add: tty_peek_def tty_bytes_def ring_peek_def)
  show "tty_ok (tty_skip k t) \<and> tty_bytes (tty_skip k t) = drop k (tty_bytes t)"
    using ring_drop [OF r k] by (simp add: tty_ring_defs)
qed

lemma tty_first: "tty_ok t \<Longrightarrow> t_head t \<noteq> t_tail t \<Longrightarrow> tty_bytes t = t_ring t ! t_tail t # tty_bytes (tty_skip 1 t) \<and> tty_ok (tty_skip 1 t)"
proof -
  assume ok: "tty_ok t" and ne: "t_head t \<noteq> t_tail t"
  then have b: "t_head t < TTY_BUF_SIZE" "t_tail t < TTY_BUF_SIZE" by (simp_all add: tty_ok_def ring_ok_def)
  with ne have l: "tty_bytes t \<noteq> []" using ring_empty [OF b] by (simp add: tty_bytes_def)
  then have a: "1 \<le> tty_avail t" using tty_queue.avail_eq [OF ok] by (cases "tty_bytes t") simp_all
  have "tty_bytes t ! 0 = t_ring t ! t_tail t"
    using l b unfolding tty_bytes_def by (subst ring_list_nth) (simp_all flip: length_greater_0_conv)
  with l tty_queue.skip_ok [OF ok a] show ?thesis by (cases "tty_bytes t") simp_all
qed

lemma canon_take_ok:
  assumes "tty_ok t" "canon_ok t" "t_head t \<noteq> t_tail t" "canon_len t < CANON_BUF_SIZE"
  shows "tty_ok (canon_take t)" "canon_ok (canon_take t)" "canon_line (canon_take t) = canon_line t @ [t_ring t ! t_tail t]"
    "tty_bytes t = t_ring t ! t_tail t # tty_bytes (canon_take t)"
proof -
  have e: "tty_bytes (canon_take t) = tty_bytes (tty_skip 1 t)" "tty_ok (canon_take t) = tty_ok (tty_skip 1 t)"
    by (simp_all add: canon_take_def tty_skip_def tty_bytes_def tty_ok_def)
  with tty_first [OF assms(1,3)] show "tty_ok (canon_take t)" "tty_bytes t = t_ring t ! t_tail t # tty_bytes (canon_take t)" by simp_all
  from assms(2,4) show "canon_ok (canon_take t)" by (simp add: canon_take_def canon_ok_def)
  from assms(2,4) show "canon_line (canon_take t) = canon_line t @ [t_ring t ! t_tail t]"
    by (simp add: canon_take_def canon_line_def canon_ok_def take_Suc_conv_app_nth)
qed

lemma accumulate_ok:
  "tty_ok t \<Longrightarrow> canon_ok t \<Longrightarrow> tty_ok (canon_accumulate t) \<and> canon_ok (canon_accumulate t) \<and> t_term (canon_accumulate t) = t_term t
     \<and> canon_line (canon_accumulate t) @ tty_bytes (canon_accumulate t) = canon_line t @ tty_bytes t"
proof (induction t rule: canon_accumulate.induct)
  case (1 t)
  show ?case
  proof (cases "t_head t \<noteq> t_tail t \<and> canon_len t < CANON_BUF_SIZE")
    case True
    with 1(2,3) have c: "tty_ok (canon_take t)" "canon_ok (canon_take t)"
      "canon_line (canon_take t) @ tty_bytes (canon_take t) = canon_line t @ tty_bytes t" "t_term (canon_take t) = t_term t"
      using canon_take_ok [of t] by (auto simp: canon_take_def)
    with True 1(1) show ?thesis unfolding canon_accumulate.simps [of t] by auto
  next
    case False
    with 1(2,3) show ?thesis unfolding canon_accumulate.simps [of t] by auto
  qed
qed

lemma canon_drop_ok:
  assumes "canon_ok t" "bs = take (length bs) (canon_line t)"
  shows "\<exists>t'. canon_drop (length bs) t = Some t' \<and> canon_ok t' \<and> canon_line t = bs @ canon_line t'
     \<and> tty_ok t' = tty_ok t \<and> tty_bytes t' = tty_bytes t \<and> t_term t' = t_term t"
proof -
  have l: "length (canon_line t) = canon_len t" using assms(1) by (simp add: canon_line_def canon_ok_def)
  then have n: "length bs \<le> canon_len t" using arg_cong [OF assms(2), of length] by simp
  define t' where "t' = the (canon_drop (length bs) t)"
  have "canon_drop (length bs) t = Some t'" using n by (simp add: t'_def canon_drop_def)
  moreover have "canon_ok t'" "canon_line t' = drop (length bs) (canon_line t)"
    using n assms(1) by (auto simp: t'_def canon_drop_def canon_ok_def canon_line_def drop_take)
  moreover have "tty_ok t' = tty_ok t \<and> tty_bytes t' = tty_bytes t \<and> t_term t' = t_term t"
    using n by (simp add: t'_def canon_drop_def tty_ok_def tty_bytes_def)
  moreover have "canon_line t = bs @ drop (length bs) (canon_line t)" using assms(2) by (metis append_take_drop_id)
  ultimately show ?thesis by metis
qed

lemma canon_copy_ok:
  assumes "canon_ok t"
  shows "canon_copy sz t = take (length (canon_copy sz t)) (canon_line t)" "10 \<notin> set (butlast (canon_copy sz t))"
proof -
  let ?l = "canon_line t" and ?i = "first_nl (canon_line t)"
  have l: "length ?l = canon_len t" using assms by (simp add: canon_line_def canon_ok_def)
  have i: "?i \<le> canon_len t" using length_takeWhile_le [of "\<lambda>c. c \<noteq> 10" ?l] l by (simp add: first_nl_def)
  have nl: "take ?i ?l = takeWhile (\<lambda>c. c \<noteq> 10) ?l" by (simp add: first_nl_def takeWhile_eq_take [symmetric])
  have "\<exists>m \<le> ?i + 1. m \<le> canon_len t \<and> canon_copy sz t = take m ?l"
    using i by (intro exI [of _ "if ?i = canon_len t then 0 else min (?i + 1) sz"])
      (auto simp: canon_copy_def canon_line_def [of t] Let_def min_def)
  then obtain m where m: "m \<le> ?i + 1" "m \<le> canon_len t" "canon_copy sz t = take m ?l" by blast
  with l show "canon_copy sz t = take (length (canon_copy sz t)) ?l" by simp
  have "butlast (take m ?l) = take (m - 1) ?l" using m(2) l by (simp add: butlast_take)
  then have "set (butlast (take m ?l)) \<subseteq> set (take ?i ?l)" using m(1) by (simp add: set_take_subset_set_take)
  then show "10 \<notin> set (butlast (canon_copy sz t))" unfolding m(3) nl by (auto dest: set_takeWhileD)
qed

section \<open>One reader\<close>

text \<open>
  With one reader the terminal is a queue: the invariant says that the input accepted is what reads
  have returned, followed by the line buffer and the ring, and that what a read has staged is still
  the front when it commits.
\<close>

definition tty_inv :: "nat \<Rightarrow> termios \<Rightarrow> tsys \<Rightarrow> bool" where
  "tty_inv r m s \<longleftrightarrow> tty_ok (tt s) \<and> canon_ok (tt s) \<and> t_term (tt s) = m \<and> (\<not> canonical (tt s) \<longrightarrow> canon_len (tt s) = 0)
     \<and> accepted s = delivered s @ canon_line (tt s) @ tty_bytes (tt s)
     \<and> (\<forall>x. x \<noteq> r \<longrightarrow> tpoint s x = T_idle)
     \<and> (\<forall>bs c. tpoint s r = T_commit bs c \<longrightarrow> c = canonical (tt s) \<and> (c \<longrightarrow> 10 \<notin> set (butlast bs))
          \<and> bs = take (length bs) (if c then canon_line (tt s) else tty_bytes (tt s)))"

text \<open>Steps that leave the buffers and the settings alone.\<close>

definition buffers_kept :: "tty \<Rightarrow> tty \<Rightarrow> bool" where
  "buffers_kept t t' \<longleftrightarrow> t_ring t' = t_ring t \<and> t_head t' = t_head t \<and> t_tail t' = t_tail t
     \<and> canon_buf t' = canon_buf t \<and> canon_len t' = canon_len t \<and> t_term t' = t_term t"

lemma inv_kept:
  assumes "tty_inv r m s" "buffers_kept (tt s) (tt s')" "accepted s' = accepted s" "delivered s' = delivered s"
    "\<And>x. x \<noteq> r \<Longrightarrow> tpoint s' x = tpoint s x" "\<And>bs c. tpoint s' r = T_commit bs c \<Longrightarrow> tpoint s r = T_commit bs c"
  shows "tty_inv r m s'"
proof -
  have "tty_ok (tt s') = tty_ok (tt s)" "tty_bytes (tt s') = tty_bytes (tt s)" "canon_ok (tt s') = canon_ok (tt s)"
    "canon_line (tt s') = canon_line (tt s)" "canonical (tt s') = canonical (tt s)" "t_term (tt s') = t_term (tt s)"
    "canon_len (tt s') = canon_len (tt s)"
    using assms(2) by (simp_all add: buffers_kept_def tty_ok_def tty_bytes_def canon_ok_def canon_line_def canonical_def)
  with assms show ?thesis unfolding tty_inv_def by auto
qed

lemma push_cases:
  "buffers_kept (tt s) (tt (tty_push_input c s)) \<and> accepted (tty_push_input c s) = accepted s
   \<or> \<not> tty_ring_full (tt s) \<and> buffers_kept (tty_put c (tt s)) (tt (tty_push_input c s)) \<and> accepted (tty_push_input c s) = accepted s @ [c]"
proof -
  have e: "tt (tty_echo c s) = tt s" "accepted (tty_echo c s) = accepted s" by (simp_all add: tty_echo_def Let_def)
  show ?thesis unfolding tty_push_input_def Let_def
    by (simp add: e signal_pgrp_def tty_ring_push_def tty_wake_waiters_def buffers_kept_def)
qed

lemma push_other: "delivered (tty_push_input c s) = delivered s" "tpoint (tty_push_input c s) = tpoint s"
  by (simp_all add: tty_push_input_def signal_pgrp_def tty_echo_def tty_wake_waiters_def Let_def case_prod_beta)

lemma inv_put:
  assumes "tty_inv r m s" "\<not> tty_ring_full (tt s)"
  shows "tty_inv r m (s\<lparr>tt := tty_put c (tt s), accepted := accepted s @ [c]\<rparr>)"
proof -
  from assms(1) have ok: "tty_ok (tt s)" by (simp add: tty_inv_def)
  note p = tty_queue.put_ok [OF ok assms(2), of c]
  have k: "canon_ok (tty_put c (tt s)) = canon_ok (tt s)" "canon_line (tty_put c (tt s)) = canon_line (tt s)"
    "canonical (tty_put c (tt s)) = canonical (tt s)" "t_term (tty_put c (tt s)) = t_term (tt s)" "canon_len (tty_put c (tt s)) = canon_len (tt s)"
    by (simp_all add: tty_put_def canon_ok_def canon_line_def canonical_def)
  have "bs = take (length bs) (tty_bytes (tt s) @ [c])" if "bs = take (length bs) (tty_bytes (tt s))" for bs
    using that by (metis append_eq_conv_conj append_take_drop_id append_assoc)
  with assms(1) p show ?thesis unfolding tty_inv_def by (auto simp: k)
qed

lemma inv_input:
  assumes "tty_inv r m s"
  shows "tty_inv r m (tty_push_input c s)"
  using push_cases [of s c]
proof
  assume "buffers_kept (tt s) (tt (tty_push_input c s)) \<and> accepted (tty_push_input c s) = accepted s"
  then show ?thesis by (intro inv_kept [OF assms]) (simp_all add: push_other)
next
  assume put: "\<not> tty_ring_full (tt s) \<and> buffers_kept (tty_put c (tt s)) (tt (tty_push_input c s)) \<and> accepted (tty_push_input c s) = accepted s @ [c]"
  then show ?thesis by (intro inv_kept [OF inv_put [OF assms, of c]]) (simp_all add: push_other)
qed

lemma inv_try:
  assumes inv: "tty_inv r m s" and pt: "tpoint s x = T_try sz nonblock"
  shows "tty_inv r m (tty_read_try x sz nonblock s)"
proof -
  from inv pt have x: "x = r" unfolding tty_inv_def by (metis tpoint.distinct(1))
  show ?thesis
  proof (cases "canonical (tt s)")
    case True
    let ?t = "canon_accumulate (tt s)"
    from inv have "tty_ok (tt s)" "canon_ok (tt s)" by (simp_all add: tty_inv_def)
    note a = accumulate_ok [OF this]
    then have "canonical ?t" using True by (simp add: canonical_def)
    with a inv True canon_copy_ok [of ?t sz] show ?thesis
      unfolding tty_inv_def x tty_read_try_def by (auto simp: tty_stage_def tgo_def Let_def)
  next
    case False
    with inv have "tty_ok (tt s)" by (simp add: tty_inv_def)
    from tty_queue.peek_front [OF this, of "tty_avail (tt s)"] tty_queue.peek_front [OF this, of sz] inv False show ?thesis
      unfolding tty_inv_def x tty_read_try_def by (auto simp: tty_stage_def tgo_def Let_def split: if_splits)
  qed
qed

lemma inv_commit:
  assumes inv: "tty_inv r m s" and pt: "tpoint s x = T_commit bs c"
  shows "\<exists>s'. tty_read_commit x bs c s = Some s' \<and> tty_inv r m s'"
proof -
  from inv pt have x: "x = r" unfolding tty_inv_def by (metis tpoint.distinct(3))
  with inv pt have c: "c = canonical (tt s)" "bs = take (length bs) (if c then canon_line (tt s) else tty_bytes (tt s))"
    and ok: "tty_ok (tt s)" "canon_ok (tt s)" by (auto simp: tty_inv_def)
  show ?thesis
  proof (cases c)
    case True
    with canon_drop_ok [OF ok(2), of bs] c obtain t' where t': "canon_drop (length bs) (tt s) = Some t'" "canon_ok t'"
      "canon_line (tt s) = bs @ canon_line t'" "tty_ok t'" "tty_bytes t' = tty_bytes (tt s)" "t_term t' = t_term (tt s)"
      using ok(1) by auto
    then show ?thesis using inv c True
      unfolding tty_inv_def x by (auto simp: tty_read_commit_def tty_commit_def tgo_def canonical_def)
  next
    case False
    with tty_queue.skip_front [OF ok(1), of bs] c have t': "tty_bytes (tt s) = bs @ tty_bytes (tty_skip (length bs) (tt s))"
      "tty_ok (tty_skip (length bs) (tt s))" by auto
    have k: "canon_ok (tty_skip n t) = canon_ok t" "canon_line (tty_skip n t) = canon_line t"
      "canonical (tty_skip n t) = canonical t" "t_term (tty_skip n t) = t_term t" "canon_len (tty_skip n t) = canon_len t" for n t
      by (simp_all add: tty_skip_def canon_ok_def canon_line_def canonical_def)
    have "canon_line (tt s) = []" using inv c False by (simp add: tty_inv_def canon_line_def)
    with t' inv c False show ?thesis
      unfolding tty_inv_def x by (auto simp: tty_read_commit_def tty_commit_def tgo_def k)
  qed
qed

lemma inv_move:
  assumes "tty_inv r m s" "tpoint s x \<noteq> T_idle \<or> x = r" "buffers_kept (tt s) t" "\<And>bs c. p \<noteq> T_commit bs c"
  shows "tty_inv r m (tgo x p (s\<lparr>t_running := run, tt := t\<rparr>))"
proof -
  from assms(1,2) have "x = r" by (auto simp: tty_inv_def)
  with assms(3,4) show ?thesis by (intro inv_kept [OF assms(1)]) (auto simp: tgo_def)
qed

lemma inv_step:
  assumes inv: "tty_inv r m s" and st: "tty_step {r} s s'"
  shows "tty_inv r m s'"
proof -
  have keep: "buffers_kept (tt s) (tt s)" "buffers_kept (tt s) ((tt s)\<lparr>t_wait := q\<rparr>)" for q by (simp_all add: buffers_kept_def)
  note move = inv_move [OF inv _ keep(1), where run = "t_running s"] inv_move [OF inv _ keep(2)]
  from st show ?thesis
  proof (cases rule: tty_step.cases)
    case (commit x bs c)
    then show ?thesis using inv_commit [OF inv] by fastforce
  next
    case (rouse x)
    then show ?thesis by (intro inv_kept [OF inv]) (simp_all add: buffers_kept_def)
  next
    case (awake x sz fatal)
    then show ?thesis using inv_move [OF inv _ keep(2), where run = "t_running s"] by (simp add: tty_read_awake_def)
  qed (simp_all add: inv_input [OF inv] inv_try [OF inv] tty_read_start_def tty_read_block_def move [simplified])
qed

lemma tty_inv_initial: "tty_inv r m (tty_initial m)"
  by (simp add: tty_inv_def tty_initial_def tty_alloc_def tty_ok_def ring_ok_def canon_ok_def canon_line_def tty_bytes_def
      ring_list_def ring_avail_def TTY_BUF_SIZE_def CANON_BUF_SIZE_def)

lemma reach_inv: "tty_reach {r} m s \<Longrightarrow> tty_inv r m s"
  by (induction rule: tty_reach.induct) (simp_all add: tty_inv_initial inv_step)

text \<open>
  C36. With one reader the terminal loses nothing and keeps the order: in every reachable state the
  input accepted is, in order, what reads have returned, then the line buffer, then the ring. A read
  that has staged bytes can always remove them, returns exactly them, and in canonical mode they
  have a newline at most at their end.
\<close>

theorem tty_reader_exact:
  assumes "tty_reach {r} m s"
  shows "accepted s = delivered s @ canon_line (tt s) @ tty_bytes (tt s)
    \<and> (\<forall>x bs c. tpoint s x = T_commit bs c \<longrightarrow> (c \<longrightarrow> 10 \<notin> set (butlast bs))
         \<and> (\<exists>s'. tty_read_commit x bs c s = Some s' \<and> tpoint s' x = T_done (length bs) \<and> delivered s' = delivered s @ bs))"
proof -
  note inv = reach_inv [OF assms]
  have "(c \<longrightarrow> 10 \<notin> set (butlast bs))
      \<and> (\<exists>s'. tty_read_commit x bs c s = Some s' \<and> tpoint s' x = T_done (length bs) \<and> delivered s' = delivered s @ bs)"
    if pt: "tpoint s x = T_commit bs c" for x bs c
  proof -
    from inv pt have "x = r" unfolding tty_inv_def by (metis tpoint.distinct(3))
    with inv pt have "c \<longrightarrow> 10 \<notin> set (butlast bs)" by (simp add: tty_inv_def)
    moreover from inv_commit [OF inv pt] obtain s' where "tty_read_commit x bs c s = Some s'" by blast
    then have "tty_read_commit x bs c s = Some s' \<and> tpoint s' x = T_done (length bs) \<and> delivered s' = delivered s @ bs"
      by (auto simp: tty_read_commit_def tgo_def)
    ultimately show ?thesis by blast
  qed
  with inv show ?thesis by (simp add: tty_inv_def)
qed

section \<open>Runs that go wrong\<close>

text \<open>
  C37. Two readers of a terminal in its default mode corrupt it: both stage the same byte, both
  commit, and the consumer index passes the producer index. One byte of input is returned twice, and
  the ring then holds 255 bytes that nobody typed.
\<close>

theorem tty_readers_collide:
  "\<exists>s. tty_reach {1, 2} raw_termios s \<and> accepted s = [65] \<and> delivered s = [65, 65] \<and> length (tty_bytes (tt s)) = 255"
proof -
  have one: "take (Suc 0) ((replicate 256 0)[0 := 65]) = [65 :: u8]"
    by (rule nth_equalityI) simp_all
  note d = one tty_initial_def tty_alloc_def raw_termios_def tty_push_input_def is_cc_def signal_pgrp_def tty_echo_def tty_ring_push_def
    tty_ring_full_def tty_put_def tty_wake_waiters_def tty_read_start_def tty_read_try_def tty_stage_def canonical_def tty_avail_def
    tty_peek_def tty_read_commit_def tty_commit_def tty_skip_def tgo_def Let_def TTY_BUF_SIZE_def ICANON_def ISIG_def VINTR_def VQUIT_def
    VSUSP_def VERASE_def VKILL_def VEOF_def VTIME_def VMIN_def
  let ?s0 = "tty_push_input 65 (tty_initial raw_termios)"
  let ?s1 = "tty_read_start 2 1 True (tty_read_start 1 1 True ?s0)"
  let ?s2 = "tty_read_try 2 1 True (tty_read_try 1 1 True ?s1)"
  have "tty_reach {1, 2} raw_termios ?s0" by (intro tty_reach.later [OF tty_reach.start] input)
  then have "tty_reach {1, 2} raw_termios (tty_read_start 1 1 True ?s0)"
    by (rule tty_reach.later [OF _ begin_read]) (simp_all add: d)
  then have "tty_reach {1, 2} raw_termios ?s1" by (rule tty_reach.later [OF _ begin_read]) (simp_all add: d)
  then have "tty_reach {1, 2} raw_termios (tty_read_try 1 1 True ?s1)" by (rule tty_reach.later [OF _ attempt]) (simp add: d)
  then have "tty_reach {1, 2} raw_termios ?s2" by (rule tty_reach.later [OF _ attempt]) (simp add: d)
  then have r: "tty_reach {1, 2} raw_termios (the (tty_read_commit 1 [65] False ?s2))" (is "tty_reach _ _ ?s3")
    by (rule tty_reach.later [OF _ commit [where r = 1 and bs = "[65]" and canon = False]]) (simp_all add: d)
  then have "tty_reach {1, 2} raw_termios (the (tty_read_commit 2 [65] False ?s3))" (is "tty_reach _ _ ?s4")
    by (rule tty_reach.later [OF _ commit [where r = 2 and bs = "[65]" and canon = False]]) (simp_all add: d)
  moreover have "accepted ?s4 = [65]" "delivered ?s4 = [65, 65]" by (simp_all add: d)
  moreover have "length (tty_bytes (tt ?s4)) = 255" by (simp add: d tty_bytes_def ring_avail_def)
  ultimately show ?thesis by blast
qed

text \<open>A line that fills the line buffer without a newline is never delivered, whatever follows.\<close>

inductive tty_runs :: "nat set \<Rightarrow> tsys \<Rightarrow> tsys \<Rightarrow> bool" for R where
  rest: "tty_runs R s s"
| more: "tty_runs R s s' \<Longrightarrow> tty_step R s' s'' \<Longrightarrow> tty_runs R s s''"

definition line_full :: "tsys \<Rightarrow> bool" where
  "line_full s \<longleftrightarrow> canonical (tt s) \<and> canon_len (tt s) = CANON_BUF_SIZE \<and> 10 \<notin> set (canon_line (tt s))
     \<and> length (canon_buf (tt s)) = CANON_BUF_SIZE \<and> (\<forall>x bs c. tpoint s x \<noteq> T_commit bs c)"

lemma full_stage:
  assumes "line_full s"
  shows "tty_stage sz (tt s) = ([], tt s)"
proof -
  from assms have "canon_accumulate (tt s) = tt s" by (subst canon_accumulate.simps) (simp add: line_full_def)
  moreover from assms have "first_nl (canon_line (tt s)) = canon_len (tt s)"
    unfolding line_full_def first_nl_def by (subst takeWhile_eq_all_conv [THEN iffD2]) (auto simp: canon_line_def)
  ultimately show ?thesis using assms by (simp add: tty_stage_def canon_copy_def line_full_def)
qed

lemma full_kept:
  assumes "line_full s" "canon_buf (tt s') = canon_buf (tt s)" "canon_len (tt s') = canon_len (tt s)" "t_term (tt s') = t_term (tt s)"
    "\<And>x bs c. tpoint s' x \<noteq> T_commit bs c"
  shows "line_full s'"
  using assms by (auto simp: line_full_def canonical_def canon_line_def)

lemma full_input:
  assumes "line_full s"
  shows "line_full (tty_push_input c s)"
proof (rule full_kept [OF assms])
  from push_cases [of s c] show "canon_buf (tt (tty_push_input c s)) = canon_buf (tt s)"
    "canon_len (tt (tty_push_input c s)) = canon_len (tt s)" "t_term (tt (tty_push_input c s)) = t_term (tt s)"
    by (auto simp: buffers_kept_def tty_put_def)
qed (use assms in \<open>simp add: push_other line_full_def\<close>)

lemma full_step:
  assumes "line_full s" "tty_step R s s'"
  shows "line_full s' \<and> delivered s' = delivered s"
  using assms(2)
proof (cases rule: tty_step.cases)
  case (input c)
  then show ?thesis using full_input [OF assms(1)] by (simp add: push_other)
next
  case (attempt x sz nonblock)
  then show ?thesis using assms(1) full_stage [OF assms(1), of sz] by (auto simp: tty_read_try_def tgo_def line_full_def)
next
  case (commit x bs c)
  then show ?thesis using assms(1) by (simp add: line_full_def)
qed (use assms(1) in \<open>auto simp: tty_read_start_def tty_read_block_def tty_read_awake_def tgo_def line_full_def canonical_def canon_line_def
    split: if_splits\<close>)

lemma full_runs: "tty_runs R s s' \<Longrightarrow> line_full s \<Longrightarrow> line_full s' \<and> delivered s' = delivered s"
  by (induction rule: tty_runs.induct) (auto dest: full_step)

lemma accumulate_end:
  assumes "tty_ok t" "canon_ok t" "10 \<notin> set (tty_bytes t)"
  shows "tty_bytes (canon_accumulate t) = [] \<or> canon_len (canon_accumulate t) = CANON_BUF_SIZE"
  using assms
proof (induction t rule: canon_accumulate.induct)
  case (1 t)
  show ?case
  proof (cases "t_head t \<noteq> t_tail t \<and> canon_len t < CANON_BUF_SIZE")
    case True
    with 1(2-4) canon_take_ok [of t] have c: "tty_ok (canon_take t)" "canon_ok (canon_take t)" "t_ring t ! t_tail t \<noteq> 10"
      "10 \<notin> set (tty_bytes (canon_take t))" by auto
    with True 1(1) show ?thesis unfolding canon_accumulate.simps [of t] by simp
  next
    case False
    with 1(2,3) ring_empty [of "t_head t" TTY_BUF_SIZE "t_tail t" "t_ring t"] show ?thesis
      unfolding canon_accumulate.simps [of t] by (auto simp: tty_bytes_def tty_ok_def ring_ok_def canon_ok_def)
  qed
qed

definition canon_termios :: termios where
  "canon_termios = raw_termios\<lparr>c_lflag := ICANON\<rparr>"

lemma canon_push:
  assumes "t_term (tt s) = canon_termios" "\<not> tty_ring_full (tt s)"
  shows "tty_push_input c s = tty_wake_waiters (s\<lparr>tt := tty_put c (tt s), accepted := accepted s @ [c]\<rparr>)"
  using assms by (simp add: tty_push_input_def tty_echo_def tty_ring_push_def canon_termios_def raw_termios_def Let_def
      ISIG_def ICANON_def ECHO_def)

text \<open>Typing \<open>n\<close> times the same letter, with room for it in the ring.\<close>

lemma type_letters:
  assumes "tty_reach {1} canon_termios s" "length (tty_bytes (tt s)) + n \<le> 255"
  shows "\<exists>s'. tty_reach {1} canon_termios s' \<and> accepted s' = accepted s @ replicate n 65 \<and> tpoint s' = tpoint s \<and> delivered s' = delivered s
     \<and> canon_line (tt s') = canon_line (tt s)"
  using assms
proof (induction n arbitrary: s)
  case (Suc n)
  have inv: "tty_inv 1 canon_termios s" by (rule reach_inv [OF Suc(2)])
  then have ok: "tty_ok (tt s)" "t_term (tt s) = canon_termios" by (simp_all add: tty_inv_def)
  then have nf: "\<not> tty_ring_full (tt s)" using Suc(3) tty_queue.full_iff [OF ok(1)] by (simp add: TTY_BUF_SIZE_def)
  let ?s = "tty_push_input 65 s"
  have e: "accepted ?s = accepted s @ [65]" "tpoint ?s = tpoint s" "delivered ?s = delivered s" "canon_line (tt ?s) = canon_line (tt s)"
    "tty_bytes (tt ?s) = tty_bytes (tt s) @ [65]"
    unfolding canon_push [OF ok(2) nf] using tty_queue.put_ok [OF ok(1) nf, of 65]
    by (simp_all add: tty_wake_waiters_def tty_bytes_def) (simp add: tty_put_def canon_line_def)
  have "tty_reach {1} canon_termios ?s" by (rule tty_reach.later [OF Suc(2) input])
  from Suc(1) [OF this] Suc(3) e show ?case by fastforce
qed auto

lemma try_letters:
  assumes "tty_reach {1} canon_termios s" "tpoint s 1 = T_try 1 False" "delivered s = []" "accepted s = replicate n 65"
  shows "tty_reach {1} canon_termios (tty_read_try 1 1 False s)" "tpoint (tty_read_try 1 1 False s) 1 = T_block 1"
    "delivered (tty_read_try 1 1 False s) = []" "accepted (tty_read_try 1 1 False s) = replicate n 65"
    "tty_bytes (tt (tty_read_try 1 1 False s)) = [] \<or> canon_len (tt (tty_read_try 1 1 False s)) = CANON_BUF_SIZE"
proof -
  let ?t = "canon_accumulate (tt s)"
  have inv: "tty_ok (tt s)" "canon_ok (tt s)" "t_term (tt s) = canon_termios" "replicate n 65 = canon_line (tt s) @ tty_bytes (tt s)"
    using reach_inv [OF assms(1)] assms(3,4) by (simp_all add: tty_inv_def)
  have nl: "10 \<notin> set (canon_line (tt s) @ tty_bytes (tt s))" unfolding inv(4) [symmetric] by simp
  note a = accumulate_ok [OF inv(1,2)]
  then have "10 \<notin> set (canon_line ?t)" using nl by (metis Un_iff set_append)
  then have "first_nl (canon_line ?t) = canon_len ?t"
    using a unfolding first_nl_def by (subst takeWhile_eq_all_conv [THEN iffD2]) (auto simp: canon_line_def canon_ok_def)
  then have "tty_stage 1 (tt s) = ([], ?t)"
    using inv(3) by (simp add: tty_stage_def canonical_def canon_termios_def ICANON_def canon_copy_def)
  then have e: "tty_read_try 1 1 False s = tgo 1 (T_block 1) (s\<lparr>tt := ?t\<rparr>)" by (simp add: tty_read_try_def)
  show "tty_reach {1} canon_termios (tty_read_try 1 1 False s)" by (rule tty_reach.later [OF assms(1) attempt [OF assms(2)]])
  show "tpoint (tty_read_try 1 1 False s) 1 = T_block 1" "delivered (tty_read_try 1 1 False s) = []"
    "accepted (tty_read_try 1 1 False s) = replicate n 65" unfolding e using assms(3,4) by (simp_all add: tgo_def)
  show "tty_bytes (tt (tty_read_try 1 1 False s)) = [] \<or> canon_len (tt (tty_read_try 1 1 False s)) = CANON_BUF_SIZE"
    unfolding e using accumulate_end [OF inv(1,2)] nl by (simp add: tgo_def)
qed

lemma letters_room:
  assumes "tty_reach {1} m s" "delivered s = []" "accepted s = replicate n 65"
  shows "canon_len (tt s) + length (tty_bytes (tt s)) = n" "set (canon_line (tt s)) \<subseteq> {65}"
proof -
  have inv: "canon_ok (tt s)" "replicate n 65 = canon_line (tt s) @ tty_bytes (tt s)"
    using reach_inv [OF assms(1)] assms(2,3) by (simp_all add: tty_inv_def)
  from arg_cong [OF inv(2), of length] inv(1) show "canon_len (tt s) + length (tty_bytes (tt s)) = n"
    by (simp add: canon_line_def canon_ok_def)
  from arg_cong [OF inv(2), of set] show "set (canon_line (tt s)) \<subseteq> {65}" by (auto split: if_splits)
qed

lemma line_full_reached:
  assumes "tty_reach {1} canon_termios s" "tpoint s 1 = T_block 1" "delivered s = []" "accepted s = replicate 256 65"
    "tty_bytes (tt s) = [] \<or> canon_len (tt s) = CANON_BUF_SIZE"
  shows "line_full s"
proof -
  note inv = reach_inv [OF assms(1)] and room = letters_room [OF assms(1,3,4)]
  have "tpoint s x \<noteq> T_commit bs c" for x bs c using inv assms(2) by (cases "x = 1") (auto simp: tty_inv_def)
  moreover have "canonical (tt s)" using inv by (simp add: tty_inv_def canonical_def canon_termios_def ICANON_def)
  moreover have "canon_len (tt s) = CANON_BUF_SIZE" using assms(5) room(1) by (auto simp: CANON_BUF_SIZE_def)
  ultimately show ?thesis using inv room(2) by (auto simp: line_full_def tty_inv_def canon_ok_def)
qed

text \<open>A reader that has found no complete line and one more letter: it tries again.\<close>

lemma next_letter:
  assumes "tty_reach {1} canon_termios s" "tpoint s 1 = T_block 1" "delivered s = []" "accepted s = replicate 255 65" "tty_bytes (tt s) = []"
  obtains s' where "tty_reach {1} canon_termios s'" "tpoint s' 1 = T_try 1 False" "delivered s' = []" "accepted s' = replicate 256 65"
proof -
  have "accepted s @ replicate 1 65 = replicate 256 65" unfolding assms(4) replicate_add [symmetric] by simp
  with type_letters [OF assms(1), of 1] assms obtain s3 where s3: "tty_reach {1} canon_termios s3" "accepted s3 = replicate 256 65"
    "delivered s3 = []" "tpoint s3 1 = T_block 1" "canon_line (tt s3) = canon_line (tt s)" by auto
  have len: "canon_len (tt u) = length (canon_line (tt u))" if "tty_reach {1} canon_termios u" for u
    using reach_inv [OF that] by (simp add: tty_inv_def canon_ok_def canon_line_def)
  have "length (tty_bytes (tt s3)) = 1"
    using letters_room(1) [OF s3(1,3,2)] letters_room(1) [OF assms(1,3,4)] len [OF s3(1)] len [OF assms(1)] s3(5) assms(5) by simp
  then have "t_head (tt s3) \<noteq> t_tail (tt s3)" by (auto simp: tty_bytes_def ring_avail_def)
  then have e: "tty_read_block False 1 1 s3 = tgo 1 (T_try 1 False) s3" by (simp add: tty_read_block_def)
  have "tty_reach {1} canon_termios (tty_read_block False 1 1 s3)" by (rule tty_reach.later [OF s3(1) block [OF s3(4)]])
  with that [of "tgo 1 (T_try 1 False) s3"] s3 e show ?thesis by (simp add: tgo_def)
qed

text \<open>
  C38. A line of 256 characters makes the terminal deaf: in canonical mode a state can be reached in
  which the line buffer is full and holds no newline, and after that no read ever returns a byte,
  whatever is typed, newlines included.
\<close>

theorem tty_long_line:
  "\<exists>s. tty_reach {1} canon_termios s \<and> accepted s = replicate 256 65 \<and> tpoint s 1 = T_block 1 \<and> {delivered s' | s'. tty_runs {1} s s'} = {[]}"
proof -
  let ?s0 = "tty_read_start 1 1 False (tty_initial canon_termios)"
  have "tty_reach {1} canon_termios ?s0"
    by (rule tty_reach.later [OF tty_reach.start begin_read]) (simp_all add: tty_initial_def)
  moreover have "accepted ?s0 = []" "delivered ?s0 = []" "tpoint ?s0 1 = T_try 1 False" "tty_bytes (tt ?s0) = []"
    by (simp_all add: tty_read_start_def tty_initial_def tgo_def tty_alloc_def tty_bytes_def ring_list_def ring_avail_def TTY_BUF_SIZE_def)
  ultimately obtain s1 where s1: "tty_reach {1} canon_termios s1" "accepted s1 = replicate 255 65" "delivered s1 = []" "tpoint s1 1 = T_try 1 False"
    using type_letters [of ?s0 255] by auto
  note t2 = try_letters [OF s1(1,4,3,2)]
  have "tty_bytes (tt (tty_read_try 1 1 False s1)) = []"
    using t2(5) letters_room(1) [OF t2(1,3,4)] by (auto simp: CANON_BUF_SIZE_def)
  from next_letter [OF t2(1-4) this] obtain s3 where
    s3: "tty_reach {1} canon_termios s3" "tpoint s3 1 = T_try 1 False" "delivered s3 = []" "accepted s3 = replicate 256 65" .
  note t4 = try_letters [OF s3]
  have "delivered s' = []" if "tty_runs {1} (tty_read_try 1 1 False s3) s'" for s'
    using full_runs [OF that line_full_reached [OF t4]] t4(3) by simp
  then have "{delivered s' | s'. tty_runs {1} (tty_read_try 1 1 False s3) s'} = {[]}"
    using tty_runs.rest [of "{1}" "tty_read_try 1 1 False s3"] t4(3) by (auto intro: exI [of _ "tty_read_try 1 1 False s3"])
  with t4(1,2,4) show ?thesis by blast
qed

theorem tty_reader_exact_witness:
  "\<exists>s. tty_reach {1} canon_termios s \<and> accepted s = [65, 65] \<and> accepted s = delivered s @ canon_line (tt s) @ tty_bytes (tt s)"
proof -
  have "tty_reach {1} canon_termios (tty_initial canon_termios)" by (rule tty_reach.start)
  moreover have "accepted (tty_initial canon_termios) = []" "tty_bytes (tt (tty_initial canon_termios)) = []"
    by (simp_all add: tty_initial_def tty_alloc_def tty_bytes_def ring_list_def ring_avail_def TTY_BUF_SIZE_def)
  ultimately obtain s where s: "tty_reach {1} canon_termios s" "accepted s = [65, 65]"
    using type_letters [of "tty_initial canon_termios" 2] by (auto simp: numeral_2_eq_2)
  with tty_reader_exact [OF s(1)] show ?thesis by blast
qed

end
