(* ===== verification/Files.thy ===== *)
theory Files
  imports Pipe
begin

text \<open>
  Open files and descriptor tables, \<^verbatim>\<open>kernel/fs/file.c\<close>, and the limit on descriptors,
  \<^verbatim>\<open>kernel/sched/resource.c\<close>. An open file carries a count of references: one for every slot of a table
  that holds it and one for every running operation that uses it. The last release frees it, and the
  last end of a pipe frees the pipe.

  The state maps addresses to live objects; an access to an object that is not live is \<^term>\<open>None\<close>. The field
  \<open>held\<close> records the references that operations hold outside the tables. Of the clean-up in \<open>file_free\<close> the
  part for pipes is here; waking the other end is in \<^verbatim>\<open>Pipe_Steps\<close>.
\<close>

section \<open>Data\<close>

definition NOFILE :: nat where "NOFILE = 16"

definition O_RDONLY :: int where "O_RDONLY = 0"
definition O_WRONLY :: int where "O_WRONLY = 1"

datatype file_type = FD_NONE | FD_VFS | FD_PIPE | FD_DEV | FD_PTY_MASTER | FD_PTY_SLAVE | FD_SOCKET

record file_t =
  f_type :: file_type
  f_refs :: u32
  f_flags :: int
  f_pipe :: "nat option"

record files_t =
  fd :: "nat option list"
  fs_refs :: int

record fworld =
  file_at :: "nat \<Rightarrow> file_t option"
  pipe_at :: "nat \<Rightarrow> pipe option"
  tabs :: "files_t option list"
  held :: "nat \<Rightarrow> nat"

definition tab :: "nat \<Rightarrow> fworld \<Rightarrow> files_t option" where
  "tab t w = (if t < length (tabs w) then tabs w ! t else None)"

section \<open>Open files\<close>

definition new_file :: "file_type \<Rightarrow> int \<Rightarrow> nat option \<Rightarrow> nat \<Rightarrow> fworld \<Rightarrow> fworld" where
  "new_file ty flags p f w =
    w\<lparr>file_at := (file_at w)(f := Some \<lparr>f_type = ty, f_refs = 1, f_flags = flags, f_pipe = p\<rparr>), held := (held w)(f := held w f + 1)\<rparr>"

definition file_free :: "nat \<Rightarrow> fworld \<Rightarrow> fworld option" where
  "file_free f w =
    (case file_at w f of None \<Rightarrow> None
     | Some x \<Rightarrow>
       let w1 = w\<lparr>file_at := (file_at w)(f := None)\<rparr> in
       case (if f_type x = FD_PIPE then f_pipe x else None) of None \<Rightarrow> Some w1
       | Some p \<Rightarrow>
         map_option (\<lambda>q.
           let q1 = (if f_flags x = O_RDONLY then q\<lparr>readers := readers q - 1\<rparr> else q\<lparr>writers := writers q - 1\<rparr>) in
           w1\<lparr>pipe_at := (pipe_at w)(p := if readers q1 = 0 \<and> writers q1 = 0 then None else Some q1)\<rparr>) (pipe_at w p))"

definition file_get :: "nat \<Rightarrow> fworld \<Rightarrow> fworld option" where
  "file_get f w =
    map_option (\<lambda>x. w\<lparr>file_at := (file_at w)(f := Some (x\<lparr>f_refs := f_refs x + 1\<rparr>)), held := (held w)(f := held w f + 1)\<rparr>) (file_at w f)"

definition file_put :: "nat \<Rightarrow> fworld \<Rightarrow> fworld option" where
  "file_put f w =
    Option.bind (file_at w f) (\<lambda>x.
      let w1 = w\<lparr>file_at := (file_at w)(f := Some (x\<lparr>f_refs := f_refs x - 1\<rparr>)), held := (held w)(f := held w f - 1)\<rparr> in
      if f_refs x - 1 = 0 then file_free f w1 else Some w1)"

section \<open>Descriptor tables\<close>

definition set_tab :: "nat \<Rightarrow> files_t option \<Rightarrow> fworld \<Rightarrow> fworld" where
  "set_tab t x w = w\<lparr>tabs := (tabs w)[t := x]\<rparr>"

text \<open>Storing a reference in a slot hands it over to the slot; clearing a slot takes it back.\<close>

definition put_slot :: "nat \<Rightarrow> nat \<Rightarrow> nat \<Rightarrow> fworld \<Rightarrow> fworld option" where
  "put_slot t i f w =
    map_option (\<lambda>fs. set_tab t (Some (fs\<lparr>fd := (fd fs)[i := Some f]\<rparr>)) (w\<lparr>held := (held w)(f := held w f - 1)\<rparr>)) (tab t w)"

definition take_slot :: "nat \<Rightarrow> nat \<Rightarrow> fworld \<Rightarrow> (nat option \<times> fworld) option" where
  "take_slot t i w =
    map_option (\<lambda>fs. case fd fs ! i of None \<Rightarrow> (None, w)
      | Some f \<Rightarrow> (Some f, set_tab t (Some (fs\<lparr>fd := (fd fs)[i := None]\<rparr>)) (w\<lparr>held := (held w)(f := held w f + 1)\<rparr>))) (tab t w)"

definition free_slot :: "nat \<Rightarrow> nat \<Rightarrow> files_t \<Rightarrow> nat option" where
  "free_slot lo limit fs = List.find (\<lambda>i. fd fs ! i = None) [lo..<limit]"

definition fd_alloc_limit :: "nat option \<Rightarrow> nat option \<Rightarrow> nat \<Rightarrow> nat \<Rightarrow> fworld \<Rightarrow> ((errno + nat) \<times> fworld) option" where
  "fd_alloc_limit fs f lo limit w =
    (case fs of None \<Rightarrow> Some (Inl EMFILE, w)
     | Some t \<Rightarrow> case f of None \<Rightarrow> Some (Inl EINVAL, w)
       | Some a \<Rightarrow>
         Option.bind (tab t w) (\<lambda>x.
           case free_slot lo (if limit > NOFILE then NOFILE else limit) x of None \<Rightarrow> Some (Inl EMFILE, w)
           | Some i \<Rightarrow> map_option (Pair (Inr i)) (put_slot t i a w)))"

definition fd_alloc :: "nat option \<Rightarrow> nat option \<Rightarrow> u64 \<Rightarrow> fworld \<Rightarrow> ((errno + nat) \<times> fworld) option" where
  "fd_alloc fs f soft w = fd_alloc_limit fs f 0 (unat (ucast soft :: u32)) w"

definition bad_fd :: "int \<Rightarrow> bool" where
  "bad_fd n = (n < 0 \<or> n \<ge> int NOFILE)"

definition fd_close :: "nat option \<Rightarrow> int \<Rightarrow> fworld \<Rightarrow> fworld option" where
  "fd_close fs n w =
    (case fs of None \<Rightarrow> Some w
     | Some t \<Rightarrow> if bad_fd n then Some w
       else Option.bind (take_slot t (nat n) w) (\<lambda>(f, w1). case f of None \<Rightarrow> Some w1 | Some a \<Rightarrow> file_put a w1))"

definition files_get_file :: "nat option \<Rightarrow> int \<Rightarrow> fworld \<Rightarrow> (nat option \<times> fworld) option" where
  "files_get_file fs n w =
    (case fs of None \<Rightarrow> Some (None, w)
     | Some t \<Rightarrow> if bad_fd n then Some (None, w)
       else Option.bind (tab t w) (\<lambda>x.
         case fd x ! nat n of None \<Rightarrow> Some (None, w) | Some f \<Rightarrow> map_option (Pair (Some f)) (file_get f w)))"

definition soft_limit :: "u64 \<Rightarrow> nat" where
  "soft_limit soft = (if soft > of_nat NOFILE then NOFILE else unat (ucast soft :: u32))"

definition fd_dup_install :: "nat \<Rightarrow> nat \<Rightarrow> nat \<Rightarrow> nat \<Rightarrow> fworld \<Rightarrow> ((errno + nat) \<times> fworld) option" where
  "fd_dup_install t oldfd lo limit w =
    Option.bind (tab t w) (\<lambda>x.
      case fd x ! oldfd of None \<Rightarrow> Some (Inl EBADF, w)
      | Some f \<Rightarrow> case free_slot lo limit x of None \<Rightarrow> Some (Inl EMFILE, w)
        | Some i \<Rightarrow> map_option (Pair (Inr i)) (Option.bind (file_get f w) (put_slot t i f)))"

definition fd_dup :: "nat option \<Rightarrow> int \<Rightarrow> u64 \<Rightarrow> fworld \<Rightarrow> ((errno + nat) \<times> fworld) option" where
  "fd_dup fs oldfd soft w =
    (case fs of None \<Rightarrow> Some (Inl EBADF, w)
     | Some t \<Rightarrow> if bad_fd oldfd then Some (Inl EBADF, w) else fd_dup_install t (nat oldfd) 0 (soft_limit soft) w)"

definition fd_dupfd :: "nat option \<Rightarrow> int \<Rightarrow> int \<Rightarrow> u64 \<Rightarrow> fworld \<Rightarrow> ((errno + nat) \<times> fworld) option" where
  "fd_dupfd fs oldfd min_fd soft w =
    (if min_fd < 0 then Some (Inl EINVAL, w)
     else if nat min_fd \<ge> soft_limit soft then Some (Inl EINVAL, w)
     else case fs of None \<Rightarrow> Some (Inl EBADF, w)
       | Some t \<Rightarrow> if bad_fd oldfd then Some (Inl EBADF, w) else fd_dup_install t (nat oldfd) (nat min_fd) (soft_limit soft) w)"

definition fd_dup2 :: "nat option \<Rightarrow> int \<Rightarrow> int \<Rightarrow> u64 \<Rightarrow> fworld \<Rightarrow> ((errno + nat) \<times> fworld) option" where
  "fd_dup2 fs oldfd newfd soft w =
    (case fs of None \<Rightarrow> Some (Inl EBADF, w)
     | Some t \<Rightarrow> if bad_fd oldfd \<or> bad_fd newfd then Some (Inl EBADF, w)
       else Option.bind (tab t w) (\<lambda>x.
         if oldfd = newfd then Some (if fd x ! nat oldfd \<noteq> None then Inr (nat newfd) else Inl EBADF, w)
         else if of_int newfd \<ge> soft then Some (Inl EBADF, w)
         else case fd x ! nat oldfd of None \<Rightarrow> Some (Inl EBADF, w)
           | Some f \<Rightarrow>
             Option.bind (file_get f w) (\<lambda>w1. Option.bind (take_slot t (nat newfd) w1) (\<lambda>(old, w2).
               Option.bind (put_slot t (nat newfd) f w2) (\<lambda>w3.
                 map_option (Pair (Inr (nat newfd))) (case old of None \<Rightarrow> Some w3 | Some g \<Rightarrow> file_put g w3))))))"

section \<open>Whole tables\<close>

text \<open>\<open>memory\<close> says whether the allocations succeed; a new table gets the next number.\<close>

definition new_tab :: "fworld \<Rightarrow> fworld" where
  "new_tab w = w\<lparr>tabs := tabs w @ [Some \<lparr>fd = replicate NOFILE None, fs_refs = 1\<rparr>]\<rparr>"

definition files_alloc :: "bool \<Rightarrow> fworld \<Rightarrow> nat option \<times> fworld" where
  "files_alloc memory w = (if memory then (Some (length (tabs w)), new_tab w) else (None, w))"

fun dup_slots :: "nat \<Rightarrow> nat option list \<Rightarrow> nat \<Rightarrow> fworld \<Rightarrow> fworld option" where
  "dup_slots t [] i w = Some w"
| "dup_slots t (None # xs) i w = dup_slots t xs (i + 1) w"
| "dup_slots t (Some f # xs) i w = Option.bind (file_get f w) (\<lambda>w1. Option.bind (put_slot t i f w1) (dup_slots t xs (i + 1)))"

definition files_dup :: "bool \<Rightarrow> nat option \<Rightarrow> fworld \<Rightarrow> (nat option \<times> fworld) option" where
  "files_dup memory fs w =
    (case fs of None \<Rightarrow> Some (None, w)
     | Some t \<Rightarrow> if \<not> memory then Some (None, w)
       else Option.bind (tab t w) (\<lambda>x.
         map_option (Pair (Some (length (tabs w)))) (dup_slots (length (tabs w)) (fd x) 0 (new_tab w))))"

text \<open>No other task uses a table that is being freed, so clearing a slot before its file is released is the same as after it.\<close>

fun close_slots :: "nat \<Rightarrow> nat list \<Rightarrow> fworld \<Rightarrow> fworld option" where
  "close_slots t [] w = Some w"
| "close_slots t (i # is) w =
    Option.bind (take_slot t i w) (\<lambda>(f, w1).
      Option.bind (case f of None \<Rightarrow> Some w1 | Some a \<Rightarrow> file_put a w1) (close_slots t is))"

definition files_free :: "nat option \<Rightarrow> fworld \<Rightarrow> fworld option" where
  "files_free fs w = (case fs of None \<Rightarrow> Some w | Some t \<Rightarrow> map_option (set_tab t None) (close_slots t [0..<NOFILE] w))"

definition files_pin :: "nat option \<Rightarrow> fworld \<Rightarrow> fworld option" where
  "files_pin fs w =
    (case fs of None \<Rightarrow> Some w
     | Some t \<Rightarrow> map_option (\<lambda>x. set_tab t (Some (x\<lparr>fs_refs := fs_refs x + 1\<rparr>)) w) (tab t w))"

definition files_unpin :: "nat option \<Rightarrow> fworld \<Rightarrow> fworld option" where
  "files_unpin fs w =
    (case fs of None \<Rightarrow> Some w
     | Some t \<Rightarrow> Option.bind (tab t w) (\<lambda>x.
         let w1 = set_tab t (Some (x\<lparr>fs_refs := fs_refs x - 1\<rparr>)) w in
         if fs_refs x - 1 = 0 then files_free (Some t) w1 else Some w1))"

section \<open>Creating a pipe\<close>

definition pipe_free :: "nat \<Rightarrow> fworld \<Rightarrow> fworld" where
  "pipe_free p w = w\<lparr>pipe_at := (pipe_at w)(p := None)\<rparr>"

definition pipe_alloc :: "nat option \<Rightarrow> u8 list \<Rightarrow> fworld \<Rightarrow> fworld" where
  "pipe_alloc p buf w = (case p of None \<Rightarrow> w | Some a \<Rightarrow> w\<lparr>pipe_at := (pipe_at w)(a := Some (pipe_new buf))\<rparr>)"

text \<open>Undoing one half of the installation: a descriptor is closed, a file that got none is released.\<close>

definition undo_install :: "nat \<Rightarrow> nat \<Rightarrow> errno + nat \<Rightarrow> fworld \<Rightarrow> fworld option" where
  "undo_install t f r w = (case r of Inr n \<Rightarrow> fd_close (Some t) (int n) w | Inl _ \<Rightarrow> file_put f w)"

definition pipe_install :: "nat \<Rightarrow> nat \<Rightarrow> nat \<Rightarrow> u64 \<Rightarrow> errno option \<Rightarrow> fworld \<Rightarrow> ((errno + nat \<times> nat) \<times> fworld) option" where
  "pipe_install t rdf wrf soft fault w =
    Option.bind (fd_alloc_limit (Some t) (Some rdf) 0 (soft_limit soft) w) (\<lambda>(rfd, w1).
    Option.bind (fd_alloc_limit (Some t) (Some wrf) 0 (soft_limit soft) w1) (\<lambda>(wfd, w2).
      case (rfd, wfd) of (Inr r, Inr x) \<Rightarrow>
        (case fault of Some e \<Rightarrow> map_option (Pair (Inl e)) (Option.bind (fd_close (Some t) (int r) w2) (fd_close (Some t) (int x)))
         | None \<Rightarrow> Some (Inr (r, x), w2))
      | _ \<Rightarrow> map_option (Pair (Inl EMFILE)) (Option.bind (undo_install t rdf rfd w2) (undo_install t wrf wfd))))"

text \<open>
  \<open>p\<close>, \<open>rdf\<close> and \<open>wrf\<close> are the addresses that the allocations return, or NULL; \<open>fault\<close> is the error of the copy of the two
  descriptors to the user, if it fails.
\<close>

definition do_pipe :: "nat option \<Rightarrow> nat option \<Rightarrow> nat option \<Rightarrow> nat option \<Rightarrow> u8 list \<Rightarrow> u64 \<Rightarrow> errno option \<Rightarrow> fworld
    \<Rightarrow> ((errno + nat \<times> nat) \<times> fworld) option" where
  "do_pipe fs p rdf wrf buf soft fault w =
    (case (fs, p) of (None, _) \<Rightarrow> Some (Inl EMFILE, w)
     | (Some t, None) \<Rightarrow> Some (Inl ENOMEM, w)
     | (Some t, Some a) \<Rightarrow>
       let w1 = pipe_alloc p buf w in
       case rdf of None \<Rightarrow> Some (Inl ENOMEM, pipe_free a w1)
       | Some r \<Rightarrow>
         let w2 = new_file FD_PIPE O_RDONLY p r w1 in
         case wrf of None \<Rightarrow> map_option (\<lambda>w3. (Inl ENOMEM, pipe_free a (w3\<lparr>held := (held w3)(r := held w3 r - 1)\<rparr>))) (file_free r w2)
         | Some x \<Rightarrow> pipe_install t r x soft fault (new_file FD_PIPE O_WRONLY p x w2))"

section \<open>The limit on descriptors\<close>

record limits =
  nofile_soft :: u64
  nofile_hard :: u64

definition task_nofile_init :: limits where
  "task_nofile_init = \<lparr>nofile_soft = of_nat NOFILE, nofile_hard = of_nat NOFILE\<rparr>"

definition task_nofile_inherit :: "limits option \<Rightarrow> limits" where
  "task_nofile_inherit parent = (case parent of None \<Rightarrow> task_nofile_init | Some l \<Rightarrow> l)"

definition task_nofile_soft :: "limits option \<Rightarrow> u64" where
  "task_nofile_soft tsk = (case tsk of None \<Rightarrow> of_nat NOFILE | Some l \<Rightarrow> nofile_soft l)"

text \<open>\<open>new\<close> is the pair of the new soft and hard limit, or NULL; the second part of the answer is what the old limits are.\<close>

definition task_nofile_update :: "limits option \<Rightarrow> (u64 \<times> u64) option \<Rightarrow> (errno + unit) \<times> (u64 \<times> u64) option \<times> limits option" where
  "task_nofile_update tsk new =
    (case tsk of None \<Rightarrow> (Inl ESRCH, None, None)
     | Some l \<Rightarrow>
       let old = Some (nofile_soft l, nofile_hard l) in
       case new of None \<Rightarrow> (Inr (), old, tsk)
       | Some (cur, mx) \<Rightarrow>
         if cur > mx then (Inl EINVAL, old, tsk)
         else if mx > nofile_hard l then (Inl EPERM, old, tsk)
         else (Inr (), old, Some \<lparr>nofile_soft = cur, nofile_hard = mx\<rparr>))"

section \<open>Well-formed states\<close>

text \<open>
  The invariant: the count of a live file is the number of references to it, and at least one; a file
  that is not live has none. The counters of a pipe are the numbers of its live ends, and a pipe
  without ends is not live.
\<close>

definition count_in :: "nat \<Rightarrow> files_t option \<Rightarrow> nat" where
  "count_in f x = (case x of None \<Rightarrow> 0 | Some fs \<Rightarrow> count_list (fd fs) (Some f))"

definition slots :: "nat \<Rightarrow> fworld \<Rightarrow> nat" where
  "slots f w = sum_list (map (count_in f) (tabs w))"

definition refs_to :: "nat \<Rightarrow> fworld \<Rightarrow> nat" where
  "refs_to f w = slots f w + held w f"

definition refs_ok :: "fworld \<Rightarrow> bool" where
  "refs_ok w \<longleftrightarrow> (\<forall>f. case file_at w f of None \<Rightarrow> refs_to f w = 0 | Some x \<Rightarrow> unat (f_refs x) = refs_to f w \<and> 0 < refs_to f w)"

definition tabs_ok :: "fworld \<Rightarrow> bool" where
  "tabs_ok w \<longleftrightarrow> (\<forall>fs. Some fs \<in> set (tabs w) \<longrightarrow> length (fd fs) = NOFILE)"

definition is_end :: "nat \<Rightarrow> bool \<Rightarrow> file_t option \<Rightarrow> bool" where
  "is_end p rd x = (case x of None \<Rightarrow> False | Some y \<Rightarrow> f_type y = FD_PIPE \<and> f_pipe y = Some p \<and> (f_flags y = O_RDONLY) = rd)"

definition pipe_counts :: "nat \<Rightarrow> fworld \<Rightarrow> bool" where
  "pipe_counts p w \<longleftrightarrow> (case pipe_at w p of None \<Rightarrow> (\<forall>f rd. \<not> is_end p rd (file_at w f))
     | Some q \<Rightarrow> readers q = int (card {f. is_end p True (file_at w f)}) \<and> writers q = int (card {f. is_end p False (file_at w f)})
         \<and> (\<exists>f rd. is_end p rd (file_at w f)))"

definition files_ok :: "fworld \<Rightarrow> bool" where
  "files_ok w \<longleftrightarrow> refs_ok w \<and> tabs_ok w \<and> finite (dom (file_at w)) \<and> (\<forall>p. pipe_counts p w)"

section \<open>Taking and releasing a reference\<close>

lemma refs_okD:
  assumes "refs_ok w"
  shows "file_at w f = None \<Longrightarrow> refs_to f w = 0" "file_at w f = Some x \<Longrightarrow> unat (f_refs x) = refs_to f w \<and> 0 < refs_to f w"
  using assms unfolding refs_ok_def by (auto dest: spec [of _ f])

lemma refs_okI:
  "(\<And>f. file_at w f = None \<Longrightarrow> refs_to f w = 0) \<Longrightarrow> (\<And>f x. file_at w f = Some x \<Longrightarrow> unat (f_refs x) = refs_to f w \<and> 0 < refs_to f w) \<Longrightarrow> refs_ok w"
  by (simp add: refs_ok_def split: option.split)

lemma refs_live: "files_ok w \<Longrightarrow> 0 < refs_to f w \<Longrightarrow> \<exists>x. file_at w f = Some x \<and> unat (f_refs x) = refs_to f w"
  using refs_okD [of w f] by (cases "file_at w f") (simp_all add: files_ok_def)

lemma finite_ends: "finite (dom (file_at w)) \<Longrightarrow> finite {f. is_end p rd (file_at w f)}"
  by (erule finite_subset [rotated]) (auto simp: is_end_def split: option.splits)

lemma same_ends:
  assumes "\<And>f rd. is_end p rd (file_at w' f) = is_end p rd (file_at w f)" "pipe_at w' p = pipe_at w p" "pipe_counts p w"
  shows "pipe_counts p w'"
  using assms(3) unfolding pipe_counts_def assms(1,2) .

lemma get_ok:
  assumes "files_ok w" "file_at w f = Some x" "refs_to f w + 1 < 2 ^ 32"
  shows "\<exists>w'. file_get f w = Some w' \<and> files_ok w' \<and> tabs w' = tabs w \<and> held w' = (held w)(f := held w f + 1)"
proof -
  let ?w = "w\<lparr>file_at := (file_at w)(f := Some (x\<lparr>f_refs := f_refs x + 1\<rparr>)), held := (held w)(f := Suc (held w f))\<rparr>"
  have old: "refs_ok w" using assms(1) by (simp add: files_ok_def)
  have r: "refs_to g ?w = refs_to g w + (if g = f then 1 else 0)" for g by (simp add: refs_to_def slots_def)
  have "unat (f_refs x) = refs_to f w" using refs_okD(2) [OF old assms(2)] by simp
  then have "unat (f_refs x + 1) = refs_to f w + 1" using assms(3) by (subst unat_add_small) simp_all
  then have "refs_ok ?w" using refs_okD [OF old] assms(2) by (intro refs_okI) (auto simp: r split: if_splits)
  moreover have "pipe_counts p ?w" for p
    by (rule same_ends [of _ ?w w]) (use assms in \<open>auto simp: is_end_def files_ok_def split: option.split\<close>)
  ultimately have "files_ok ?w" using assms(1,2) by (auto simp: files_ok_def tabs_ok_def)
  with assms(2) show ?thesis by (simp add: file_get_def)
qed

text \<open>Removing an end of a pipe: the counters follow, and the pipe goes with its last end.\<close>

lemma free_end:
  assumes fin: "finite (dom (file_at w))" and pc: "\<And>p. pipe_counts p w" and x: "file_at w f = Some x"
  shows "\<exists>w'. file_free f w = Some w' \<and> (\<forall>p. pipe_counts p w') \<and> file_at w' = (file_at w)(f := None) \<and> tabs w' = tabs w \<and> held w' = held w"
proof (cases "if f_type x = FD_PIPE then f_pipe x else None")
  case None
  let ?w = "w\<lparr>file_at := (file_at w)(f := None)\<rparr>"
  have "pipe_counts p ?w" for p
    by (rule same_ends [of _ ?w w]) (use pc x None in \<open>auto simp: is_end_def split: if_splits option.split\<close>)
  with None x show ?thesis by (simp add: file_free_def Let_def)
next
  case (Some p)
  let ?rd = "f_flags x = O_RDONLY"
  have e: "is_end p' rd (file_at w f) \<longleftrightarrow> p' = p \<and> rd = ?rd" for p' rd using Some x by (auto simp: is_end_def split: if_splits)
  then have "pipe_at w p \<noteq> None" using pc [of p] unfolding pipe_counts_def by (cases "pipe_at w p") auto
  then obtain q where q0: "pipe_at w p = Some q" by blast
  with pc [of p] have q: "pipe_at w p = Some q" "readers q = int (card {f. is_end p True (file_at w f)})"
    "writers q = int (card {f. is_end p False (file_at w f)})" by (simp_all add: pipe_counts_def)
  define q' where "q' = (if ?rd then q\<lparr>readers := readers q - 1\<rparr> else q\<lparr>writers := writers q - 1\<rparr>)"
  define w' where "w' = w\<lparr>file_at := (file_at w)(f := None), pipe_at := (pipe_at w)(p := if readers q' = 0 \<and> writers q' = 0 then None else Some q')\<rparr>"
  have w': "file_at w' = (file_at w)(f := None)" "pipe_at w' = (pipe_at w)(p := if readers q' = 0 \<and> writers q' = 0 then None else Some q')"
    "tabs w' = tabs w" "held w' = held w" by (simp_all add: w'_def)
  have n: "\<not> is_end p' rd None" for p' rd by (simp add: is_end_def)
  have S: "{g. is_end p rd (file_at w' g)} = {g. is_end p rd (file_at w g)} - {f}" for rd unfolding w'(1) using n by auto
  have c: "card {g. is_end p rd (file_at w' g)} = card {g. is_end p rd (file_at w g)} - (if rd = ?rd then 1 else 0)" for rd
    unfolding S using e [of p rd] by (cases "rd = ?rd") (simp_all add: finite_ends [OF fin])
  have pos: "0 < card {g. is_end p ?rd (file_at w g)}" using e [of p ?rd] finite_ends [OF fin, of p ?rd] by (auto simp: card_gt_0_iff)
  have cnt: "readers q' = int (card {g. is_end p True (file_at w' g)})" "writers q' = int (card {g. is_end p False (file_at w' g)})"
    unfolding c q'_def using q(2,3) pos by auto
  have "pipe_counts p w'"
  proof (cases "readers q' = 0 \<and> writers q' = 0")
    case True
    then have "{g. is_end p rd (file_at w' g)} = {}" for rd
      using cnt finite_ends [OF fin, of p rd] unfolding S by (cases rd) simp_all
    then show ?thesis using True by (auto simp: pipe_counts_def w'(2))
  next
    case False
    then have "pipe_at w' p = Some q'" by (simp add: w'(2))
    moreover from False have "card {g. is_end p True (file_at w' g)} \<noteq> 0 \<or> card {g. is_end p False (file_at w' g)} \<noteq> 0" using cnt by simp
    then obtain rd where "card {g. is_end p rd (file_at w' g)} \<noteq> 0" by blast
    then have "{g. is_end p rd (file_at w' g)} \<noteq> {}" by (intro notI) simp
    then have "\<exists>g rd. is_end p rd (file_at w' g)" by blast
    ultimately show ?thesis using cnt by (simp add: pipe_counts_def)
  qed
  moreover have "pipe_counts p' w'" if "p' \<noteq> p" for p'
  proof -
    have "is_end p' rd (file_at w' g) = is_end p' rd (file_at w g)" for g rd using e [of p' rd] that n unfolding w'(1) by (cases "g = f") simp_all
    moreover have "pipe_at w' p' = pipe_at w p'" using that by (simp add: w'(2))
    ultimately show ?thesis by (rule same_ends [OF _ _ pc])
  qed
  ultimately have "pipe_counts p' w'" for p' by (cases "p' = p") simp_all
  moreover have "file_free f w = Some w'" using Some x q(1) by (simp add: file_free_def Let_def w'_def q'_def)
  ultimately show ?thesis using w' by blast
qed

lemma put_ok:
  assumes ok: "files_ok w" and h: "0 < held w f"
  shows "\<exists>w'. file_put f w = Some w' \<and> files_ok w' \<and> tabs w' = tabs w \<and> held w' = (held w)(f := held w f - 1)"
proof -
  from h have "0 < refs_to f w" by (simp add: refs_to_def)
  with refs_live [OF ok] obtain x where x: "file_at w f = Some x" "unat (f_refs x) = refs_to f w" by blast
  let ?w = "w\<lparr>file_at := (file_at w)(f := Some (x\<lparr>f_refs := f_refs x - 1\<rparr>)), held := (held w)(f := held w f - 1)\<rparr>"
  have u: "unat (f_refs x - 1) = refs_to f w - 1" using x(2) \<open>0 < refs_to f w\<close> by (subst unat_minus_1) auto
  have r: "refs_to g ?w = refs_to g w - (if g = f then 1 else 0)" for g using h by (auto simp: refs_to_def slots_def)
  have pc: "pipe_counts p ?w" for p
    by (rule same_ends [of _ ?w w]) (use ok x in \<open>auto simp: is_end_def files_ok_def split: option.split\<close>)
  have fin: "finite (dom (file_at ?w))" using ok x by (simp add: files_ok_def)
  have t: "tabs_ok w" and old: "refs_ok w" using ok by (simp_all add: files_ok_def)
  show ?thesis
  proof (cases "f_refs x - 1 = 0")
    case True
    then have "refs_to f ?w = 0" using u r [of f] by simp
    from free_end [OF fin pc, of f] obtain w' where w': "file_free f ?w = Some w'" "\<forall>p. pipe_counts p w'"
      "file_at w' = (file_at ?w)(f := None)" "tabs w' = tabs ?w" "held w' = held ?w" by auto
    then have r': "refs_to g w' = refs_to g ?w" for g by (simp add: refs_to_def slots_def)
    have "refs_ok w'" using refs_okD [OF old] \<open>refs_to f ?w = 0\<close> w'(3) r by (intro refs_okI) (auto simp: r' split: if_splits)
    with w' t fin have "files_ok w'" by (simp add: files_ok_def tabs_ok_def)
    with w' x True show ?thesis by (simp add: file_put_def Let_def)
  next
    case False
    then have "unat (f_refs x - 1) \<noteq> 0" by (simp add: unat_eq_zero)
    then have "0 < refs_to f ?w" using u r [of f] by simp
    then have "refs_ok ?w" using refs_okD [OF old] u r x(1) by (intro refs_okI) (auto split: if_splits)
    with pc fin t have "files_ok ?w" by (simp add: files_ok_def tabs_ok_def)
    with x False show ?thesis by (simp add: file_put_def Let_def)
  qed
qed

section \<open>Slots\<close>

lemma count_list_update:
  "i < length xs \<Longrightarrow> count_list (xs[i := y]) v + (if xs ! i = v then 1 else 0) = count_list xs v + (if y = v then 1 else 0)"
proof (induction xs arbitrary: i)
  case (Cons a xs)
  then show ?case
  proof (cases i)
    case (Suc j)
    with Cons.prems Cons.IH [of j] show ?thesis by (cases "a = v") simp_all
  qed auto
qed simp

lemma slots_set_tab:
  assumes "tab t w = Some x" "i < length (fd x)"
  shows "slots f (set_tab t (Some (x\<lparr>fd := (fd x)[i := y]\<rparr>)) w) + (if fd x ! i = Some f then 1 else 0) = slots f w + (if y = Some f then 1 else 0)"
proof -
  from assms(1) have t: "t < length (tabs w)" "tabs w ! t = Some x" by (auto simp: tab_def split: if_splits)
  have "count_in f (Some x) \<le> sum_list (map (count_in f) (tabs w))" using t by (metis elem_le_sum_list length_map nth_map)
  with t count_list_update [OF assms(2), of y "Some f"] show ?thesis
    by (auto simp: slots_def set_tab_def map_update sum_list_update count_in_def split: if_splits)
qed

lemma tab_set_tab: "t < length (tabs w) \<Longrightarrow> tab t' (set_tab t x w) = (if t' = t then x else tab t' w)"
  by (simp add: tab_def set_tab_def)

lemma tab_cong: "tabs w' = tabs w \<Longrightarrow> tab t w' = tab t w"
  by (simp add: tab_def)

lemma tab_len: "tab t w = Some x \<Longrightarrow> t < length (tabs w)"
  by (simp add: tab_def split: if_splits)

lemma tab_size: "files_ok w \<Longrightarrow> tab t w = Some x \<Longrightarrow> length (fd x) = NOFILE"
  unfolding files_ok_def tabs_ok_def tab_def by (metis nth_mem option.distinct(1))

lemma tabs_ok_set: "tabs_ok w \<Longrightarrow> (\<And>fs. x = Some fs \<Longrightarrow> length (fd fs) = NOFILE) \<Longrightarrow> tabs_ok (set_tab t x w)"
  unfolding tabs_ok_def set_tab_def using set_update_subset_insert [of "tabs w" t x] by auto

text \<open>A reference that moves between a slot and an operation changes no count.\<close>

lemma moved_ok:
  assumes "files_ok w" "file_at w' = file_at w" "pipe_at w' = pipe_at w" "tabs_ok w'" "\<And>f. refs_to f w' = refs_to f w"
  shows "files_ok w'"
  using assms(1,4) unfolding files_ok_def refs_ok_def pipe_counts_def assms(2,3,5) by simp

lemma put_slot_ok:
  assumes "files_ok w" "tab t w = Some x" "i < NOFILE" "fd x ! i = None" "0 < held w f"
  shows "\<exists>w'. put_slot t i f w = Some w' \<and> files_ok w' \<and> held w' = (held w)(f := held w f - 1) \<and> file_at w' = file_at w
    \<and> tab t w' = Some (x\<lparr>fd := (fd x)[i := Some f]\<rparr>) \<and> length (tabs w') = length (tabs w) \<and> (\<forall>t'. t' \<noteq> t \<longrightarrow> tab t' w' = tab t' w)
    \<and> (\<forall>g. refs_to g w' = refs_to g w)"
proof -
  let ?u = "w\<lparr>held := (held w)(f := held w f - 1)\<rparr>" and ?x = "x\<lparr>fd := (fd x)[i := Some f]\<rparr>"
  let ?w = "set_tab t (Some ?x) ?u"
  have l: "length (fd x) = NOFILE" "t < length (tabs w)" using tab_size [OF assms(1,2)] tab_len [OF assms(2)] by simp_all
  have "slots g ?w = slots g w + (if g = f then 1 else 0)" for g
    using slots_set_tab [of t ?u x i g "Some f"] assms l by (cases "g = f") (simp_all add: tab_def slots_def)
  then have r: "refs_to g ?w = refs_to g w" for g using assms(5) by (simp add: refs_to_def set_tab_def)
  have "tabs_ok ?u" using assms(1) by (simp add: files_ok_def tabs_ok_def)
  then have "tabs_ok ?w" by (rule tabs_ok_set) (use l in simp)
  with r have "files_ok ?w" by (intro moved_ok [OF assms(1)]) (simp_all add: set_tab_def)
  moreover have "put_slot t i f w = Some ?w" using assms(2) by (simp add: put_slot_def)
  moreover have "tab t' ?w = (if t' = t then Some ?x else tab t' w)" for t' using l(2) by (simp add: tab_set_tab) (simp add: tab_def)
  ultimately show ?thesis using r by (auto simp: set_tab_def)
qed

lemma take_slot_ok:
  assumes "files_ok w" "tab t w = Some x" "i < NOFILE" "fd x ! i = Some f"
  shows "\<exists>w'. take_slot t i w = Some (Some f, w') \<and> files_ok w' \<and> held w' = (held w)(f := held w f + 1) \<and> file_at w' = file_at w
    \<and> tab t w' = Some (x\<lparr>fd := (fd x)[i := None]\<rparr>)"
proof -
  let ?u = "w\<lparr>held := (held w)(f := Suc (held w f))\<rparr>" and ?x = "x\<lparr>fd := (fd x)[i := None]\<rparr>"
  let ?w = "set_tab t (Some ?x) ?u"
  have l: "length (fd x) = NOFILE" "t < length (tabs w)" using tab_size [OF assms(1,2)] tab_len [OF assms(2)] by simp_all
  have "slots g ?w + (if g = f then 1 else 0) = slots g w" for g
    using slots_set_tab [of t ?u x i g None] assms l by (cases "g = f") (simp_all add: tab_def slots_def)
  moreover have "held ?w g = held w g + (if g = f then 1 else 0)" for g by (simp add: set_tab_def)
  ultimately have r: "refs_to g ?w = refs_to g w" for g unfolding refs_to_def by (metis add.assoc add.commute)
  have "tabs_ok ?u" using assms(1) by (simp add: files_ok_def tabs_ok_def)
  then have "tabs_ok ?w" by (rule tabs_ok_set) (use l in simp)
  with r have "files_ok ?w" by (intro moved_ok [OF assms(1)]) (simp_all add: set_tab_def)
  moreover have "take_slot t i w = Some (Some f, ?w)" using assms(2,4) by (simp add: take_slot_def)
  moreover have "tab t ?w = Some ?x" using l(2) by (simp add: tab_set_tab)
  ultimately show ?thesis by (simp add: set_tab_def)
qed

lemma slot_live:
  assumes "files_ok w" "tab t w = Some x" "i < NOFILE" "fd x ! i = Some f"
  shows "\<exists>y. file_at w f = Some y" "0 < slots f w"
proof -
  have l: "length (fd x) = NOFILE" "t < length (tabs w)" "tabs w ! t = Some x"
    using tab_size [OF assms(1,2)] tab_len [OF assms(2)] assms(2) by (simp_all add: tab_def)
  have "Some f \<in> set (fd x)" using assms(3,4) l(1) by (metis nth_mem)
  then have "0 < count_in f (Some x)" using count_list_0_iff [of "fd x" "Some f"] by (simp add: count_in_def)
  also have "\<dots> \<le> slots f w" unfolding slots_def using l by (metis elem_le_sum_list length_map nth_map)
  finally show "0 < slots f w" .
  then show "\<exists>y. file_at w f = Some y" using refs_live [OF assms(1), of f] by (auto simp: refs_to_def)
qed

section \<open>The operations\<close>

text \<open>A slot found free is free and in range.\<close>

lemma free_slot_Some: "free_slot lo limit x = Some i \<Longrightarrow> fd x ! i = None \<and> lo \<le> i \<and> i < limit"
  unfolding free_slot_def by (auto simp: find_Some_iff nth_append)

lemma soft_limit_le: "soft_limit soft \<le> NOFILE"
proof (cases "soft > of_nat NOFILE")
  case False
  then have "unat soft \<le> 16" by (simp add: NOFILE_def word_less_nat_alt)
  moreover have "unat (ucast soft :: u32) \<le> unat soft" by (simp add: unsigned_ucast_eq take_bit_nat_less_eq_self)
  ultimately show ?thesis using False by (simp add: soft_limit_def NOFILE_def)
qed (simp add: soft_limit_def)

lemma good_fd: "\<not> bad_fd n \<Longrightarrow> nat n < NOFILE"
  by (simp add: bad_fd_def nat_less_iff)

lemma close_ok:
  assumes "files_ok w" "tab t w = Some x"
  shows "\<exists>w'. fd_close (Some t) n w = Some w' \<and> files_ok w' \<and> held w' = held w \<and> (\<exists>x'. tab t w' = Some x')"
proof (cases "bad_fd n \<or> fd x ! nat n = None")
  case True
  with assms show ?thesis by (auto simp: fd_close_def take_slot_def)
next
  case False
  then obtain f where "\<not> bad_fd n" "fd x ! nat n = Some f" by auto
  moreover from this have "nat n < NOFILE" by (simp add: good_fd)
  ultimately obtain w1 where w1: "take_slot t (nat n) w = Some (Some f, w1)" "files_ok w1" "held w1 = (held w)(f := held w f + 1)"
    "\<exists>x'. tab t w1 = Some x'" using take_slot_ok [OF assms] by blast
  with put_ok [OF w1(2), of f] obtain w2 where "file_put f w1 = Some w2" "files_ok w2" "held w2 = held w" "tabs w2 = tabs w1" by auto
  with w1(1,4) tab_cong [of w2 w1 t] \<open>\<not> bad_fd n\<close> show ?thesis by (simp add: fd_close_def)
qed

lemma get_file_ok:
  assumes "files_ok w" "tab t w = Some x" "\<And>f. refs_to f w + 1 < 2 ^ 32"
  shows "\<exists>r w'. files_get_file (Some t) n w = Some (r, w') \<and> files_ok w' \<and> held w' = (case r of None \<Rightarrow> held w | Some f \<Rightarrow> (held w)(f := held w f + 1))"
proof (cases "bad_fd n \<or> fd x ! nat n = None")
  case True
  with assms show ?thesis by (auto simp: files_get_file_def)
next
  case False
  then obtain f where f: "\<not> bad_fd n" "fd x ! nat n = Some f" by auto
  then have "nat n < NOFILE" by (simp add: good_fd)
  from slot_live(1) [OF assms(1,2) this f(2)] obtain y where "file_at w f = Some y" by blast
  from get_ok [OF assms(1) this assms(3)] f assms(2) show ?thesis by (auto simp: files_get_file_def)
qed

lemma alloc_limit_ok:
  assumes "files_ok w" "tab t w = Some x" "0 < held w f"
  shows "\<exists>r w'. fd_alloc_limit (Some t) (Some f) lo limit w = Some (r, w') \<and> files_ok w' \<and> (\<exists>x'. tab t w' = Some x')
    \<and> (case r of Inl _ \<Rightarrow> w' = w | Inr i \<Rightarrow> held w' = (held w)(f := held w f - 1) \<and> i < NOFILE)"
proof (cases "free_slot lo (if limit > NOFILE then NOFILE else limit) x")
  case None
  with assms show ?thesis by (simp add: fd_alloc_limit_def)
next
  case (Some i)
  from free_slot_Some [OF this] have i: "i < NOFILE" "fd x ! i = None" by (auto split: if_splits)
  from put_slot_ok [OF assms(1,2) i assms(3)] Some assms(2) i show ?thesis by (auto simp: fd_alloc_limit_def)
qed

lemma dup_install_ok:
  assumes "files_ok w" "tab t w = Some x" "oldfd < NOFILE" "limit \<le> NOFILE" "\<And>f. refs_to f w + 1 < 2 ^ 32"
  shows "\<exists>r w'. fd_dup_install t oldfd lo limit w = Some (r, w') \<and> files_ok w' \<and> held w' = held w"
proof (cases "fd x ! oldfd = None \<or> free_slot lo limit x = None")
  case True
  with assms show ?thesis by (auto simp: fd_dup_install_def split: option.split)
next
  case False
  then obtain f i where fi: "fd x ! oldfd = Some f" "free_slot lo limit x = Some i" by auto
  from free_slot_Some [OF fi(2)] assms(4) have i: "i < NOFILE" "fd x ! i = None" by auto
  from slot_live(1) [OF assms(1-3) fi(1)] obtain y where "file_at w f = Some y" by blast
  from get_ok [OF assms(1) this assms(5)] obtain w1 where w1: "file_get f w = Some w1" "files_ok w1" "tabs w1 = tabs w"
    "held w1 = (held w)(f := held w f + 1)" by blast
  have "tab t w1 = Some x" using assms(2) tab_cong [OF w1(3)] by simp
  from put_slot_ok [OF w1(2) this i, of f] w1(4) obtain w2 where "put_slot t i f w1 = Some w2" "files_ok w2" "held w2 = held w" by auto
  with w1(1) fi assms(2) show ?thesis by (simp add: fd_dup_install_def)
qed

lemma dup2_ok:
  assumes "files_ok w" "tab t w = Some x" "\<And>f. refs_to f w + 1 < 2 ^ 32"
  shows "\<exists>r w'. fd_dup2 (Some t) oldfd newfd soft w = Some (r, w') \<and> files_ok w' \<and> held w' = held w"
proof (cases "bad_fd oldfd \<or> bad_fd newfd \<or> oldfd = newfd \<or> of_int newfd \<ge> soft \<or> fd x ! nat oldfd = None")
  case True
  with assms(1,2) show ?thesis by (auto simp: fd_dup2_def)
next
  case False
  then obtain f where f: "fd x ! nat oldfd = Some f" and n: "nat oldfd < NOFILE" "nat newfd < NOFILE" by (auto dest!: good_fd)
  from slot_live(1) [OF assms(1,2) n(1) f] obtain y where "file_at w f = Some y" by blast
  from get_ok [OF assms(1) this assms(3)] obtain w1 where w1: "file_get f w = Some w1" "files_ok w1" "tabs w1 = tabs w"
    "held w1 = (held w)(f := held w f + 1)" by blast
  have t1: "tab t w1 = Some x" using assms(2) tab_cong [OF w1(3)] by simp
  have len: "length (fd x) = NOFILE" by (rule tab_size [OF assms(1,2)])
  show ?thesis
  proof (cases "fd x ! nat newfd")
    case None
    from put_slot_ok [OF w1(2) t1 n(2) None, of f] w1(4) obtain w3 where "put_slot t (nat newfd) f w1 = Some w3" "files_ok w3" "held w3 = held w"
      by auto
    with False f w1(1) t1 None assms(2) show ?thesis by (simp add: fd_dup2_def take_slot_def)
  next
    case (Some g)
    from take_slot_ok [OF w1(2) t1 n(2) Some] obtain w2 where w2: "take_slot t (nat newfd) w1 = Some (Some g, w2)" "files_ok w2"
      "held w2 = (held w1)(g := held w1 g + 1)" "tab t w2 = Some (x\<lparr>fd := (fd x)[nat newfd := None]\<rparr>)" by blast
    have "fd (x\<lparr>fd := (fd x)[nat newfd := None]\<rparr>) ! nat newfd = None" using n(2) len by simp
    moreover have "0 < held w2 f" by (simp add: w2(3) w1(4))
    ultimately obtain w3 where w3: "put_slot t (nat newfd) f w2 = Some w3" "files_ok w3" "held w3 = (held w2)(f := held w2 f - 1)"
      using put_slot_ok [OF w2(2,4) n(2)] by blast
    have "held w3 = (held w)(g := held w g + 1)" by (rule ext) (simp add: w3(3) w2(3) w1(4))
    with put_ok [OF w3(2), of g] obtain w4 where "file_put g w3 = Some w4" "files_ok w4" "held w4 = held w" by auto
    with False f w1(1) w2(1) w3(1) assms(2) show ?thesis by (simp add: fd_dup2_def)
  qed
qed

lemma new_tab_ok:
  assumes "files_ok w"
  shows "files_ok (new_tab w)" "tab (length (tabs w)) (new_tab w) = Some \<lparr>fd = replicate NOFILE None, fs_refs = 1\<rparr>"
    "refs_to f (new_tab w) = refs_to f w" "file_at (new_tab w) = file_at w" "held (new_tab w) = held w"
proof -
  show r: "refs_to f (new_tab w) = refs_to f w" for f
    by (simp add: refs_to_def slots_def new_tab_def count_in_def count_list_0_iff)
  show "files_ok (new_tab w)"
    by (rule moved_ok [OF assms _ _ _ r]) (use assms in \<open>auto simp: new_tab_def files_ok_def tabs_ok_def\<close>)
qed (simp_all add: new_tab_def tab_def)

lemma dup_slots_ok:
  "files_ok w \<Longrightarrow> tab t w = Some x \<Longrightarrow> i + length xs = NOFILE \<Longrightarrow> (\<And>j. i \<le> j \<Longrightarrow> j < NOFILE \<Longrightarrow> fd x ! j = None) \<Longrightarrow>
   (\<And>f. Some f \<in> set xs \<Longrightarrow> \<exists>y. file_at w f = Some y) \<Longrightarrow> (\<And>f. refs_to f w + length xs < 2 ^ 32) \<Longrightarrow>
   \<exists>w'. dup_slots t xs i w = Some w' \<and> files_ok w' \<and> held w' = held w"
proof (induction t xs i w arbitrary: x rule: dup_slots.induct)
  case (1 t i w)
  then show ?case by simp
next
  case (2 t xs i w)
  have "refs_to f w + length xs < 2 ^ 32" for f using 2(7) [of f] by simp
  from 2(1) [OF 2(2,3) _ _ _ this] 2(4-6) show ?case by simp
next
  case (3 t f xs i w)
  have "refs_to f w + 1 < 2 ^ 32" using 3(7) [of f] by simp
  moreover obtain y where "file_at w f = Some y" using 3(6) [of f] by auto
  ultimately obtain w1 where w1: "file_get f w = Some w1" "files_ok w1" "tabs w1 = tabs w" "held w1 = (held w)(f := held w f + 1)"
    using get_ok [OF 3(2)] by blast
  have n: "i < NOFILE" "fd x ! i = None" using 3(4) 3(5) [of i] by simp_all
  have "tab t w1 = Some x" using 3(3) tab_cong [OF w1(3)] by simp
  from put_slot_ok [OF w1(2) this n, of f] w1(4) obtain w2 where w2: "put_slot t i f w1 = Some w2" "files_ok w2" "held w2 = held w"
    "file_at w2 = file_at w1" "tab t w2 = Some (x\<lparr>fd := (fd x)[i := Some f]\<rparr>)" "\<And>g. refs_to g w2 = refs_to g w1" by auto
  have live: "\<exists>y. file_at w2 g = Some y" if "Some g \<in> set xs" for g
    using 3(6) [of g] that w1(1) w2(4) by (auto simp: file_get_def)
  have room: "refs_to g w2 + length xs < 2 ^ 32" for g
    using 3(7) [of g] w1(3,4) w2(6) [of g] by (simp add: refs_to_def slots_def split: if_splits)
  have "\<exists>w'. dup_slots t xs (i + 1) w2 = Some w' \<and> files_ok w' \<and> held w' = held w2"
    by (rule 3(1) [OF w1(1) w2(1,2,5) _ _ live room]) (use 3(4,5) n in \<open>auto simp: nth_list_update\<close>)
  with w1(1) w2(1,3) show ?case by simp
qed

lemma files_dup_ok:
  assumes "files_ok w" "tab t w = Some x" "\<And>f. refs_to f w + NOFILE < 2 ^ 32"
  shows "\<exists>r w'. files_dup memory (Some t) w = Some (r, w') \<and> files_ok w' \<and> held w' = held w"
proof (cases memory)
  case True
  note n = new_tab_ok [OF assms(1)] and len = tab_size [OF assms(1,2)]
  have "\<exists>w'. dup_slots (length (tabs w)) (fd x) 0 (new_tab w) = Some w' \<and> files_ok w' \<and> held w' = held (new_tab w)"
  proof (rule dup_slots_ok [OF n(1,2)])
    show "\<exists>y. file_at (new_tab w) f = Some y" if "Some f \<in> set (fd x)" for f
      using that slot_live(1) [OF assms(1,2)] len unfolding n(4) by (metis in_set_conv_nth)
  qed (use len assms(3) n(3) in simp_all)
  with True assms(2) n(5) show ?thesis by (auto simp: files_dup_def)
qed (simp add: files_dup_def assms(1))

lemma close_slots_ok:
  "files_ok w \<Longrightarrow> tab t w = Some x \<Longrightarrow> \<forall>i \<in> set is. i < NOFILE \<Longrightarrow>
   \<exists>w' x'. close_slots t is w = Some w' \<and> files_ok w' \<and> held w' = held w \<and> tab t w' = Some x'
     \<and> (\<forall>j. fd x' ! j = (if j \<in> set is \<and> j < NOFILE then None else fd x ! j))"
proof (induction "is" arbitrary: w x)
  case (Cons i "is")
  have i: "i < NOFILE" "length (fd x) = NOFILE" using Cons.prems tab_size by auto
  have "\<exists>w2 x2. Option.bind (take_slot t i w) (\<lambda>(f, w1). case f of None \<Rightarrow> Some w1 | Some a \<Rightarrow> file_put a w1) = Some w2
      \<and> files_ok w2 \<and> held w2 = held w \<and> tab t w2 = Some x2 \<and> fd x2 = (fd x)[i := None]"
  proof (cases "fd x ! i")
    case None
    then have "(fd x)[i := None] = fd x" by (metis list_update_id)
    with None Cons.prems show ?thesis by (simp add: take_slot_def)
  next
    case (Some f)
    from take_slot_ok [OF Cons.prems(1,2) i(1) Some] obtain w1 where w1: "take_slot t i w = Some (Some f, w1)" "files_ok w1"
      "held w1 = (held w)(f := held w f + 1)" "tab t w1 = Some (x\<lparr>fd := (fd x)[i := None]\<rparr>)" by blast
    from put_ok [OF w1(2), of f] w1(3) obtain w2 where "file_put f w1 = Some w2" "files_ok w2" "held w2 = held w" "tabs w2 = tabs w1" by auto
    with w1(1,4) tab_cong [of w2 w1 t] show ?thesis by simp
  qed
  then obtain w2 x2 where w2: "Option.bind (take_slot t i w) (\<lambda>(f, w1). case f of None \<Rightarrow> Some w1 | Some a \<Rightarrow> file_put a w1) = Some w2"
    "files_ok w2" "held w2 = held w" "tab t w2 = Some x2" "fd x2 = (fd x)[i := None]" by blast
  have "close_slots t (i # is) w = close_slots t is w2" using w2(1) by (cases "take_slot t i w") (auto split: option.splits)
  with Cons.IH [OF w2(2,4)] Cons.prems(3) w2(3,5) i show ?case by (auto simp: nth_list_update)
qed simp

lemma files_free_ok:
  assumes "files_ok w" "tab t w = Some x"
  shows "\<exists>w'. files_free (Some t) w = Some w' \<and> files_ok w' \<and> held w' = held w"
proof -
  from close_slots_ok [OF assms, of "[0..<NOFILE]"] obtain w1 x1 where w1: "close_slots t [0..<NOFILE] w = Some w1" "files_ok w1" "held w1 = held w"
    "tab t w1 = Some x1" "\<And>j. j < NOFILE \<Longrightarrow> fd x1 ! j = None" by auto
  have t: "t < length (tabs w1)" "tabs w1 ! t = Some x1" using tab_len [OF w1(4)] w1(4) by (simp_all add: tab_def)
  have "count_in f (Some x1) = 0" for f
    using w1(5) tab_size [OF w1(2,4)] by (auto simp: count_in_def count_list_0_iff in_set_conv_nth)
  then have "refs_to f (set_tab t None w1) = refs_to f w1" for f
    using t by (simp add: refs_to_def slots_def set_tab_def map_update sum_list_update count_in_def)
  then have "files_ok (set_tab t None w1)"
    by (intro moved_ok [OF w1(2)] tabs_ok_set) (use w1(2) in \<open>simp_all add: set_tab_def files_ok_def\<close>)
  with w1(1,3) show ?thesis by (simp add: files_free_def) (simp add: set_tab_def)
qed

lemma set_refs_ok:
  assumes "files_ok w" "tab t w = Some x"
  shows "files_ok (set_tab t (Some (x\<lparr>fs_refs := k\<rparr>)) w)" "tab t (set_tab t (Some (x\<lparr>fs_refs := k\<rparr>)) w) = Some (x\<lparr>fs_refs := k\<rparr>)"
proof -
  have t: "t < length (tabs w)" "tabs w ! t = Some x" using tab_len [OF assms(2)] assms(2) by (simp_all add: tab_def)
  then have "map (count_in f) (tabs w) = map (count_in f) ((tabs w)[t := Some (x\<lparr>fs_refs := k\<rparr>)])" for f
    by (intro nth_equalityI) (auto simp: nth_list_update count_in_def)
  then have "refs_to f (set_tab t (Some (x\<lparr>fs_refs := k\<rparr>)) w) = refs_to f w" for f by (simp add: refs_to_def slots_def set_tab_def)
  then show "files_ok (set_tab t (Some (x\<lparr>fs_refs := k\<rparr>)) w)"
    by (intro moved_ok [OF assms(1)] tabs_ok_set) (use assms tab_size in \<open>auto simp: set_tab_def files_ok_def\<close>)
  show "tab t (set_tab t (Some (x\<lparr>fs_refs := k\<rparr>)) w) = Some (x\<lparr>fs_refs := k\<rparr>)" using t(1) by (simp add: tab_set_tab)
qed

lemma unpin_ok:
  assumes "files_ok w" "tab t w = Some x"
  shows "\<exists>w'. files_unpin (Some t) w = Some w' \<and> files_ok w' \<and> held w' = held w"
  using files_free_ok [OF set_refs_ok [OF assms]] set_refs_ok(1) [OF assms] assms(2)
  by (auto simp: files_unpin_def Let_def) (auto simp: set_tab_def)

section \<open>Creating a pipe, and undoing it\<close>

definition new_ends :: "nat \<Rightarrow> nat \<Rightarrow> nat \<Rightarrow> u8 list \<Rightarrow> fworld \<Rightarrow> fworld" where
  "new_ends a r x buf w = new_file FD_PIPE O_WRONLY (Some a) x (new_file FD_PIPE O_RDONLY (Some a) r (pipe_alloc (Some a) buf w))"

definition fresh_ends :: "nat \<Rightarrow> nat \<Rightarrow> nat \<Rightarrow> fworld \<Rightarrow> bool" where
  "fresh_ends a r x w \<longleftrightarrow> pipe_at w a = None \<and> file_at w r = None \<and> file_at w x = None \<and> r \<noteq> x"

lemmas ends_simps = new_ends_def new_file_def pipe_alloc_def

lemma fresh_refs: "files_ok w \<Longrightarrow> file_at w f = None \<Longrightarrow> slots f w = 0 \<and> held w f = 0"
  using refs_okD(1) [of w f] by (simp add: files_ok_def refs_to_def)

lemma new_ends_count:
  assumes "files_ok w" "fresh_ends a r x w"
  shows "pipe_counts p (new_ends a r x buf w)"
proof (cases "p = a")
  case True
  have "\<not> is_end a rd (file_at w f)" for rd f
    using assms unfolding files_ok_def fresh_ends_def pipe_counts_def by (auto dest: spec [of _ a])
  then have e: "is_end a rd (file_at (new_ends a r x buf w) f) \<longleftrightarrow> f = (if rd then r else x)" for rd f
    using assms(2) by (auto simp: ends_simps is_end_def fresh_ends_def O_RDONLY_def O_WRONLY_def)
  have "pipe_at (new_ends a r x buf w) a = Some (pipe_new buf)" by (simp add: ends_simps)
  moreover have "\<exists>f rd. f = (if rd then r else x)" by blast
  ultimately show ?thesis unfolding True pipe_counts_def e by (simp only: option.case) (simp add: pipe_new_def)
next
  case False
  show ?thesis
    by (rule same_ends [of _ "new_ends a r x buf w" w])
      (use False assms in \<open>auto simp: ends_simps is_end_def fresh_ends_def files_ok_def\<close>)
qed

lemma new_ends_ok:
  assumes "files_ok w" "fresh_ends a r x w"
  shows "files_ok (new_ends a r x buf w)" "tabs (new_ends a r x buf w) = tabs w" "held (new_ends a r x buf w) = (held w)(r := 1, x := 1)"
proof -
  let ?w = "new_ends a r x buf w"
  have f: "held w r = 0" "held w x = 0" "slots r w = 0" "slots x w = 0" "r \<noteq> x"
    using fresh_refs [OF assms(1)] assms(2) by (simp_all add: fresh_ends_def)
  show t: "tabs ?w = tabs w" and h: "held ?w = (held w)(r := 1, x := 1)" using f by (simp_all add: ends_simps)
  have s: "slots g ?w = slots g w" for g by (simp add: slots_def t)
  have old: "refs_ok w" using assms(1) by (simp add: files_ok_def)
  have "refs_ok ?w"
  proof (rule refs_okI)
    fix g assume "file_at ?w g = None"
    then have "g \<noteq> r" "g \<noteq> x" "file_at w g = None" by (auto simp: ends_simps split: if_splits)
    with refs_okD(1) [OF old, of g] show "refs_to g ?w = 0" by (simp add: refs_to_def s h)
  next
    fix g y assume y: "file_at ?w g = Some y"
    show "unat (f_refs y) = refs_to g ?w \<and> 0 < refs_to g ?w"
    proof (cases "g = r \<or> g = x")
      case True
      with y have "f_refs y = 1" by (auto simp: ends_simps split: if_splits)
      with True f show ?thesis by (auto simp: refs_to_def s h)
    next
      case False
      with y have "file_at w g = Some y" by (simp add: ends_simps)
      from refs_okD(2) [OF old this] False show ?thesis by (simp add: refs_to_def s h)
    qed
  qed
  moreover have "finite (dom (file_at ?w))" using assms(1) by (simp add: ends_simps files_ok_def)
  ultimately show "files_ok ?w" using assms(1) new_ends_count [OF assms] t by (simp add: files_ok_def tabs_ok_def)
qed

text \<open>Clearing a slot undoes filling it, and both leave alone what releasing another file does.\<close>

lemma take_put_slot:
  assumes "put_slot t i f w = Some w1" "tab t w = Some y" "i < length (fd y)" "fd y ! i = None" "0 < held w f"
  shows "take_slot t i w1 = Some (Some f, w)"
proof -
  have t: "t < length (tabs w)" "tabs w ! t = Some y" using tab_len [OF assms(2)] assms(2) by (simp_all add: tab_def)
  have "(fd y)[i := None] = fd y" using assms(4) by (metis list_update_id)
  moreover have "(tabs w)[t := Some y] = tabs w" using t(2) by (metis list_update_id)
  moreover have "w1 = set_tab t (Some (y\<lparr>fd := (fd y)[i := Some f]\<rparr>)) (w\<lparr>held := (held w)(f := held w f - 1)\<rparr>)"
    using assms(1,2) by (simp add: put_slot_def)
  ultimately show ?thesis using assms(3,5) t(1) by (simp add: take_slot_def tab_def set_tab_def)
qed

lemma take_slot_other:
  assumes "put_slot t j g w = Some w1" "take_slot t i w = Some (Some f, w2)" "i \<noteq> j" "f \<noteq> g"
  shows "\<exists>w3. put_slot t j g w2 = Some w3 \<and> take_slot t i w1 = Some (Some f, w3)"
proof -
  from assms(1) obtain y where y: "tab t w = Some y" by (auto simp: put_slot_def)
  then have t: "t < length (tabs w)" "tabs w ! t = Some y" using tab_len [OF y] by (simp_all add: tab_def)
  have "fd y ! i = Some f" and w2: "w2 = set_tab t (Some (y\<lparr>fd := (fd y)[i := None]\<rparr>)) (w\<lparr>held := (held w)(f := Suc (held w f))\<rparr>)"
    using assms(2) y by (auto simp: take_slot_def split: option.splits)
  moreover have "w1 = set_tab t (Some (y\<lparr>fd := (fd y)[j := Some g]\<rparr>)) (w\<lparr>held := (held w)(g := held w g - 1)\<rparr>)"
    using assms(1) y by (simp add: put_slot_def)
  ultimately show ?thesis using t assms(3,4)
    by (simp add: take_slot_def put_slot_def tab_def set_tab_def list_update_swap [of i j] fun_upd_twist [of f g])
qed

lemma file_put_frame:
  "file_put f (w\<lparr>tabs := T, held := H\<rparr>) = map_option (\<lambda>v. v\<lparr>tabs := T, held := H(f := H f - 1)\<rparr>) (file_put f w)"
proof (cases "file_at w f")
  case (Some x)
  then show ?thesis
    by (cases w) (auto simp: file_put_def file_free_def Let_def option.map_comp o_def split: option.split)
qed (simp add: file_put_def)

lemma file_put_keeps: "file_put f w = Some w' \<Longrightarrow> tabs w' = tabs w \<and> held w' = (held w)(f := held w f - 1)"
  using file_put_frame [where f = f and w = w and T = "tabs w" and H = "held w"] by (cases w') auto

lemma put_slot_release:
  assumes "put_slot t j g w = Some w1" "file_put f w = Some w2" "f \<noteq> g"
  shows "\<exists>w3. put_slot t j g w2 = Some w3 \<and> file_put f w1 = Some w3"
proof -
  from assms(1) obtain y where y: "tab t w = Some y" by (auto simp: put_slot_def)
  define T where "T = (tabs w)[t := Some (y\<lparr>fd := (fd y)[j := Some g]\<rparr>)]"
  have k: "tabs w2 = tabs w" "held w2 = (held w)(f := held w f - 1)" using file_put_keeps [OF assms(2)] by simp_all
  have "w1 = w\<lparr>tabs := T, held := (held w)(g := held w g - 1)\<rparr>" using assms(1) y
    by (cases w) (simp add: put_slot_def set_tab_def T_def)
  then have "file_put f w1 = Some (w2\<lparr>tabs := T, held := (held w)(g := held w g - 1, f := held w f - 1)\<rparr>)"
    using assms(2,3) by (simp only: file_put_frame) simp
  moreover have "put_slot t j g w2 = Some (w2\<lparr>tabs := T, held := (held w)(f := held w f - 1, g := held w g - 1)\<rparr>)"
    using y assms(3) tab_cong [OF k(1), of t] k by (cases w2) (simp add: put_slot_def set_tab_def T_def)
  ultimately show ?thesis using fun_upd_twist [OF assms(3)] by metis
qed

text \<open>Releasing both new ends brings the old state back.\<close>

lemma release_ends:
  assumes "files_ok w" "fresh_ends a r x w"
  shows "\<exists>w1. file_put r (new_ends a r x buf w) = Some w1 \<and> file_put x w1 = Some w"
proof -
  have f: "held w r = 0" "held w x = 0" using fresh_refs [OF assms(1)] assms(2) by (simp_all add: fresh_ends_def)
  then show ?thesis using assms(2)
    by (simp add: ends_simps file_put_def file_free_def Let_def fresh_ends_def pipe_new_def O_RDONLY_def O_WRONLY_def)
      (rule fworld.equality; simp add: fun_eq_iff)
qed

lemma close_put_slot:
  assumes "put_slot t i f w = Some w1" "tab t w = Some y" "length (fd y) = NOFILE" "i < NOFILE" "fd y ! i = None" "0 < held w f"
  shows "fd_close (Some t) (int i) w1 = file_put f w"
  using take_put_slot [OF assms(1,2) _ assms(5,6)] assms(3,4) by (simp add: fd_close_def bad_fd_def)

lemma free_slot_least: "free_slot 0 limit y = Some i \<Longrightarrow> k < i \<Longrightarrow> fd y ! k \<noteq> None"
  unfolding free_slot_def by (auto simp: find_Some_iff)

text \<open>Closing the two new descriptors, in the order of the code, releases the two ends.\<close>

lemma close_both:
  assumes ok: "files_ok w" "tab t w = Some y" and i: "i < NOFILE" "fd y ! i = None" and j: "j < NOFILE" "(fd y)[i := Some r] ! j = None"
    and h: "0 < held w r" "0 < held w x" "r \<noteq> x" and p: "put_slot t i r w = Some w1" "put_slot t j x w1 = Some w2"
  shows "Option.bind (fd_close (Some t) (int i) w2) (fd_close (Some t) (int j)) = Option.bind (file_put r w) (file_put x)"
proof -
  have l: "length (fd y) = NOFILE" using tab_size [OF ok] .
  have ij: "i \<noteq> j" "fd y ! j = None" using i j l by (auto simp: nth_list_update split: if_splits)
  from take_put_slot [OF p(1) ok(2) _ i(2) h(1)] i(1) l have "take_slot t i w1 = Some (Some r, w)" by simp
  from take_slot_other [OF p(2) this ij(1) h(3)] obtain w3 where w3: "put_slot t j x w = Some w3" "take_slot t i w2 = Some (Some r, w3)" by blast
  from put_ok [OF ok(1) h(1)] obtain w4 where w4: "file_put r w = Some w4" "tabs w4 = tabs w" "held w4 = (held w)(r := held w r - 1)" by blast
  from put_slot_release [OF w3(1) w4(1) h(3)] obtain w5 where w5: "put_slot t j x w4 = Some w5" "file_put r w3 = Some w5" by blast
  have "tab t w4 = Some y" using ok(2) tab_cong [OF w4(2), of t] by simp
  then have "fd_close (Some t) (int j) w5 = file_put x w4" using close_put_slot [OF w5(1) _ l j(1) ij(2)] h(2,3) w4(3) by simp
  moreover have "fd_close (Some t) (int i) w2 = Some w5" using w3(2) w5(2) i(1) by (simp add: fd_close_def bad_fd_def)
  ultimately show ?thesis using w4(1) by simp
qed

definition installed :: "nat \<Rightarrow> files_t \<Rightarrow> nat option \<Rightarrow> nat option \<Rightarrow> fworld \<Rightarrow> nat \<Rightarrow> nat \<Rightarrow> fworld \<Rightarrow> bool" where
  "installed t y rdf wrf w i j w' \<longleftrightarrow>
     i < j \<and> j < NOFILE \<and> fd y ! i = None \<and> fd y ! j = None \<and> (\<forall>k < j. k \<noteq> i \<longrightarrow> fd y ! k \<noteq> None)
   \<and> tab t w' = Some (y\<lparr>fd := (fd y)[i := rdf, j := wrf]\<rparr>) \<and> (\<forall>t'. t' \<noteq> t \<longrightarrow> tab t' w' = tab t' w) \<and> held w' = held w"

lemma alloc_soft:
  "tab t w = Some y \<Longrightarrow> fd_alloc_limit (Some t) (Some f) 0 (soft_limit soft) w =
    (case free_slot 0 (soft_limit soft) y of None \<Rightarrow> Some (Inl EMFILE, w) | Some i \<Rightarrow> map_option (Pair (Inr i)) (put_slot t i f w))"
  using soft_limit_le [of soft] by (simp add: fd_alloc_limit_def)

lemma undo_eq: "undo_install t f (Inl e) = file_put f" "undo_install t f (Inr n) = fd_close (Some t) (int n)"
  by (simp_all add: undo_install_def fun_eq_iff)

text \<open>Fewer than two descriptors below the limit are free.\<close>

definition few_free :: "u64 \<Rightarrow> files_t \<Rightarrow> bool" where
  "few_free soft y \<longleftrightarrow> length (filter (\<lambda>k. fd y ! k = None) [0..<soft_limit soft]) < 2"

lemma few_freeI:
  assumes "\<And>k. k < soft_limit soft \<Longrightarrow> k \<noteq> i \<Longrightarrow> fd y ! k \<noteq> None"
  shows "few_free soft y"
proof -
  define F where "F = filter (\<lambda>k. fd y ! k = None) [0..<soft_limit soft]"
  have "distinct F" "set F \<subseteq> {i}" unfolding F_def using assms by (simp, fastforce)
  then have "length F \<le> 1" using card_mono [of "{i}" "set F"] by (simp add: distinct_card)
  then show ?thesis by (simp add: few_free_def F_def)
qed

lemma free_slot_None: "free_slot 0 limit y = None \<Longrightarrow> k < limit \<Longrightarrow> fd y ! k \<noteq> None"
  unfolding free_slot_def by (auto simp: find_None_iff)

text \<open>\<open>handed E r x\<close> is the state in which the creator has handed over both ends.\<close>

definition handed :: "fworld \<Rightarrow> nat \<Rightarrow> nat \<Rightarrow> fworld" where
  "handed E r x = E\<lparr>held := (held E)(r := held E r - 1, x := held E x - 1)\<rparr>"

lemma install_second:
  assumes ok: "files_ok E" "tab t E = Some y" and h: "0 < held E r" "0 < held E x" "r \<noteq> x"
    and undo: "Option.bind (file_put r E) (file_put x) = Some w" and i: "free_slot 0 (soft_limit soft) y = Some i"
  shows "\<exists>res w'. pipe_install t r x soft fault E = Some (res, w')
    \<and> (case res of Inl e \<Rightarrow> w' = w \<and> (e = EMFILE \<and> few_free soft y \<or> fault = Some e) | Inr (i, j) \<Rightarrow> files_ok w' \<and> installed t y (Some r) (Some x) (handed E r x) i j w')"
proof -
  note alloc = alloc_soft [where soft = soft] and L = soft_limit_le [of soft] and len = tab_size [OF ok]
  from free_slot_Some [OF i] L have i': "i < NOFILE" "fd y ! i = None" by auto
  from put_slot_ok [OF ok i' h(1)] obtain w1 where w1: "put_slot t i r E = Some w1" "files_ok w1" "held w1 = (held E)(r := held E r - 1)"
    "tab t w1 = Some (y\<lparr>fd := (fd y)[i := Some r]\<rparr>)" "\<And>t'. t' \<noteq> t \<Longrightarrow> tab t' w1 = tab t' E" by blast
  show ?thesis
  proof (cases "free_slot 0 (soft_limit soft) (y\<lparr>fd := (fd y)[i := Some r]\<rparr>)")
    case None
    have "fd y ! k \<noteq> None" if "k < soft_limit soft" "k \<noteq> i" for k using free_slot_None [OF None that(1)] that(2) by simp
    then have "few_free soft y" by (rule few_freeI)
    with None undo i close_put_slot [OF w1(1) ok(2) len i' h(1)] show ?thesis
      by (simp add: pipe_install_def alloc [OF ok(2)] w1(1) alloc [OF w1(4)] undo_eq)
  next
    case (Some j)
    from free_slot_Some [OF Some] L have j: "j < NOFILE" "(fd y)[i := Some r] ! j = None" by auto
    have "0 < held w1 x" using h by (simp add: w1(3))
    with put_slot_ok [OF w1(2,4) j(1), of x] j(2) obtain w2 where w2: "put_slot t j x w1 = Some w2" "files_ok w2" "held w2 = (held w1)(x := held w1 x - 1)"
      "tab t w2 = Some (y\<lparr>fd := (fd y)[i := Some r, j := Some x]\<rparr>)" "\<And>t'. t' \<noteq> t \<Longrightarrow> tab t' w2 = tab t' w1" by auto
    have c: "Option.bind (fd_close (Some t) (int i) w2) (fd_close (Some t) (int j)) = Some w"
      using close_both [OF ok i' j h w1(1) w2(1)] undo by simp
    have res: "pipe_install t r x soft fault E = (case fault of Some e \<Rightarrow> Some (Inl e, w) | None \<Rightarrow> Some (Inr (i, j), w2))"
      using i Some c by (simp add: pipe_install_def alloc [OF ok(2)] w1(1) alloc [OF w1(4)] w2(1) split: option.split)
    have "fd y ! k \<noteq> None" if "k < j" "k \<noteq> i" for k using free_slot_least [OF Some that(1)] that(2) by simp
    moreover have "\<not> j < i" "j \<noteq> i" "fd y ! j = None"
      using free_slot_least [OF i, of j] j len i' by (auto simp: nth_list_update split: if_splits)
    moreover have "tab t' (handed E r x) = tab t' E" for t' by (rule tab_cong) (simp add: handed_def)
    moreover have "held w2 = held (handed E r x)" using h by (simp add: w2(3) w1(3) handed_def)
    ultimately have "installed t y (Some r) (Some x) (handed E r x) i j w2" using i' j w2(4,5) w1(5) by (simp add: installed_def)
    with res w2(2) show ?thesis by (cases fault) simp_all
  qed
qed

lemma pipe_install_ok:
  assumes ok: "files_ok w" "tab t w = Some y" and fr: "fresh_ends a r x w"
  shows "\<exists>res w'. pipe_install t r x soft fault (new_ends a r x buf w) = Some (res, w') \<and> files_ok w'
    \<and> (case res of Inl e \<Rightarrow> w' = w \<and> (e = EMFILE \<and> few_free soft y \<or> fault = Some e) | Inr (i, j) \<Rightarrow> installed t y (Some r) (Some x) w i j w')"
proof -
  define E where "E = new_ends a r x buf w"
  have E: "files_ok E" "tabs E = tabs w" "held E = (held w)(r := 1, x := 1)" using new_ends_ok [OF ok(1) fr] by (simp_all add: E_def)
  have t: "tab t E = Some y" using ok(2) tab_cong [OF E(2), of t] by simp
  have h: "0 < held E r" "0 < held E x" "r \<noteq> x" "held w r = 0" "held w x = 0" using fr fresh_refs [OF ok(1)] by (simp_all add: fresh_ends_def E(3))
  then have "held (handed E r x) = held w" by (auto simp: handed_def E(3))
  moreover have "tab t' (handed E r x) = tab t' w" for t' by (rule tab_cong) (simp add: handed_def E(2))
  ultimately have same: "installed t y (Some r) (Some x) (handed E r x) = installed t y (Some r) (Some x) w"
    by (simp add: installed_def fun_eq_iff)
  have undo: "Option.bind (file_put r E) (file_put x) = Some w" using release_ends [OF ok(1) fr, of buf] by (auto simp: E_def)
  have "\<exists>res w'. pipe_install t r x soft fault E = Some (res, w') \<and> files_ok w'
    \<and> (case res of Inl e \<Rightarrow> w' = w \<and> (e = EMFILE \<and> few_free soft y \<or> fault = Some e) | Inr (i, j) \<Rightarrow> installed t y (Some r) (Some x) w i j w')"
  proof (cases "free_slot 0 (soft_limit soft) y")
    case None
    have "few_free soft y" by (rule few_freeI) (rule free_slot_None [OF None])
    with None show ?thesis using undo ok(1) by (simp add: pipe_install_def alloc_soft [OF t] undo_eq)
  next
    case (Some i)
    from install_second [OF E(1) t h(1-3) undo Some, of fault] ok(1) show ?thesis unfolding same by (fastforce split: sum.splits)
  qed
  then show ?thesis by (simp only: E_def)
qed

definition fresh_for :: "nat option \<Rightarrow> nat option \<Rightarrow> nat option \<Rightarrow> fworld \<Rightarrow> bool" where
  "fresh_for p rdf wrf w \<longleftrightarrow> (case p of None \<Rightarrow> True | Some a \<Rightarrow> pipe_at w a = None)
   \<and> (case rdf of None \<Rightarrow> True | Some r \<Rightarrow> file_at w r = None \<and> wrf \<noteq> rdf) \<and> (case wrf of None \<Rightarrow> True | Some x \<Rightarrow> file_at w x = None)"

definition pipe_refused :: "nat option \<Rightarrow> nat option \<Rightarrow> nat option \<Rightarrow> u64 \<Rightarrow> errno option \<Rightarrow> files_t \<Rightarrow> errno \<Rightarrow> bool" where
  "pipe_refused p rdf wrf soft fault y e \<longleftrightarrow>
     e = ENOMEM \<and> (p = None \<or> rdf = None \<or> wrf = None) \<or> e = EMFILE \<and> few_free soft y \<or> fault = Some e"

text \<open>When there is no memory for the writing end, the reading end and the pipe are released.\<close>

lemma release_reader:
  assumes "files_ok w" "pipe_at w a = None" "file_at w r = None"
  shows "\<exists>v. file_free r (new_file FD_PIPE O_RDONLY (Some a) r (pipe_alloc (Some a) buf w)) = Some v
    \<and> pipe_free a (v\<lparr>held := (held v)(r := held v r - 1)\<rparr>) = w"
proof -
  have "held w r = 0" using fresh_refs [OF assms(1,3)] by simp
  then show ?thesis using assms(2,3)
    by (cases w) (simp add: new_file_def pipe_alloc_def file_free_def Let_def pipe_free_def pipe_new_def fun_upd_idem)
qed

lemma do_pipe_ok:
  assumes ok: "files_ok w" "tab t w = Some y" and fr: "fresh_for p rdf wrf w"
  shows "\<exists>res w'. do_pipe (Some t) p rdf wrf buf soft fault w = Some (res, w') \<and> files_ok w'
    \<and> (case res of Inl e \<Rightarrow> w' = w \<and> pipe_refused p rdf wrf soft fault y e | Inr (i, j) \<Rightarrow> installed t y rdf wrf w i j w')"
proof (cases "p = None \<or> rdf = None \<or> wrf = None")
  case False
  then obtain a r x where s: "p = Some a" "rdf = Some r" "wrf = Some x" by auto
  with fr have "fresh_ends a r x w" by (auto simp: fresh_for_def fresh_ends_def)
  from pipe_install_ok [OF ok this, of soft fault buf] show ?thesis
    unfolding s by (fastforce simp: do_pipe_def new_ends_def pipe_refused_def split: sum.splits)
next
  case True
  then consider "p = None" | a where "p = Some a" "rdf = None" | a r where "p = Some a" "rdf = Some r" "wrf = None" by blast
  then show ?thesis
  proof cases
    case 2
    with fr have "pipe_free a (pipe_alloc p buf w) = w" by (cases w) (simp add: fresh_for_def pipe_free_def pipe_alloc_def fun_upd_idem)
    with 2 ok show ?thesis by (simp add: do_pipe_def pipe_refused_def)
  next
    case 3
    with fr have "pipe_at w a = None" "file_at w r = None" by (simp_all add: fresh_for_def)
    from release_reader [OF ok(1) this, of buf] 3 ok show ?thesis by (auto simp: do_pipe_def pipe_refused_def)
  qed (simp add: do_pipe_def pipe_refused_def ok)
qed

section \<open>The limit stays in range\<close>

text \<open>The two limits never exceed the size of a table, so the narrowing of the soft limit in \<open>fd_alloc\<close> loses nothing.\<close>

definition limits_ok :: "limits \<Rightarrow> bool" where
  "limits_ok l \<longleftrightarrow> nofile_soft l \<le> nofile_hard l \<and> nofile_hard l \<le> of_nat NOFILE"

lemma limits_init: "limits_ok task_nofile_init"
  by (simp add: limits_ok_def task_nofile_init_def)

lemma limits_update: "limits_ok l \<Longrightarrow> task_nofile_update (Some l) new = (r, old, Some l') \<Longrightarrow> limits_ok l'"
  by (auto simp: task_nofile_update_def limits_ok_def Let_def not_less split: option.splits prod.splits if_splits)

lemma fd_alloc_soft: "limits_ok l \<Longrightarrow> fd_alloc fs f (task_nofile_soft (Some l)) = fd_alloc_limit fs f 0 (soft_limit (nofile_soft l))"
  using order_trans [of "nofile_soft l" "nofile_hard l" "of_nat NOFILE"]
  by (simp add: fd_alloc_def fun_eq_iff task_nofile_soft_def soft_limit_def limits_ok_def leD)

section \<open>Sequences of calls\<close>

text \<open>
  The calls that tasks make on a table, in any order and number. \<open>Get_file\<close> and \<open>Put_file\<close> are the two ends of
  every other operation on a descriptor, and \<open>Install\<close> is the last step of opening a file.
\<close>

datatype fcall =
    Close nat int
  | Dup nat int u64
  | Dupfd nat int int u64
  | Dup2 nat int int u64
  | Get_file nat int
  | Put_file nat
  | Install nat nat u64
  | Copy_table bool nat
  | Pin nat
  | Unpin nat
  | Make_pipe nat "nat option" "nat option" "nat option" "u8 list" u64 "errno option"

fun run_call :: "fcall \<Rightarrow> fworld \<Rightarrow> fworld option" where
  "run_call (Close t n) w = fd_close (Some t) n w"
| "run_call (Dup t n soft) w = map_option snd (fd_dup (Some t) n soft w)"
| "run_call (Dupfd t n m soft) w = map_option snd (fd_dupfd (Some t) n m soft w)"
| "run_call (Dup2 t n m soft) w = map_option snd (fd_dup2 (Some t) n m soft w)"
| "run_call (Get_file t n) w = map_option snd (files_get_file (Some t) n w)"
| "run_call (Put_file f) w = file_put f w"
| "run_call (Install t f soft) w = map_option snd (fd_alloc (Some t) (Some f) soft w)"
| "run_call (Copy_table memory t) w = map_option snd (files_dup memory (Some t) w)"
| "run_call (Pin t) w = files_pin (Some t) w"
| "run_call (Unpin t) w = files_unpin (Some t) w"
| "run_call (Make_pipe t p rdf wrf buf soft fault) w = map_option snd (do_pipe (Some t) p rdf wrf buf soft fault w)"

text \<open>
  What a caller owes: its table is live, it releases and installs only references that it holds, and what the
  allocator returns is not in use.
\<close>

fun allowed :: "fcall \<Rightarrow> fworld \<Rightarrow> bool" where
  "allowed (Close t n) w = (tab t w \<noteq> None)"
| "allowed (Dup t n soft) w = (tab t w \<noteq> None)"
| "allowed (Dupfd t n m soft) w = (tab t w \<noteq> None)"
| "allowed (Dup2 t n m soft) w = (tab t w \<noteq> None)"
| "allowed (Get_file t n) w = (tab t w \<noteq> None)"
| "allowed (Put_file f) w = (0 < held w f)"
| "allowed (Install t f soft) w = (tab t w \<noteq> None \<and> 0 < held w f)"
| "allowed (Copy_table memory t) w = (tab t w \<noteq> None)"
| "allowed (Pin t) w = (tab t w \<noteq> None)"
| "allowed (Unpin t) w = (tab t w \<noteq> None)"
| "allowed (Make_pipe t p rdf wrf buf soft fault) w = (tab t w \<noteq> None \<and> fresh_for p rdf wrf w)"

text \<open>The counts are 32 bits wide: no file is near the end of them.\<close>

definition room :: "fworld \<Rightarrow> bool" where
  "room w \<longleftrightarrow> (\<forall>f x. file_at w f = Some x \<longrightarrow> unat (f_refs x) + NOFILE < 2 ^ 32)"

primrec run_calls :: "fcall list \<Rightarrow> fworld \<Rightarrow> fworld option" where
  "run_calls [] w = Some w"
| "run_calls (c # cs) w = Option.bind (run_call c w) (run_calls cs)"

primrec allowed_calls :: "fcall list \<Rightarrow> fworld \<Rightarrow> bool" where
  "allowed_calls [] w = True"
| "allowed_calls (c # cs) w = (allowed c w \<and> room w \<and> (case run_call c w of None \<Rightarrow> True | Some w' \<Rightarrow> allowed_calls cs w'))"

lemma room_refs:
  assumes "files_ok w" "room w"
  shows "refs_to f w + NOFILE < 2 ^ 32"
proof (cases "file_at w f")
  case None
  then show ?thesis using refs_okD(1) [of w f] assms(1) by (simp add: files_ok_def NOFILE_def)
next
  case (Some x)
  then have "unat (f_refs x) = refs_to f w" using refs_okD(2) [of w f x] assms(1) by (simp add: files_ok_def)
  moreover have "unat (f_refs x) + NOFILE < 2 ^ 32" using Some assms(2) by (simp only: room_def)
  ultimately show ?thesis by simp
qed

lemma call_ok:
  assumes ok: "files_ok w" and al: "allowed c w" and ro: "room w"
  shows "\<exists>w'. run_call c w = Some w' \<and> files_ok w'"
proof -
  note n = room_refs [OF ok ro]
  have n1: "refs_to f w + 1 < 2 ^ 32" for f using n [of f] by (simp add: NOFILE_def)
  note dup = dup_install_ok [OF ok _ _ soft_limit_le n1]
  show ?thesis
  proof (cases c)
    case (Close t m)
    with al close_ok [OF ok, of t _ m] show ?thesis by auto
  next
    case (Dup t m soft)
    with al dup [of t _ "nat m" 0 soft] good_fd [of m] ok show ?thesis by (fastforce simp: fd_dup_def)
  next
    case (Dupfd t m k soft)
    with al dup [of t _ "nat m" "nat k" soft] good_fd [of m] ok show ?thesis by (fastforce simp: fd_dupfd_def)
  next
    case (Dup2 t m k soft)
    with al dup2_ok [OF ok _ n1, of t _ m k soft] show ?thesis by fastforce
  next
    case (Get_file t m)
    with al get_file_ok [OF ok _ n1, of t _ m] show ?thesis by fastforce
  next
    case (Put_file f)
    with al put_ok [OF ok, of f] show ?thesis by auto
  next
    case (Install t f soft)
    with al alloc_limit_ok [OF ok, of t _ f] show ?thesis by (fastforce simp: fd_alloc_def)
  next
    case (Copy_table memory t)
    with al files_dup_ok [OF ok _ n, of t _ memory] show ?thesis by fastforce
  next
    case (Pin t)
    with al set_refs_ok(1) [OF ok, of t] show ?thesis by (auto simp: files_pin_def)
  next
    case (Unpin t)
    with al unpin_ok [OF ok, of t] show ?thesis by auto
  next
    case (Make_pipe t p rdf wrf buf soft fault)
    with al do_pipe_ok [OF ok, of t _ p rdf wrf buf soft fault] show ?thesis by fastforce
  qed
qed

section \<open>Properties\<close>

text \<open>
  C39. Whatever tasks do to descriptor tables, in any order, as long as each call is \<^term>\<open>allowed\<close> (live table, own
  references, fresh memory) and no count is near the end of its 32 bits: no call reaches an object that was freed, and afterwards
  the count of every open file is again exactly the number of references to it, no freed file is referenced, every
  table has its \<^term>\<open>NOFILE\<close> slots, and the two counters of every pipe are the numbers of its open ends.
\<close>

theorem files_calls_ok:
  "files_ok w \<Longrightarrow> allowed_calls cs w \<Longrightarrow> \<exists>w'. run_calls cs w = Some w' \<and> files_ok w'"
proof (induction cs arbitrary: w)
  case (Cons c cs)
  then have "allowed c w" "room w" by simp_all
  from call_ok [OF Cons.prems(1) this] obtain w1 where "run_call c w = Some w1" "files_ok w1" by blast
  with Cons show ?case by simp
qed simp

definition w_start :: fworld where
  "w_start = \<lparr>file_at = (\<lambda>_. None), pipe_at = (\<lambda>_. None), tabs = [Some \<lparr>fd = replicate NOFILE None, fs_refs = 1\<rparr>], held = (\<lambda>_. 0)\<rparr>"

lemma w_start_ok: "files_ok w_start" "tab 0 w_start = Some \<lparr>fd = replicate NOFILE None, fs_refs = 1\<rparr>"
  by (simp_all add: w_start_def files_ok_def refs_ok_def tabs_ok_def pipe_counts_def refs_to_def slots_def count_in_def is_end_def tab_def
      NOFILE_def numeral_eq_Suc)

definition w_calls :: "fcall list" where
  "w_calls = [Make_pipe 0 (Some 0) (Some 0) (Some 1) [] 16 None, Close 0 0, Close 0 1]"

lemma w_eval: "NOFILE = 16" "replicate 16 (None :: nat option) = None # None # replicate 14 None"
  "soft_limit 16 = 16" "free_slot 0 16 \<lparr>fd = None # xs, fs_refs = n\<rparr> = Some 0"
  "free_slot 0 16 \<lparr>fd = Some f # None # xs, fs_refs = n\<rparr> = Some 1"
  by (simp_all add: NOFILE_def soft_limit_def free_slot_def upt_rec flip: replicate_Suc)

theorem files_calls_ok_witness:
  "files_ok w_start \<and> allowed_calls w_calls w_start \<and> (\<exists>w'. run_calls w_calls w_start = Some w' \<and> files_ok w')"
proof -
  have "allowed_calls w_calls w_start"
    by (simp add: w_calls_def w_start_def w_eval tab_def fresh_for_def room_def do_pipe_def pipe_install_def fd_alloc_limit_def
        put_slot_def take_slot_def set_tab_def fd_close_def bad_fd_def file_put_def file_free_def pipe_alloc_def pipe_new_def new_file_def
        O_RDONLY_def O_WRONLY_def Let_def)
  with files_calls_ok [of w_start w_calls] w_start_ok(1) show ?thesis by blast
qed

text \<open>
  C40. \<open>do_pipe\<close> does all or nothing. It returns, for every table, limit, outcome of the three allocations and of the
  copy to the user. If it returns an error, the state is exactly what it was: no slot stays taken, no file and no pipe
  is left, and none was freed twice. The error is then \<open>ENOMEM\<close> for a failed allocation, \<open>EMFILE\<close> when fewer than two
  descriptors below the limit are free, or the error of the copy. Otherwise the two ends are in the two lowest free
  slots, the reading end in the lower one, and no other slot of any table changed.
\<close>

theorem do_pipe_all_or_nothing:
  assumes "files_ok w" "tab t w = Some y" "fresh_for p rdf wrf w"
  shows "(\<exists>e. do_pipe (Some t) p rdf wrf buf soft fault w = Some (Inl e, w) \<and> pipe_refused p rdf wrf soft fault y e)
    \<or> (\<exists>i j w'. do_pipe (Some t) p rdf wrf buf soft fault w = Some (Inr (i, j), w') \<and> files_ok w' \<and> installed t y rdf wrf w i j w')"
  using do_pipe_ok [OF assms, of buf soft fault] by (fastforce split: sum.splits)

theorem do_pipe_all_or_nothing_witness:
  "\<exists>i j w'. do_pipe (Some 0) (Some 0) (Some 0) (Some 1) [] 16 None w_start = Some (Inr (i, j), w') \<and> files_ok w'
    \<and> installed 0 \<lparr>fd = replicate NOFILE None, fs_refs = 1\<rparr> (Some 0) (Some 1) w_start i j w'"
proof -
  have "filter (\<lambda>k. replicate 16 (None :: nat option) ! k = None) [0..<16] = [0..<16]" by (rule filter_True) simp
  then have "\<not> few_free 16 \<lparr>fd = replicate NOFILE None, fs_refs = 1\<rparr>" by (simp add: few_free_def w_eval(1,3))
  then have "\<not> pipe_refused (Some 0) (Some 0) (Some 1) 16 None \<lparr>fd = replicate NOFILE None, fs_refs = 1\<rparr> e" for e by (simp add: pipe_refused_def)
  moreover have "fresh_for (Some 0) (Some 0) (Some 1) w_start" by (simp add: fresh_for_def w_start_def)
  ultimately show ?thesis using do_pipe_all_or_nothing [OF w_start_ok, of "Some 0" "Some 0" "Some 1" "[]" 16 None] by blast
qed

end
